(* ===== verification/Prelude.thy ===== *)
theory Prelude
  imports Main "HOL-Library.Word" "HOL-Library.List_Lexorder"
begin

text \<open>
  Shared vocabulary of the development: Rust's machine types and strings, panics and
  early returns as values of a sum type, and the list, option and map lemmas the
  component theories have in common.
\<close>

section \<open>Collections of rules\<close>

named_theorems res_simps \<open>equations for \<open>res_bind\<close> and \<open>unwrap_or_panic\<close>\<close>
named_theorems frame \<open>an update outside a footprint leaves a predicate unchanged\<close>
named_theorems bounds_intros \<open>range facts of machine integers\<close>

section \<open>Rust's machine integers and strings\<close>

type_synonym u64 = "64 word"
type_synonym u32 = "32 word"

text \<open>
  A Rust \<open>char\<close> is a Unicode scalar value; it is kept as its code point. A \<open>String\<close> or
  \<open>&str\<close> is the list of its scalar values. \<open>chars\<close> turns an ASCII literal of the source
  into such a list.
\<close>

type_synonym scalar = nat
type_synonym rstring = "nat list"

definition chars :: "string \<Rightarrow> rstring" where
  "chars s = map of_char s"

lemma chars_simps [simp]:
  "chars [] = []"
  "chars (c # s) = of_char c # chars s"
  by (simp_all add: chars_def)

lemma chars_append [simp]: "chars (s @ t) = chars s @ chars t"
  by (simp add: chars_def)

lemma length_chars [simp]: "length (chars s) = length s"
  by (simp add: chars_def)

lemma unat_plus_1_no_wrap:
  fixes w :: u64
  assumes "unat w + 1 < 2 ^ 64"
  shows "unat (w + 1) = unat w + 1"
proof -
  have "unat (w + 1) = (unat w + 1) mod 2 ^ 64"
    by (simp add: unat_word_ariths)
  with assms show ?thesis by simp
qed

section \<open>Panics and early returns\<close>

text \<open>
  \<open>Inl\<close> carries the panic or error, \<open>Inr\<close> the value. \<open>res_bind\<close> is the \<open>?\<close> operator and
  the sequencing of statements that may panic.
\<close>

definition res_bind :: "'e + 'a \<Rightarrow> ('a \<Rightarrow> 'e + 'b) \<Rightarrow> 'e + 'b" where
  "res_bind r f = (case r of Inl e \<Rightarrow> Inl e | Inr a \<Rightarrow> f a)"

lemma res_bind_simps [simp, res_simps]:
  "res_bind (Inl e) f = Inl e"
  "res_bind (Inr a) f = f a"
  by (simp_all add: res_bind_def)

lemma res_bind_Inr_iff [res_simps]:
  "res_bind r f = Inr b \<longleftrightarrow> (\<exists>a. r = Inr a \<and> f a = Inr b)"
  by (cases r) simp_all

lemma res_bind_Inl_iff [res_simps]:
  "res_bind r f = Inl e \<longleftrightarrow> r = Inl e \<or> (\<exists>a. r = Inr a \<and> f a = Inl e)"
  by (cases r) simp_all

lemma res_bind_cong [fundef_cong]:
  "r = r' \<Longrightarrow> (\<And>a. r' = Inr a \<Longrightarrow> f a = g a) \<Longrightarrow> res_bind r f = res_bind r' g"
  by (cases r') simp_all

definition unwrap_or_panic :: "'e \<Rightarrow> 'a option \<Rightarrow> 'e + 'a" where
  "unwrap_or_panic e x = (case x of None \<Rightarrow> Inl e | Some a \<Rightarrow> Inr a)"

lemma unwrap_or_panic_simps [simp, res_simps]:
  "unwrap_or_panic e None = Inl e"
  "unwrap_or_panic e (Some a) = Inr a"
  by (simp_all add: unwrap_or_panic_def)

lemma unwrap_or_panic_Inr_iff [res_simps]: "unwrap_or_panic e x = Inr a \<longleftrightarrow> x = Some a"
  by (cases x) simp_all

text \<open>
  The same for computations that also may not return: \<open>None\<close> is a run that does not end.
\<close>

definition run_bind :: "('e + 'a) option \<Rightarrow> ('a \<Rightarrow> ('e + 'b) option) \<Rightarrow> ('e + 'b) option" where
  "run_bind m f = Option.bind m (\<lambda>r. case r of Inl e \<Rightarrow> Some (Inl e) | Inr a \<Rightarrow> f a)"

lemma run_bind_simps [simp, res_simps]:
  "run_bind None f = None"
  "run_bind (Some (Inl e)) f = Some (Inl e)"
  "run_bind (Some (Inr a)) f = f a"
  by (simp_all add: run_bind_def)

lemma run_bind_Inr_iff [res_simps]:
  "run_bind m f = Some (Inr b) \<longleftrightarrow> (\<exists>a. m = Some (Inr a) \<and> f a = Some (Inr b))"
  by (cases m; cases "the m") (auto simp: run_bind_def)

lemma run_bind_cong [fundef_cong]:
  "m = m' \<Longrightarrow> (\<And>a. m' = Some (Inr a) \<Longrightarrow> f a = g a) \<Longrightarrow> run_bind m f = run_bind m' g"
  by (cases m'; cases "the m'") (auto simp: run_bind_def)

lemma run_bind_mono [partial_function_mono]:
  assumes "mono_option B" "\<And>y. mono_option (\<lambda>f. C y f)"
  shows "mono_option (\<lambda>f. run_bind (B f) (\<lambda>y. C y f))"
  unfolding run_bind_def
proof (rule bind_mono [OF assms(1)])
  show "mono_option (\<lambda>f. case y of Inl e \<Rightarrow> Some (Inl e) | Inr a \<Rightarrow> C a f)" for y
    using assms(2) by (cases y) (simp_all add: option.const_mono)
qed

section \<open>Ends of lists as options\<close>

definition hd_opt :: "'a option \<Rightarrow> 'a list \<Rightarrow> 'a option" where
  "hd_opt d xs = (case xs of [] \<Rightarrow> d | x # _ \<Rightarrow> Some x)"

definition last_opt :: "'a option \<Rightarrow> 'a list \<Rightarrow> 'a option" where
  "last_opt d xs = (if xs = [] then d else Some (last xs))"

lemma hd_opt_simps [simp]:
  "hd_opt d [] = d"
  "hd_opt d (x # xs) = Some x"
  by (simp_all add: hd_opt_def)

lemma last_opt_simps [simp]:
  "last_opt d [] = d"
  "last_opt d (x # xs) = last_opt (Some x) xs"
  "last_opt d (xs @ [x]) = Some x"
  by (simp_all add: last_opt_def)

lemma hd_opt_append [simp]: "hd_opt d (xs @ ys) = hd_opt (hd_opt d ys) xs"
  by (cases xs) simp_all

lemma last_opt_append [simp]: "last_opt d (xs @ ys) = last_opt (last_opt d xs) ys"
  by (simp add: last_opt_def)

lemma hd_opt_None_iff [simp]: "hd_opt None xs = None \<longleftrightarrow> xs = []"
  by (cases xs) simp_all

lemma last_opt_None_iff [simp]: "last_opt None xs = None \<longleftrightarrow> xs = []"
  by (simp add: last_opt_def)

lemma hd_opt_Some_in: "hd_opt None xs = Some x \<Longrightarrow> x \<in> set xs"
  by (cases xs) simp_all

lemma last_opt_Some_in: "last_opt None xs = Some x \<Longrightarrow> x \<in> set xs"
  by (auto simp: last_opt_def split: if_splits)

lemma last_opt_Some_split: "last_opt None xs = Some x \<Longrightarrow> \<exists>ys. xs = ys @ [x]"
  by (metis append_butlast_last_id last_opt_def option.distinct(1) option.inject)

lemma filter_split:
  "filter P xs = as @ b # bs \<Longrightarrow>
   \<exists>ps qs. xs = ps @ b # qs \<and> filter P ps = as \<and> filter P qs = bs"
proof (induction xs arbitrary: as)
  case (Cons x xs)
  show ?case
  proof (cases "P x \<and> as = []")
    case True
    with Cons.prems show ?thesis by (intro exI [of _ "[]"] exI [of _ xs]) auto
  next
    case False
    then obtain as' where "filter P xs = as' @ b # bs" "as = (if P x then [x] else []) @ as'"
      using Cons.prems by (cases as) (auto split: if_splits)
    with Cons.IH [of as'] obtain ps qs where "xs = ps @ b # qs" "filter P ps = as'" "filter P qs = bs"
      by blast
    with \<open>as = _\<close> show ?thesis by (intro exI [of _ "x # ps"] exI [of _ qs]) auto
  qed
qed simp

lemma remove1_middle: "x \<notin> set xs \<Longrightarrow> remove1 x (xs @ x # ys) = xs @ ys"
  by (simp add: remove1_append)

end
