(* ===== verification/Chars.thy ===== *)
theory Chars
  imports Prelude
begin

text \<open>
  The parts of Rust's \<open>char\<close> and \<open>str\<close> the crates use: ASCII classification and case
  mapping, Unicode white space, trimming and splitting, UTF-8 lengths.
\<close>

section \<open>ASCII characters\<close>

abbreviation ch :: "char \<Rightarrow> scalar" where
  "ch \<equiv> of_char"

definition is_ascii :: "scalar \<Rightarrow> bool" where
  "is_ascii c \<longleftrightarrow> c < 128"

definition is_ascii_digit :: "scalar \<Rightarrow> bool" where
  "is_ascii_digit c \<longleftrightarrow> ch CHR ''0'' \<le> c \<and> c \<le> ch CHR ''9''"

definition is_ascii_uppercase :: "scalar \<Rightarrow> bool" where
  "is_ascii_uppercase c \<longleftrightarrow> ch CHR ''A'' \<le> c \<and> c \<le> ch CHR ''Z''"

definition is_ascii_lowercase :: "scalar \<Rightarrow> bool" where
  "is_ascii_lowercase c \<longleftrightarrow> ch CHR ''a'' \<le> c \<and> c \<le> ch CHR ''z''"

definition is_ascii_alphabetic :: "scalar \<Rightarrow> bool" where
  "is_ascii_alphabetic c \<longleftrightarrow> is_ascii_uppercase c \<or> is_ascii_lowercase c"

definition is_ascii_hexdigit :: "scalar \<Rightarrow> bool" where
  "is_ascii_hexdigit c \<longleftrightarrow>
     is_ascii_digit c \<or> ch CHR ''A'' \<le> c \<and> c \<le> ch CHR ''F'' \<or>
     ch CHR ''a'' \<le> c \<and> c \<le> ch CHR ''f''"

definition to_lower :: "scalar \<Rightarrow> scalar" where
  "to_lower c = (if is_ascii_uppercase c then c + 32 else c)"

definition to_ascii_lowercase :: "rstring \<Rightarrow> rstring" where
  "to_ascii_lowercase s = map to_lower s"

definition char_eq_ignore_ascii_case :: "scalar \<Rightarrow> scalar \<Rightarrow> bool" where
  "char_eq_ignore_ascii_case a b \<longleftrightarrow> to_lower a = to_lower b"

definition eq_ignore_ascii_case :: "rstring \<Rightarrow> rstring \<Rightarrow> bool" where
  "eq_ignore_ascii_case s t \<longleftrightarrow> to_ascii_lowercase s = to_ascii_lowercase t"

lemmas char_class_defs = is_ascii_def is_ascii_digit_def is_ascii_uppercase_def
  is_ascii_lowercase_def is_ascii_alphabetic_def is_ascii_hexdigit_def

lemma to_lower_idem [simp]: "to_lower (to_lower c) = to_lower c"
  by (simp add: to_lower_def char_class_defs)

lemma to_ascii_lowercase_idem [simp]:
  "to_ascii_lowercase (to_ascii_lowercase s) = to_ascii_lowercase s"
  by (simp add: to_ascii_lowercase_def)

lemma to_ascii_lowercase_simps [simp]:
  "to_ascii_lowercase [] = []"
  "to_ascii_lowercase (c # s) = to_lower c # to_ascii_lowercase s"
  by (simp_all add: to_ascii_lowercase_def)

lemma length_to_ascii_lowercase [simp]: "length (to_ascii_lowercase s) = length s"
  by (simp add: to_ascii_lowercase_def)

section \<open>White space\<close>

text \<open>\<open>char::is_whitespace\<close>: the Unicode property \<open>White_Space\<close>.\<close>

definition is_whitespace :: "scalar \<Rightarrow> bool" where
  "is_whitespace c \<longleftrightarrow>
     9 \<le> c \<and> c \<le> 13 \<or> c = 32 \<or> c = 0x85 \<or> c = 0xA0 \<or> c = 0x1680 \<or>
     0x2000 \<le> c \<and> c \<le> 0x200A \<or> c = 0x2028 \<or> c = 0x2029 \<or> c = 0x202F \<or>
     c = 0x205F \<or> c = 0x3000"

text \<open>\<open>str::trim_start\<close>, \<open>str::trim\<close> and \<open>str::split_whitespace\<close>.\<close>

definition trim_start :: "rstring \<Rightarrow> rstring" where
  "trim_start s = dropWhile is_whitespace s"

definition trim :: "rstring \<Rightarrow> rstring" where
  "trim s = rev (dropWhile is_whitespace (rev (trim_start s)))"

lemma split_whitespace_shrinks:
  assumes "trim_start s \<noteq> []"
  shows "length (dropWhile (\<lambda>c. \<not> is_whitespace c) (trim_start s)) < length s"
proof -
  from assms obtain c t where t: "trim_start s = c # t" by (cases "trim_start s") auto
  then have c: "\<not> is_whitespace c"
    unfolding trim_start_def using hd_dropWhile [of is_whitespace s] by force
  have "length (dropWhile (\<lambda>c. \<not> is_whitespace c) (c # t)) \<le> length t"
    using c length_dropWhile_le [of "\<lambda>c. \<not> is_whitespace c" t] by simp
  moreover have "length (c # t) \<le> length s"
    using t length_dropWhile_le [of is_whitespace s] by (simp add: trim_start_def)
  ultimately show ?thesis using t by simp
qed

function split_whitespace :: "rstring \<Rightarrow> rstring list" where
  "split_whitespace s =
     (let t = trim_start s
      in if t = [] then []
         else takeWhile (\<lambda>c. \<not> is_whitespace c) t #
              split_whitespace (dropWhile (\<lambda>c. \<not> is_whitespace c) t))"
  by pat_completeness auto
termination
  by (relation "measure length") (simp_all add: split_whitespace_shrinks)

declare split_whitespace.simps [simp del]

lemma trim_empty_iff: "trim s = [] \<longleftrightarrow> (\<forall>c\<in>set s. is_whitespace c)"
proof -
  have "set s = set (takeWhile is_whitespace s) \<union> set (dropWhile is_whitespace s)"
    by (metis set_append takeWhile_dropWhile_id)
  then show ?thesis
    by (auto simp: trim_def trim_start_def dropWhile_eq_Nil_conv dest: set_takeWhileD)
qed

section \<open>UTF-8\<close>

definition utf8_len :: "scalar \<Rightarrow> nat" where
  "utf8_len c = (if c < 0x80 then 1 else if c < 0x800 then 2 else if c < 0x10000 then 3 else 4)"

text \<open>\<open>str::len\<close> counts bytes.\<close>

definition byte_len :: "rstring \<Rightarrow> nat" where
  "byte_len s = sum_list (map utf8_len s)"

text \<open>
  \<open>&s[..n]\<close> and \<open>&s[n..]\<close> with a byte offset: \<open>None\<close> is the panic on an offset that is not
  on a character boundary or past the end.
\<close>

fun split_at_byte :: "nat \<Rightarrow> rstring \<Rightarrow> (rstring \<times> rstring) option" where
  "split_at_byte n [] = (if n = 0 then Some ([], []) else None)"
| "split_at_byte n (c # s) =
     (if n = 0 then Some ([], c # s)
      else if n < utf8_len c then None
      else map_option (\<lambda>(a, b). (c # a, b)) (split_at_byte (n - utf8_len c) s))"

lemma utf8_len_pos [simp]: "0 < utf8_len c"
  by (simp add: utf8_len_def)

lemma utf8_len_ascii: "is_ascii c \<Longrightarrow> utf8_len c = 1"
  by (simp add: utf8_len_def is_ascii_def)

lemma byte_len_simps [simp]:
  "byte_len [] = 0"
  "byte_len (c # s) = utf8_len c + byte_len s"
  "byte_len (s @ t) = byte_len s + byte_len t"
  by (simp_all add: byte_len_def)

lemma byte_len_ascii: "\<forall>c\<in>set s. is_ascii c \<Longrightarrow> byte_len s = length s"
  by (induction s) (simp_all add: utf8_len_ascii)

lemma split_at_byte_ascii:
  "\<forall>c\<in>set s. is_ascii c \<Longrightarrow> n \<le> length s \<Longrightarrow> split_at_byte n s = Some (take n s, drop n s)"
proof (induction s arbitrary: n)
  case (Cons c s)
  then show ?case by (cases n) (simp_all add: utf8_len_ascii)
qed simp

text \<open>\<open>char::from_u32\<close> and \<open>str::replace\<close> (with a non-empty pattern).\<close>

definition char_from_u32 :: "nat \<Rightarrow> scalar option" where
  "char_from_u32 n = (if n < 0xD800 \<or> 0xE000 \<le> n \<and> n \<le> 0x10FFFF then Some n else None)"

function str_replace :: "rstring \<Rightarrow> rstring \<Rightarrow> rstring \<Rightarrow> rstring" where
  "str_replace pat new s =
     (case s of
        [] \<Rightarrow> []
      | c # cs \<Rightarrow>
          if pat \<noteq> [] \<and> take (length pat) s = pat
          then new @ str_replace pat new (drop (length pat) s)
          else c # str_replace pat new cs)"
  by pat_completeness auto
termination
  by (relation "measure (\<lambda>(pat, new, s). length s)") auto

declare str_replace.simps [simp del]

section \<open>Numbers in strings\<close>

definition digit_value :: "scalar \<Rightarrow> nat" where
  "digit_value c =
     (if is_ascii_digit c then c - ch CHR ''0''
      else if is_ascii_uppercase c then c - ch CHR ''A'' + 10
      else c - ch CHR ''a'' + 10)"

definition radix_value :: "nat \<Rightarrow> rstring \<Rightarrow> nat" where
  "radix_value b s = foldl (\<lambda>n c. n * b + digit_value c) 0 s"

text \<open>
  \<open>from_str_radix\<close> of an unsigned type with the given bound, for radix 10 or 16: an optional
  \<open>+\<close>, at least one digit, \<open>None\<close> on any other character and on overflow.
\<close>

definition from_str_radix :: "nat \<Rightarrow> nat \<Rightarrow> rstring \<Rightarrow> nat option" where
  "from_str_radix bound b s =
     (let ds = (case s of c # t \<Rightarrow> if c = ch CHR ''+'' then t else s | [] \<Rightarrow> [])
      in if ds \<noteq> [] \<and> (\<forall>c\<in>set ds. if b = 16 then is_ascii_hexdigit c else is_ascii_digit c) \<and>
            radix_value b ds < bound
         then Some (radix_value b ds) else None)"

end
