(* ===== verification/Cursor.thy ===== *)
theory Cursor
  imports Chars
begin

text \<open>
  The character cursor of the two tokenizers: \<open>input: Vec<char>\<close> and \<open>pos: usize\<close>, with the
  \<open>peek\<close>, \<open>advance\<close> and look-ahead operations both have. A position is bounded by the length
  of a vector in memory plus a constant look-ahead, so it is kept as a natural number. The
  record is extensible; the HTML tokenizer adds its own fields.
\<close>

record cursor =
  c_input :: rstring
  c_pos :: nat

definition peek_at :: "'a cursor_scheme \<Rightarrow> nat \<Rightarrow> scalar option" where
  "peek_at t k =
     (if c_pos t + k < length (c_input t) then Some (c_input t ! (c_pos t + k)) else None)"

definition peek :: "'a cursor_scheme \<Rightarrow> scalar option" where
  "peek t = peek_at t 0"

definition skip :: "nat \<Rightarrow> 'a cursor_scheme \<Rightarrow> 'a cursor_scheme" where
  "skip n t = t\<lparr>c_pos := c_pos t + n\<rparr>"

definition advance :: "'a cursor_scheme \<Rightarrow> scalar option \<times> 'a cursor_scheme" where
  "advance t = (peek t, if peek t \<noteq> None then skip 1 t else t)"

definition matches_ahead :: "'a cursor_scheme \<Rightarrow> rstring \<Rightarrow> bool" where
  "matches_ahead t s = list_all (\<lambda>(i, c). peek_at t i = Some c) (enumerate 0 s)"

definition matches_ahead_ignore_case :: "'a cursor_scheme \<Rightarrow> rstring \<Rightarrow> bool" where
  "matches_ahead_ignore_case t s =
     list_all (\<lambda>(i, c). case peek_at t i of Some d \<Rightarrow> char_eq_ignore_ascii_case d c | None \<Rightarrow> False)
       (enumerate 0 s)"

section \<open>What is left to read\<close>

definition rest :: "'a cursor_scheme \<Rightarrow> rstring" where
  "rest t = drop (c_pos t) (c_input t)"

definition in_bounds :: "'a cursor_scheme \<Rightarrow> bool" where
  "in_bounds t \<longleftrightarrow> c_pos t \<le> length (c_input t)"

lemma peek_at_rest: "peek_at t k = (if k < length (rest t) then Some (rest t ! k) else None)"
  by (auto simp: peek_at_def rest_def)

lemma peek_at_Some_iff: "peek_at t k = Some c \<longleftrightarrow> k < length (rest t) \<and> rest t ! k = c"
  by (simp add: peek_at_rest)

lemma peek_rest: "peek t = (case rest t of [] \<Rightarrow> None | c # _ \<Rightarrow> Some c)"
  by (cases "rest t") (auto simp: peek_def peek_at_rest)

lemma peek_simps [simp]:
  "rest t = [] \<Longrightarrow> peek t = None"
  "rest t = c # cs \<Longrightarrow> peek t = Some c"
  by (simp_all add: peek_rest)

lemma peek_eq_iff:
  "peek t = None \<longleftrightarrow> rest t = []"
  "peek t = Some c \<longleftrightarrow> (\<exists>cs. rest t = c # cs)"
  by (auto simp: peek_rest split: list.splits)

lemma rest_skip [simp]: "rest (skip n t) = drop n (rest t)"
  by (simp add: rest_def skip_def add.commute)

lemma skip_simps [simp]:
  "skip 0 t = t" "skip m (skip n t) = skip (n + m) t"
  "c_input (skip n t) = c_input t" "c_pos (skip n t) = c_pos t + n"
  by (simp_all add: skip_def add.assoc)

lemma advance_simps:
  "rest t = [] \<Longrightarrow> advance t = (None, t)"
  "rest t = c # cs \<Longrightarrow> advance t = (Some c, skip 1 t)"
  by (simp_all add: advance_def)

lemma length_rest: "length (rest t) = length (c_input t) - c_pos t"
  by (simp add: rest_def)

lemma in_bounds_skip: "in_bounds t \<Longrightarrow> n \<le> length (rest t) \<Longrightarrow> in_bounds (skip n t)"
  by (simp add: in_bounds_def length_rest)

lemma matches_ahead_iff: "matches_ahead t s \<longleftrightarrow> take (length s) (rest t) = s"
proof -
  have "list_all (\<lambda>(i, c). k + i < length xs \<and> xs ! (k + i) = c) (enumerate n s) \<longleftrightarrow>
          take (length s) (drop (k + n) xs) = s" for xs :: rstring and k n
  proof (induction s arbitrary: n)
    case (Cons c s)
    show ?case
    proof (cases "k + n < length xs")
      case True
      then have "drop (k + n) xs = xs ! (k + n) # drop (k + Suc n) xs"
        by (simp add: Cons_nth_drop_Suc)
      with True Cons [of "Suc n"] show ?thesis by simp
    qed simp
  qed simp
  from this [of 0 "rest t" 0] show ?thesis
    by (simp add: matches_ahead_def peek_at_Some_iff)
qed

lemma matches_aheadD: "matches_ahead t s \<Longrightarrow> rest t = s @ drop (length s) (rest t)"
  by (metis append_take_drop_id matches_ahead_iff)

section \<open>Reading forward\<close>

text \<open>\<open>moves t t'\<close>: \<open>t'\<close> is \<open>t\<close> after reading some of its input, and not past the end.\<close>

definition moves :: "'a cursor_scheme \<Rightarrow> 'a cursor_scheme \<Rightarrow> bool" where
  "moves t t' \<longleftrightarrow> (\<exists>n\<le>length (rest t). t' = skip n t)"

lemma advance_shrinks:
  "peek t \<noteq> None \<Longrightarrow> length (rest (snd (advance t))) < length (rest t)"
  by (cases "rest t") (simp_all add: advance_simps)

lemma moves_refl [simp, intro]: "moves t t"
  unfolding moves_def by (rule exI [of _ 0]) simp

lemma moves_skip: "n \<le> length (rest t) \<Longrightarrow> moves t (skip n t)"
  unfolding moves_def by blast

lemma moves_trans [trans]: "moves t t' \<Longrightarrow> moves t' t'' \<Longrightarrow> moves t t''"
proof -
  assume "moves t t'" "moves t' t''"
  then obtain m n where "m \<le> length (rest t)" "t' = skip m t" "n \<le> length (rest t')" "t'' = skip n t'"
    unfolding moves_def by blast
  then show ?thesis by (simp add: moves_skip)
qed

lemma moves_advance [simp, intro]: "moves t (snd (advance t))"
  by (cases "rest t") (auto simp: advance_simps intro: moves_skip)

lemma moves_length: "moves t t' \<Longrightarrow> length (rest t') \<le> length (rest t)"
  by (auto simp: moves_def)

section \<open>Loops that read while a test holds\<close>

function consume_while ::
  "(scalar \<Rightarrow> bool) \<Rightarrow> 'a cursor_scheme \<Rightarrow> rstring \<Rightarrow> rstring \<times> 'a cursor_scheme" where
  "consume_while P t s =
     (case peek t of
        Some c \<Rightarrow> if P c then consume_while P (snd (advance t)) (s @ [c]) else (s, t)
      | None \<Rightarrow> (s, t))"
  by pat_completeness auto
termination
  by (relation "measure (\<lambda>(P, t, s). length (rest t))") (auto simp: peek_eq_iff advance_simps)

declare consume_while.simps [simp del]

lemma consume_while_eq:
  "consume_while P t s =
     (s @ takeWhile P (rest t), skip (length (takeWhile P (rest t))) t)"
proof (induction P t s rule: consume_while.induct)
  case (1 P t s)
  show ?case
  proof (cases "rest t")
    case Nil
    then show ?thesis by (simp add: consume_while.simps)
  next
    case (Cons c cs)
    show ?thesis
    proof (cases "P c")
      case True
      with 1 [of c] Cons show ?thesis
        by (subst consume_while.simps) (simp add: advance_simps)
    next
      case False
      with Cons show ?thesis by (subst consume_while.simps) simp
    qed
  qed
qed

lemma moves_consume_while [simp, intro]: "moves t (snd (consume_while P t s))"
  by (auto simp: consume_while_eq intro!: moves_skip length_takeWhile_le)

end
