(* ===== verification/Token_Stream.thy ===== *)
theory Token_Stream
  imports Cursor
begin

text \<open>
  The contract between a tokenizer and the code that reads its tokens: every token but the
  end mark makes some measure of the remaining input smaller. A reader that asks for tokens
  until the end mark therefore stops, with one list of tokens.
\<close>

locale token_stream =
  fixes pull :: "'s \<Rightarrow> 'tok \<times> 's"
    and eof :: 'tok
    and remaining :: "'s \<Rightarrow> nat"
  assumes progress: "pull s = (tok, s') \<Longrightarrow> tok \<noteq> eof \<Longrightarrow> remaining s' < remaining s"
begin

inductive drains :: "'s \<Rightarrow> 'tok list \<Rightarrow> bool" where
  stop: "pull s = (eof, s') \<Longrightarrow> drains s []"
| more: "pull s = (tok, s') \<Longrightarrow> tok \<noteq> eof \<Longrightarrow> drains s' toks \<Longrightarrow> drains s (tok # toks)"

lemma drains_total: "\<exists>toks. drains s toks"
proof (induction "remaining s" arbitrary: s rule: less_induct)
  case less
  obtain tok s' where p: "pull s = (tok, s')" by fastforce
  show ?case
  proof (cases "tok = eof")
    case True
    with p show ?thesis using stop by blast
  next
    case False
    with less [of s'] progress p show ?thesis using more [OF p] by blast
  qed
qed

lemma drains_unique: "drains s toks \<Longrightarrow> drains s toks' \<Longrightarrow> toks' = toks"
proof (induction arbitrary: toks' rule: drains.induct)
  case (stop s s')
  from stop(2) show ?case by (cases rule: drains.cases) (use stop(1) in auto)
next
  case (more s tok s' toks)
  from more(5) show ?case
  proof (cases rule: drains.cases)
    case (more tok'' s'' toks'')
    then show ?thesis using \<open>pull s = (tok, s')\<close> more.IH by auto
  qed (use more(1,2) in auto)
qed

lemma drains_no_eof: "drains s toks \<Longrightarrow> eof \<notin> set toks"
  by (induction rule: drains.induct) auto

lemma drains_length: "drains s toks \<Longrightarrow> length toks \<le> remaining s"
proof (induction rule: drains.induct)
  case (more s tok s' toks)
  with progress [OF more(1,2)] show ?case by simp
qed simp

end

text \<open>
  The same contract for a tokenizer that may panic and that its reader steers: after a token
  the reader may change the tokenizer, within what \<open>may_set\<close> allows. In a \<open>ready\<close> state the
  tokenizer does not panic, and every round of reading and steering makes progress.
\<close>

locale steered_stream =
  fixes pull :: "'s \<Rightarrow> 'e + ('tok \<times> 's)"
    and eof :: 'tok
    and ready :: "'s \<Rightarrow> bool"
    and may_set :: "'tok \<Rightarrow> 's \<Rightarrow> 's \<Rightarrow> bool"
    and remaining :: "'s \<Rightarrow> nat"
  assumes pull_ready: "ready s \<Longrightarrow> \<exists>tok s'. pull s = Inr (tok, s')"
    and steer_ready:
      "ready s \<Longrightarrow> pull s = Inr (tok, s') \<Longrightarrow> may_set tok s' u \<Longrightarrow>
       ready u \<and> (tok \<noteq> eof \<longrightarrow> remaining u < remaining s)"
begin

inductive session :: "'s \<Rightarrow> 'tok list \<Rightarrow> 's \<Rightarrow> bool" where
  start: "session s [] s"
| pulled: "session s toks s' \<Longrightarrow> pull s' = Inr (tok, s'') \<Longrightarrow> tok \<noteq> eof \<Longrightarrow> may_set tok s'' u \<Longrightarrow>
    session s (toks @ [tok]) u"

lemma session_ready: "session s toks s' \<Longrightarrow> ready s \<Longrightarrow> ready s'"
  by (induction rule: session.induct) (use steer_ready in blast)+

lemma session_length:
  "session s toks s' \<Longrightarrow> ready s \<Longrightarrow> length toks + remaining s' \<le> remaining s"
proof (induction rule: session.induct)
  case (pulled s toks s' tok s'' u)
  then have "remaining u < remaining s'" using steer_ready session_ready by blast
  with pulled show ?case by simp
qed simp

lemma session_not_stuck:
  "session s toks s' \<Longrightarrow> ready s \<Longrightarrow> \<exists>tok s''. pull s' = Inr (tok, s'')"
  using session_ready pull_ready by blast

lemma session_tokens:
  assumes "session s toks s'" "ready s"
    and "\<And>u tok u'. ready u \<Longrightarrow> pull u = Inr (tok, u') \<Longrightarrow> P tok"
  shows "\<forall>tok\<in>set toks. P tok"
  using assms(1,2)
proof (induction rule: session.induct)
  case (pulled s toks s' tok s'' u)
  then have "ready s'" using session_ready by blast
  with pulled assms(3) have "P tok" by blast
  with pulled show ?case by simp
qed simp

end

sublocale token_stream \<subseteq> steered:
  steered_stream "\<lambda>s. Inr (pull s)" eof "\<lambda>s. True" "\<lambda>tok s s'. s' = s" remaining
  by unfold_locales (use progress in auto)

end
