(* ===== verification/Float64.thy ===== *)
theory Float64
  imports Chars Complex_Main "HOL-Library.Code_Target_Nat"
begin

text \<open>
  Rust's \<open>f64\<close> and \<open>f32\<close> as far as the crates use them: IEEE 754 binary formats with
  round-to-nearest-even, a finite value being the rational it denotes. Every operation is
  the exact rational operation followed by one rounding, and all of them compute.
\<close>

section \<open>Formats and values\<close>

datatype float_val =
    Finite rat
  | Neg_Zero
  | Infinite bool
  | NaN

type_synonym f64 = float_val
type_synonym f32 = float_val

record float_format =
  fmt_prec :: int
  fmt_emin :: int
  fmt_emax :: int

definition binary64 :: float_format where
  "binary64 = \<lparr>fmt_prec = 53, fmt_emin = - 1074, fmt_emax = 1024\<rparr>"

definition binary32 :: float_format where
  "binary32 = \<lparr>fmt_prec = 24, fmt_emin = - 149, fmt_emax = 128\<rparr>"

section \<open>Rounding\<close>

definition pow2 :: "int \<Rightarrow> rat" where
  "pow2 k = (if 0 \<le> k then 2 ^ nat k else 1 / 2 ^ nat (- k))"

fun bit_length :: "nat \<Rightarrow> nat" where
  "bit_length n = (if n = 0 then 0 else Suc (bit_length (n div 2)))"

declare bit_length.simps [simp del]

text \<open>The exponent of the leading binary digit of a positive rational.\<close>

definition ilog2 :: "rat \<Rightarrow> int" where
  "ilog2 x =
     (let (a, b) = quotient_of x;
          k = int (bit_length (nat a)) - int (bit_length (nat b))
      in if pow2 k \<le> x then k else k - 1)"

definition round_half_even :: "rat \<Rightarrow> int" where
  "round_half_even x =
     (let n = \<lfloor>x\<rfloor>; r = x - of_int n
      in if r < 1 / 2 \<or> r = 1 / 2 \<and> even n then n else n + 1)"

definition ulp_exp :: "float_format \<Rightarrow> rat \<Rightarrow> int" where
  "ulp_exp f x = max (ilog2 x - (fmt_prec f - 1)) (fmt_emin f)"

definition round_pos :: "float_format \<Rightarrow> rat \<Rightarrow> rat" where
  "round_pos f x =
     (let e = ulp_exp f x in of_int (round_half_even (x / pow2 e)) * pow2 e)"

definition signed_zero :: "bool \<Rightarrow> float_val" where
  "signed_zero neg = (if neg then Neg_Zero else Finite 0)"

text \<open>\<open>neg\<close> is the sign of the result when it is zero.\<close>

definition to_float :: "float_format \<Rightarrow> bool \<Rightarrow> rat \<Rightarrow> float_val" where
  "to_float f neg x =
     (if x = 0 then signed_zero neg
      else let y = round_pos f \<bar>x\<bar>
           in if y = 0 then signed_zero (x < 0)
              else if fmt_emax f \<le> ilog2 y then Infinite (x < 0)
              else Finite (if x < 0 then - y else y))"

section \<open>Operations\<close>

fun f_neg :: "float_val \<Rightarrow> bool" where
  "f_neg (Finite x) \<longleftrightarrow> x < 0"
| "f_neg Neg_Zero \<longleftrightarrow> True"
| "f_neg (Infinite n) \<longleftrightarrow> n"
| "f_neg NaN \<longleftrightarrow> False"

fun f_val :: "float_val \<Rightarrow> rat" where
  "f_val (Finite x) = x"
| "f_val _ = 0"

definition f_zero :: "float_val \<Rightarrow> bool" where
  "f_zero a \<longleftrightarrow> a = Finite 0 \<or> a = Neg_Zero"

fun is_infinite :: "float_val \<Rightarrow> bool" where
  "is_infinite (Infinite _) \<longleftrightarrow> True"
| "is_infinite _ \<longleftrightarrow> False"

definition f64_mul :: "f64 \<Rightarrow> f64 \<Rightarrow> f64" where
  "f64_mul a b =
     (let neg = (f_neg a \<noteq> f_neg b)
      in if a = NaN \<or> b = NaN then NaN
         else if is_infinite a \<or> is_infinite b
              then (if f_zero a \<or> f_zero b then NaN else Infinite neg)
         else to_float binary64 neg (f_val a * f_val b))"

definition f64_div :: "f64 \<Rightarrow> f64 \<Rightarrow> f64" where
  "f64_div a b =
     (let neg = (f_neg a \<noteq> f_neg b)
      in if a = NaN \<or> b = NaN \<or> is_infinite a \<and> is_infinite b \<or> f_zero a \<and> f_zero b then NaN
         else if is_infinite a \<or> f_zero b then Infinite neg
         else if is_infinite b then signed_zero neg
         else to_float binary64 neg (f_val a / f_val b))"

text \<open>Comparison: every one with \<open>NaN\<close> is false; the two zeros are equal.\<close>

fun f_le :: "float_val \<Rightarrow> float_val \<Rightarrow> bool" where
  "f_le NaN b \<longleftrightarrow> False"
| "f_le a NaN \<longleftrightarrow> False"
| "f_le (Infinite n) b \<longleftrightarrow> n \<or> b = Infinite False"
| "f_le a (Infinite n) \<longleftrightarrow> \<not> n"
| "f_le a b \<longleftrightarrow> f_val a \<le> f_val b"

definition f_lt :: "float_val \<Rightarrow> float_val \<Rightarrow> bool" where
  "f_lt a b \<longleftrightarrow> f_le a b \<and> \<not> f_le b a"

definition f_eq :: "float_val \<Rightarrow> float_val \<Rightarrow> bool" where
  "f_eq a b \<longleftrightarrow> f_le a b \<and> f_le b a"

text \<open>\<open>x as f32\<close> and \<open>f32::clamp\<close>; \<open>clamp\<close> keeps \<open>NaN\<close>.\<close>

definition as_f32 :: "f64 \<Rightarrow> f32" where
  "as_f32 a = (case a of Finite x \<Rightarrow> to_float binary32 False x | b \<Rightarrow> b)"

definition f_clamp :: "float_val \<Rightarrow> float_val \<Rightarrow> float_val \<Rightarrow> float_val" where
  "f_clamp lo hi x = (let y = (if f_lt x lo then lo else x) in if f_lt hi y then hi else y)"

section \<open>Decimal literals\<close>

text \<open>
  \<open>str::parse::<f64>\<close> on the strings the tokenizer builds: an optional sign, digits, and
  optionally a point and digits, with at least one digit in all.
\<close>

definition parse_f64 :: "rstring \<Rightarrow> f64 option" where
  "parse_f64 s =
     (let neg = (case s of c # _ \<Rightarrow> c = ch CHR ''-'' | [] \<Rightarrow> False);
          body = (case s of c # t \<Rightarrow> if c = ch CHR ''-'' \<or> c = ch CHR ''+'' then t else s | [] \<Rightarrow> []);
          ip = takeWhile is_ascii_digit body;
          r = dropWhile is_ascii_digit body;
          sgn = (if neg then - 1 else 1)
      in case r of
           [] \<Rightarrow> if ip = [] then None
                 else Some (to_float binary64 neg (sgn * of_nat (radix_value 10 ip)))
         | c # fp \<Rightarrow>
             if c = ch CHR ''.'' \<and> (\<forall>d\<in>set fp. is_ascii_digit d) \<and> (ip \<noteq> [] \<or> fp \<noteq> [])
             then Some (to_float binary64 neg
                    (sgn * (of_nat (radix_value 10 (ip @ fp)) / 10 ^ length fp)))
             else None)"

section \<open>Rounding facts\<close>

lemma pow2_powi: "pow2 k = 2 powi k"
  by (simp add: pow2_def power_int_def power_one_over inverse_eq_divide)

lemma pow2_pos [simp]: "0 < pow2 k"
  by (simp add: pow2_def)

lemma pow2_nonzero [simp]: "pow2 k \<noteq> 0"
  by (simp add: pow2_def)

lemma pow2_add: "pow2 (a + b) = pow2 a * pow2 b"
  by (simp add: pow2_powi power_int_add)

lemma pow2_diff: "pow2 (a - b) = pow2 a / pow2 b"
  by (simp add: pow2_powi power_int_diff)

lemma pow2_mono: "a \<le> b \<Longrightarrow> pow2 a \<le> pow2 b"
  by (simp add: pow2_powi power_int_increasing)

lemma pow2_less_cancel: "pow2 a < pow2 b \<Longrightarrow> a < b"
  using pow2_mono [of b a] by (metis leD linorder_not_less)

lemma pow2_of_nat: "pow2 (int n) = 2 ^ n"
  by (simp add: pow2_def)

lemma bit_length_bounds:
  "0 < n \<Longrightarrow> 2 ^ bit_length n \<le> 2 * n \<and> n < 2 ^ bit_length n"
proof (induction n rule: bit_length.induct)
  case (1 n)
  show ?case
  proof (cases "n div 2 = 0")
    case True
    with 1 have "n = 1" by simp
    then show ?thesis by (simp add: bit_length.simps)
  next
    case False
    with 1 have "2 ^ bit_length (n div 2) \<le> 2 * (n div 2) \<and> n div 2 < 2 ^ bit_length (n div 2)"
      by simp
    then show ?thesis using 1(2) by (subst (1 2) bit_length.simps) auto
  qed
qed

lemma pow2_bit_length:
  assumes "0 < a"
  shows "pow2 (int (bit_length (nat a))) \<le> 2 * of_int a" "of_int a < pow2 (int (bit_length (nat a)))"
proof -
  from bit_length_bounds [of "nat a"] assms
  have "(2 :: int) ^ bit_length (nat a) \<le> 2 * a" "a < 2 ^ bit_length (nat a)"
    by (auto simp: nat_less_iff zle_int [symmetric] simp del: zle_int)
  then have "(of_int (2 ^ bit_length (nat a)) :: rat) \<le> of_int (2 * a)"
    "(of_int a :: rat) < of_int (2 ^ bit_length (nat a))"
    by (simp_all only: of_int_le_iff of_int_less_iff)
  then show "pow2 (int (bit_length (nat a))) \<le> 2 * of_int a" "of_int a < pow2 (int (bit_length (nat a)))"
    by (simp_all add: pow2_of_nat)
qed

lemma ilog2_bounds:
  assumes "0 < x"
  shows "pow2 (ilog2 x) \<le> x" "x < pow2 (ilog2 x + 1)"
proof -
  obtain a b where q: "quotient_of x = (a, b)" by fastforce
  then have x: "x = of_int a / of_int b" and b: "0 < b"
    using quotient_of_div quotient_of_denom_pos by auto
  with assms have a: "0 < a" by (simp add: zero_less_divide_iff)
  define ka where "ka = int (bit_length (nat a))"
  define kb where "kb = int (bit_length (nat b))"
  note la = pow2_bit_length [OF a, folded ka_def]
  note lb = pow2_bit_length [OF b, folded kb_def]
  have lo: "pow2 (ka - kb - 1) \<le> x"
  proof -
    have "pow2 ka * of_int b \<le> (2 * of_int a) * pow2 kb"
      using la lb a b by (intro mult_mono) auto
    then show ?thesis using b by (simp add: x pow2_diff pow2_add pow2_of_nat [of 1, simplified] field_simps)
  qed
  have hi: "x < pow2 (ka - kb + 1)"
  proof -
    have "of_int a * pow2 kb < pow2 ka * (2 * of_int b)"
      using la lb a b by (intro mult_less_le_imp_less) auto
    then show ?thesis
      using b by (simp add: x pow2_diff pow2_add pow2_of_nat [of 1, simplified] field_simps)
  qed
  show "pow2 (ilog2 x) \<le> x" "x < pow2 (ilog2 x + 1)"
    using lo hi by (auto simp: ilog2_def q Let_def ka_def [symmetric] kb_def [symmetric])
qed

lemma ilog2_less: "0 < x \<Longrightarrow> x < pow2 k \<Longrightarrow> ilog2 x < k"
  using ilog2_bounds(1) pow2_less_cancel by (meson le_less_trans)

lemma round_half_even_int [simp]: "round_half_even (of_int n) = n"
  by (simp add: round_half_even_def)

lemma round_half_even_error: "\<bar>of_int (round_half_even x) - x\<bar> \<le> 1 / 2"
proof -
  have "of_int \<lfloor>x\<rfloor> \<le> x" "x < of_int \<lfloor>x\<rfloor> + 1" by (rule of_int_floor_le) linarith
  then show ?thesis by (auto simp: round_half_even_def Let_def abs_le_iff)
qed

text \<open>A rounded value is within half a unit in the last place.\<close>

lemma round_pos_error: "\<bar>round_pos f x - x\<bar> \<le> pow2 (ulp_exp f x) / 2"
proof -
  let ?u = "pow2 (ulp_exp f x)"
  have "\<bar>of_int (round_half_even (x / ?u)) * ?u - x\<bar> = \<bar>of_int (round_half_even (x / ?u)) - x / ?u\<bar> * ?u"
    by (subst abs_mult_pos) (simp_all add: left_diff_distrib less_imp_le)
  also have "\<dots> \<le> 1 / 2 * ?u"
    by (intro mult_right_mono round_half_even_error) (simp add: less_imp_le)
  finally show ?thesis by (simp add: round_pos_def Let_def)
qed

text \<open>A value the format represents is not changed by rounding.\<close>

lemma round_pos_exact:
  assumes x: "x = of_int m * pow2 e" and m: "0 < m" "of_int m < pow2 (fmt_prec f)"
    and e: "fmt_emin f \<le> e"
  shows "round_pos f x = x"
proof -
  let ?k = "ulp_exp f x"
  have "0 < x" using x m by simp
  moreover have "x < pow2 (fmt_prec f + e)"
    using m by (simp add: x pow2_add)
  ultimately have "ilog2 x < fmt_prec f + e" by (rule ilog2_less)
  with e have k: "?k \<le> e" by (simp add: ulp_exp_def)
  have "x / pow2 ?k = of_int m * pow2 (e - ?k)" by (simp add: x pow2_diff)
  also have "\<dots> = of_int (m * 2 ^ nat (e - ?k))" using k by (simp add: pow2_def)
  finally have "of_int (round_half_even (x / pow2 ?k)) = x / pow2 ?k"
    by (metis round_half_even_int)
  then show ?thesis by (simp add: round_pos_def Let_def)
qed

lemma to_float_nat:
  assumes "n < 2 ^ 53"
  shows "to_float binary64 False (of_nat n) = Finite (of_nat n)"
proof (cases "n = 0")
  case False
  have "(of_nat n :: rat) < of_nat (2 ^ 53)" using assms by (simp only: of_nat_less_iff)
  then have lt: "(of_nat n :: rat) < pow2 53" by (simp add: pow2_def)
  have r: "round_pos binary64 (of_nat n) = of_nat n"
    by (rule round_pos_exact [where m = "int n" and e = 0])
       (use False lt in \<open>simp_all add: binary64_def pow2_def [of 0]\<close>)
  have "ilog2 (of_nat n) < 53" using False lt by (intro ilog2_less) auto
  with r False show ?thesis by (simp add: to_float_def binary64_def)
qed (simp add: to_float_def signed_zero_def)

end
