(* ===== verification/Css_Tokenizer.thy ===== *)
theory Css_Tokenizer
  imports Token_Stream Float64
begin

text \<open>
  The CSS tokenizer of \<open>backend/core/css/src/tokenizer.rs\<close>, and what a token stream promises
  its readers: every token but the last consumes input, so \<open>tokenize\<close> returns.
\<close>

section \<open>Tokens\<close>

datatype css_token =
    Ident rstring
  | AtKeyword rstring
  | Hash rstring
  | QuotedString rstring
  | Number f64
  | Percentage f64
  | Dimension f64 rstring
  | Whitespace
  | Colon
  | Semicolon
  | Comma
  | LeftBrace
  | RightBrace
  | LeftParen
  | RightParen
  | LeftBracket
  | RightBracket
  | Delim scalar
  | Eof

type_synonym css_tokenizer = cursor

text \<open>
  \<open>char::is_alphabetic\<close> and \<open>is_alphanumeric\<close> are the ASCII classes below 128, and every
  character above is accepted by the last disjunct.
\<close>

definition is_ident_start :: "scalar \<Rightarrow> bool" where
  "is_ident_start c \<longleftrightarrow>
     is_ascii_alphabetic c \<or> c = ch CHR ''_'' \<or> c = ch CHR ''-'' \<or> \<not> is_ascii c"

definition is_ident_continue :: "scalar \<Rightarrow> bool" where
  "is_ident_continue c \<longleftrightarrow>
     is_ascii_alphabetic c \<or> is_ascii_digit c \<or> c = ch CHR ''_'' \<or> c = ch CHR ''-'' \<or> \<not> is_ascii c"

definition new_tokenizer :: "rstring \<Rightarrow> css_tokenizer" where
  "new_tokenizer s = \<lparr>c_input = s, c_pos = 0\<rparr>"

section \<open>Comments and blanks\<close>

function skip_comment_loop :: "css_tokenizer \<Rightarrow> css_tokenizer" where
  "skip_comment_loop t =
     (if peek t \<noteq> None \<and> \<not> (peek t = Some (ch CHR ''*'') \<and> peek_at t 1 = Some (ch CHR ''/''))
      then skip_comment_loop (snd (advance t)) else t)"
  by pat_completeness auto
termination
  by (relation "measure (\<lambda>t. length (rest t))") (auto simp: advance_shrinks)

declare skip_comment_loop.simps [simp del]

definition skip_comment :: "css_tokenizer \<Rightarrow> css_tokenizer" where
  "skip_comment t =
     (let t1 = skip_comment_loop (skip 2 t) in if peek t1 \<noteq> None then skip 2 t1 else t1)"

lemma moves_skip_comment_loop: "moves t (skip_comment_loop t)"
proof (induction t rule: skip_comment_loop.induct)
  case (1 t)
  then show ?case by (subst skip_comment_loop.simps) (auto intro: moves_trans)
qed

text \<open>The loop stops at the end of the input or in front of the closing mark.\<close>

lemma skip_comment_loop_stops:
  "peek (skip_comment_loop t) = None \<or>
   peek (skip_comment_loop t) = Some (ch CHR ''*'') \<and>
   peek_at (skip_comment_loop t) 1 = Some (ch CHR ''/'')"
proof (induction t rule: skip_comment_loop.induct)
  case (1 t)
  then show ?case by (subst (1 2 3) skip_comment_loop.simps) auto
qed

lemma moves_skip_comment:
  assumes "2 \<le> length (rest t)"
  shows "moves (skip 2 t) (skip_comment t)"
proof -
  let ?t1 = "skip_comment_loop (skip 2 t)"
  have "moves (skip 2 t) ?t1" by (rule moves_skip_comment_loop)
  moreover have "moves ?t1 (skip 2 ?t1)" if "peek ?t1 \<noteq> None"
    using that skip_comment_loop_stops [of "skip 2 t"]
    by (auto intro!: moves_skip simp: peek_at_Some_iff)
  ultimately show ?thesis by (auto simp: skip_comment_def Let_def intro: moves_trans)
qed

lemma skip_comment_shrinks:
  "peek_at t 1 = Some c \<Longrightarrow> length (rest (skip_comment t)) < length (rest t)"
  using moves_length [OF moves_skip_comment, of t] by (auto simp: peek_at_Some_iff)

function skip_blanks :: "css_tokenizer \<Rightarrow> bool \<Rightarrow> bool \<times> css_tokenizer" where
  "skip_blanks t saw =
     (case peek t of
        Some c \<Rightarrow>
          if is_whitespace c then skip_blanks (snd (advance t)) True
          else if c = ch CHR ''/'' \<and> peek_at t 1 = Some (ch CHR ''*'')
               then skip_blanks (skip_comment t) saw
          else (saw, t)
      | None \<Rightarrow> (saw, t))"
  by pat_completeness auto
termination
  by (relation "measure (\<lambda>(t, saw). length (rest t))")
     (auto simp: peek_eq_iff advance_simps skip_comment_shrinks)

declare skip_blanks.simps [simp del]

section \<open>Single tokens\<close>

function consume_string_loop :: "scalar \<Rightarrow> css_tokenizer \<Rightarrow> rstring \<Rightarrow> rstring \<times> css_tokenizer" where
  "consume_string_loop quote t s =
     (case peek t of
        None \<Rightarrow> (s, t)
      | Some c \<Rightarrow>
          if c = quote then (s, snd (advance t))
          else if c = ch CHR 0x5C
               then let (escaped, t') = advance (snd (advance t))
                    in consume_string_loop quote t'
                         (case escaped of Some e \<Rightarrow> s @ [e] | None \<Rightarrow> s)
          else consume_string_loop quote (snd (advance t)) (s @ [c]))"
  by pat_completeness auto
termination
proof (relation "measure (\<lambda>(q, t, s). length (rest t))")
  fix quote t s c p escaped t'
  assume "peek t = Some c" "p = advance (snd (advance t))" "(escaped, t') = p"
  then show "((quote, t', case escaped of None \<Rightarrow> s | Some e \<Rightarrow> s @ [e]), quote, t, s)
      \<in> measure (\<lambda>(q, t, s). length (rest t))"
    using moves_length [OF moves_advance, of "snd (advance t)"]
    by (auto simp: peek_eq_iff advance_simps) (metis snd_conv le_imp_less_Suc)
qed (auto simp: peek_eq_iff advance_simps)

declare consume_string_loop.simps [simp del]

text \<open>
  The caller has seen a quotation mark at the cursor, so the last case, where
  \<open>advance().unwrap()\<close> would panic, is not reached.
\<close>

definition consume_string :: "css_tokenizer \<Rightarrow> css_token \<times> css_tokenizer" where
  "consume_string t =
     (case advance t of
        (Some quote, t1) \<Rightarrow>
          (let (s, t2) = consume_string_loop quote t1 [] in (QuotedString s, t2))
      | (None, t1) \<Rightarrow> (Eof, t1))"

definition consume_hash :: "css_tokenizer \<Rightarrow> css_token \<times> css_tokenizer" where
  "consume_hash t =
     (let (s, t') = consume_while is_ident_continue (snd (advance t)) [] in (Hash s, t'))"

definition consume_at_keyword :: "css_tokenizer \<Rightarrow> css_token \<times> css_tokenizer" where
  "consume_at_keyword t =
     (let (s, t') = consume_while is_ident_continue (snd (advance t)) [] in (AtKeyword s, t'))"

definition consume_ident_like :: "css_tokenizer \<Rightarrow> css_token \<times> css_tokenizer" where
  "consume_ident_like t =
     (let (s, t') = consume_while is_ident_continue t [] in (Ident s, t'))"

definition next_is :: "(scalar \<Rightarrow> bool) \<Rightarrow> scalar option \<Rightarrow> bool" where
  "next_is P x = (case x of Some c \<Rightarrow> P c | None \<Rightarrow> False)"

text \<open>The text \<open>s\<close> of a number: sign, digits, and a fraction if a digit follows the point.\<close>

definition numeric_sign :: "css_tokenizer \<Rightarrow> rstring \<times> css_tokenizer" where
  "numeric_sign t =
     (case peek t of
        Some c \<Rightarrow> if c = ch CHR ''+'' \<or> c = ch CHR ''-'' then ([c], snd (advance t)) else ([], t)
      | None \<Rightarrow> ([], t))"

definition numeric_fraction :: "css_tokenizer \<Rightarrow> rstring \<Rightarrow> rstring \<times> css_tokenizer" where
  "numeric_fraction t s =
     (if peek t = Some (ch CHR ''.'') \<and> next_is is_ascii_digit (peek_at t 1)
      then consume_while is_ascii_digit (snd (advance t)) (s @ [ch CHR ''.''])
      else (s, t))"

definition numeric_text :: "css_tokenizer \<Rightarrow> rstring \<times> css_tokenizer" where
  "numeric_text t =
     (let (s1, t1) = numeric_sign t; (s2, t2) = consume_while is_ascii_digit t1 s1
      in numeric_fraction t2 s2)"

definition consume_numeric :: "css_tokenizer \<Rightarrow> css_token \<times> css_tokenizer" where
  "consume_numeric t =
     (let (s, t1) = numeric_text t;
          value = (case parse_f64 s of Some v \<Rightarrow> v | None \<Rightarrow> Finite 0)
      in if peek t1 = Some (ch CHR ''%'') then (Percentage value, snd (advance t1))
         else if next_is is_ident_start (peek t1)
              then let (u, t2) = consume_while is_ident_continue t1 []
                   in (Dimension value (to_ascii_lowercase u), t2)
         else (Number value, t1))"

definition starts_ident_after_minus :: "css_tokenizer \<Rightarrow> bool" where
  "starts_ident_after_minus t =
     next_is (\<lambda>c. is_ident_start c \<or> c = ch CHR ''-'') (peek_at t 1)"

definition next_token :: "css_tokenizer \<Rightarrow> css_token \<times> css_tokenizer" where
  "next_token t0 =
     (let (saw_whitespace_char, t) = skip_blanks t0 False;
          single = (\<lambda>tok. (tok, snd (advance t)))
      in if saw_whitespace_char then (Whitespace, t)
         else case peek t of
           None \<Rightarrow> (Eof, t)
         | Some c \<Rightarrow>
             if c = ch CHR 0x22 \<or> c = ch CHR 0x27 then consume_string t
             else if c = ch CHR ''#'' then consume_hash t
             else if c = ch CHR ''@'' then consume_at_keyword t
             else if is_ascii_digit c then consume_numeric t
             else if c = ch CHR ''.'' \<and> next_is is_ascii_digit (peek_at t 1) then consume_numeric t
             else if c = ch CHR ''+'' \<and>
                     next_is (\<lambda>d. is_ascii_digit d \<or> d = ch CHR ''.'') (peek_at t 1)
                  then consume_numeric t
             else if c = ch CHR ''-'' \<and>
                     next_is (\<lambda>d. is_ascii_digit d \<or> d = ch CHR ''.'') (peek_at t 1)
                  then consume_numeric t
             else if c = ch CHR ''-'' \<and> starts_ident_after_minus t then consume_ident_like t
             else if c \<noteq> ch CHR ''-'' \<and> is_ident_start c then consume_ident_like t
             else if c = ch CHR '':'' then single Colon
             else if c = ch CHR '';'' then single Semicolon
             else if c = ch CHR '','' then single Comma
             else if c = ch CHR ''{'' then single LeftBrace
             else if c = ch CHR ''}'' then single RightBrace
             else if c = ch CHR ''('' then single LeftParen
             else if c = ch CHR '')'' then single RightParen
             else if c = ch CHR ''['' then single LeftBracket
             else if c = ch CHR '']'' then single RightBracket
             else single (Delim c))"

section \<open>Progress\<close>

text \<open>\<open>reads t t'\<close>: at least one character has been read.\<close>

definition reads :: "'a cursor_scheme \<Rightarrow> 'a cursor_scheme \<Rightarrow> bool" where
  "reads t t' \<longleftrightarrow> (\<exists>n\<le>length (rest t). 0 < n \<and> t' = skip n t)"

lemma reads_moves: "reads t t' \<Longrightarrow> moves t t'"
  by (auto simp: reads_def moves_def)

lemma reads_length: "reads t t' \<Longrightarrow> length (rest t') < length (rest t)"
  by (auto simp: reads_def)

lemma reads_moves_trans [trans]: "reads t t' \<Longrightarrow> moves t' t'' \<Longrightarrow> reads t t''"
proof -
  assume "reads t t'" "moves t' t''"
  then obtain m n where "m \<le> length (rest t)" "0 < m" "t' = skip m t"
    "n \<le> length (rest t')" "t'' = skip n t'"
    unfolding reads_def moves_def by blast
  then show ?thesis unfolding reads_def by (intro exI [of _ "m + n"]) auto
qed

lemma moves_reads_trans [trans]: "moves t t' \<Longrightarrow> reads t' t'' \<Longrightarrow> reads t t''"
proof -
  assume "moves t t'" "reads t' t''"
  then obtain m n where "m \<le> length (rest t)" "t' = skip m t"
    "n \<le> length (rest t')" "0 < n" "t'' = skip n t'"
    unfolding reads_def moves_def by blast
  then show ?thesis unfolding reads_def by (intro exI [of _ "m + n"]) auto
qed

lemma reads_advance: "peek t = Some c \<Longrightarrow> reads t (snd (advance t))"
  unfolding reads_def by (intro exI [of _ 1]) (auto simp: peek_eq_iff advance_simps)

lemma reads_consume_while:
  "peek t = Some c \<Longrightarrow> P c \<Longrightarrow> reads t (snd (consume_while P t s))"
  unfolding reads_def
  by (intro exI [of _ "length (takeWhile P (rest t))"])
     (auto simp: peek_eq_iff consume_while_eq length_takeWhile_le)

lemma skip_blanks_moves:
  "moves t (snd (skip_blanks t saw)) \<and>
   (fst (skip_blanks t saw) \<longrightarrow> saw \<or> reads t (snd (skip_blanks t saw)))"
proof (induction t saw rule: skip_blanks.induct)
  case (1 t saw)
  show ?case
  proof (cases "peek t")
    case None
    then show ?thesis by (subst (1 2 3) skip_blanks.simps) simp
  next
    case (Some c)
    consider (ws) "is_whitespace c"
      | (comment) "\<not> is_whitespace c" "c = ch CHR ''/''" "peek_at t 1 = Some (ch CHR ''*'')"
      | (stop) "\<not> is_whitespace c" "\<not> (c = ch CHR ''/'' \<and> peek_at t 1 = Some (ch CHR ''*''))"
      by blast
    then show ?thesis
    proof cases
      case ws
      have "skip_blanks t saw = skip_blanks (snd (advance t)) True"
        using Some ws by (subst skip_blanks.simps) simp
      then show ?thesis
        using 1(1) [OF Some ws] reads_advance [OF Some] by (auto intro: reads_moves_trans reads_moves)
    next
      case comment
      have "skip_blanks t saw = skip_blanks (skip_comment t) saw"
        using Some comment by (subst skip_blanks.simps) simp
      moreover have "2 \<le> length (rest t)" using comment by (auto simp: peek_at_Some_iff)
      then have "moves t (skip 2 t)" "moves (skip 2 t) (skip_comment t)"
        by (auto intro: moves_skip moves_skip_comment)
      then have "moves t (skip_comment t)" by (rule moves_trans)
      ultimately show ?thesis
        using 1(2) [OF Some] comment by (auto intro: moves_trans moves_reads_trans)
    next
      case stop
      then have "skip_blanks t saw = (saw, t)" using Some by (subst skip_blanks.simps) auto
      then show ?thesis by simp
    qed
  qed
qed

lemma moves_consume_string_loop: "moves t (snd (consume_string_loop quote t s))"
proof (induction quote t s rule: consume_string_loop.induct)
  case (1 quote t s)
  have escape: "moves t (snd (consume_string_loop quote t' s'))"
    if "peek t = Some c" "advance (snd (advance t)) = (escaped, t')"
      "moves t' (snd (consume_string_loop quote t' s'))" for c escaped t' s'
    using that moves_advance [of t] moves_advance [of "snd (advance t)"] by (metis moves_trans snd_conv)
  show ?case
  proof (cases "peek t")
    case None
    then show ?thesis by (subst consume_string_loop.simps) simp
  next
    case (Some c)
    obtain escaped t' where adv: "advance (snd (advance t)) = (escaped, t')" by fastforce
    show ?thesis
      using Some 1(1) [OF Some _ _ refl adv [symmetric]] 1(2) [OF Some] escape [OF Some adv]
      by (subst consume_string_loop.simps) (auto simp: adv intro: moves_trans)
  qed
qed

lemma moves_numeric_sign [intro]: "moves t (snd (numeric_sign t))"
  by (auto simp: numeric_sign_def split: option.split)

lemma moves_numeric_fraction [intro]: "moves t (snd (numeric_fraction t s))"
  by (auto simp: numeric_fraction_def intro: moves_trans [OF moves_advance moves_consume_while])

lemma consume_numeric_moves: "moves (snd (numeric_text t)) (snd (consume_numeric t))"
  by (auto simp: consume_numeric_def Let_def case_prod_unfold)

lemma numeric_text_reads:
  assumes c: "peek t = Some c"
    and num: "is_ascii_digit c \<or> c = ch CHR ''+'' \<or> c = ch CHR ''-'' \<or>
      c = ch CHR ''.'' \<and> next_is is_ascii_digit (peek_at t 1)"
  shows "reads t (snd (numeric_text t))"
proof (cases "c = ch CHR ''+'' \<or> c = ch CHR ''-''")
  case True
  then have "reads t (snd (numeric_sign t))"
    using reads_advance [OF c] c by (auto simp: numeric_sign_def)
  then show ?thesis
    by (auto simp: numeric_text_def Let_def case_prod_unfold
        intro: reads_moves_trans moves_trans [OF moves_consume_while moves_numeric_fraction])
next
  case False
  then have sign: "numeric_sign t = ([], t)" using c by (simp add: numeric_sign_def)
  show ?thesis
  proof (cases "is_ascii_digit c")
    case True
    then show ?thesis
      using reads_consume_while [of t c is_ascii_digit, OF c True]
      by (auto simp: numeric_text_def sign Let_def case_prod_unfold intro: reads_moves_trans)
  next
    case no: False
    then have "consume_while is_ascii_digit t [] = ([], t)"
      using c by (auto simp: consume_while_eq peek_eq_iff)
    then show ?thesis
      using num no False c reads_advance [OF c]
      by (auto simp: numeric_text_def sign numeric_fraction_def intro: reads_moves_trans)
  qed
qed

lemma next_token_reads:
  assumes "next_token t0 = (tok, t')" "tok \<noteq> Eof"
  shows "reads t0 t'"
proof -
  obtain saw t where sb: "skip_blanks t0 False = (saw, t)" by fastforce
  with skip_blanks_moves [of t0 False] have m: "moves t0 t" and w: "saw \<Longrightarrow> reads t0 t" by auto
  show ?thesis
  proof (cases saw)
    case True
    with w assms sb show ?thesis by (simp add: next_token_def)
  next
    case False
    then have "next_token t0 = (Eof, t)" if "peek t = None"
      using sb that by (simp add: next_token_def)
    with assms obtain c where c: "peek t = Some c" by fastforce
    have str: "reads t (snd (consume_string t))"
      using reads_advance [OF c] c
      by (auto simp: consume_string_def advance_def Let_def case_prod_unfold
          intro: reads_moves_trans moves_consume_string_loop)
    have hash: "reads t (snd (consume_hash t))" and kw: "reads t (snd (consume_at_keyword t))"
      using reads_advance [OF c]
      by (auto simp: consume_hash_def consume_at_keyword_def Let_def case_prod_unfold
          intro: reads_moves_trans)
    have ident: "reads t (snd (consume_ident_like t))" if "is_ident_start c"
      using that reads_consume_while [OF c, of is_ident_continue]
      by (auto simp: consume_ident_like_def Let_def case_prod_unfold is_ident_start_def
          is_ident_continue_def)
    have minus: "is_ident_start (ch CHR ''-'')" by (simp add: is_ident_start_def)
    note num = reads_moves_trans [OF numeric_text_reads [OF c] consume_numeric_moves]
    have "reads t (snd (next_token t0))"
      using False sb c str hash kw ident num reads_advance [OF c] minus
      by (simp add: next_token_def split: if_split)
    with assms m show ?thesis by (auto intro: moves_reads_trans)
  qed
qed

section \<open>Whole inputs\<close>

interpretation css_stream: token_stream next_token Eof "\<lambda>t. length (rest t)"
  by unfold_locales (rule reads_length [OF next_token_reads])

function tokenize_loop :: "css_tokenizer \<Rightarrow> css_token list" where
  "tokenize_loop t =
     (let (tok, t') = next_token t in if tok = Eof then [] else tok # tokenize_loop t')"
  by pat_completeness auto
termination
  by (relation "measure (\<lambda>t. length (rest t))") (auto dest: css_stream.progress [OF sym])

declare tokenize_loop.simps [simp del]

definition tokenize :: "rstring \<Rightarrow> css_token list" where
  "tokenize input = tokenize_loop (new_tokenizer input)"

lemma tokenize_loop_drains: "css_stream.drains t (tokenize_loop t)"
proof (induction "length (rest t)" arbitrary: t rule: less_induct)
  case less
  obtain tok t' where n: "next_token t = (tok, t')" by fastforce
  show ?case
  proof (cases "tok = Eof")
    case True
    with n have "tokenize_loop t = []" by (simp add: tokenize_loop.simps [of t])
    then show ?thesis using css_stream.drains.stop [of t t'] n True by (simp only:)
  next
    case False
    then have "tokenize_loop t = tok # tokenize_loop t'"
      using n by (simp add: tokenize_loop.simps [of t])
    moreover have "css_stream.drains t' (tokenize_loop t')"
      using css_stream.progress [OF n False] by (rule less)
    ultimately show ?thesis using css_stream.drains.more [OF n False] by (simp only:)
  qed
qed

end
