(* ===== verification/Dom.thy ===== *)
theory Dom
  imports Prelude
begin

text \<open>
  The DOM tree of \<open>backend/core/dom/src/lib.rs\<close>: node identity, the node table with its
  parent, child and sibling links, and the tree operations. Every access to the
  node table may panic; the walks over siblings and subtrees may not return on a table whose
  links are not those of a tree.
\<close>

section \<open>Node identity\<close>

type_synonym node_id = u64

definition as_u64 :: "node_id \<Rightarrow> u64" where
  "as_u64 n = n"

definition from_u64 :: "u64 \<Rightarrow> node_id" where
  "from_u64 w = w"

record node_id_allocator =
  alloc_next :: u64

definition allocate :: "node_id_allocator \<Rightarrow> node_id \<times> node_id_allocator" where
  "allocate a = (alloc_next a, a\<lparr>alloc_next := alloc_next a + 1\<rparr>)"

section \<open>Nodes and documents\<close>

datatype node_data =
    Document
  | Element (tag_name: rstring) (attributes: "(rstring \<times> rstring) list")
  | Text (text_data: rstring)

record node_record =
  r_data :: node_data
  r_parent :: "node_id option"
  r_first_child :: "node_id option"
  r_last_child :: "node_id option"
  r_next_sibling :: "node_id option"
  r_prev_sibling :: "node_id option"

type_synonym node_table = "node_id \<rightharpoonup> node_record"

record document =
  allocator :: node_id_allocator
  nodes :: node_table
  doc_root :: "node_id option"

text \<open>The ways an operation of the crate panics.\<close>

datatype panic =
    Missing_Node node_id
  | Already_Attached
  | Reference_Not_A_Child
  | No_Root
  | Unreachable

text \<open>\<open>self.nodes[&id]\<close> and \<open>self.nodes.get_mut(&id).unwrap()\<close>: both panic on an absent key.\<close>

definition node_at :: "node_table \<Rightarrow> node_id \<Rightarrow> panic + node_record" where
  "node_at m i = unwrap_or_panic (Missing_Node i) (m i)"

definition update_node ::
  "node_table \<Rightarrow> node_id \<Rightarrow> (node_record \<Rightarrow> node_record) \<Rightarrow> panic + node_table" where
  "update_node m i f = res_bind (node_at m i) (\<lambda>r. Inr (m(i \<mapsto> f r)))"

definition fresh_record :: "node_data \<Rightarrow> node_record" where
  "fresh_record dat = \<lparr>r_data = dat, r_parent = None, r_first_child = None,
     r_last_child = None, r_next_sibling = None, r_prev_sibling = None\<rparr>"

definition create_node :: "document \<Rightarrow> node_data \<Rightarrow> node_id \<times> document" where
  "create_node d dat =
     (let (i, a) = allocate (allocator d)
      in (i, d\<lparr>allocator := a, nodes := (nodes d)(i \<mapsto> fresh_record dat)\<rparr>))"

definition new_continuing_from :: "u64 \<Rightarrow> document" where
  "new_continuing_from next_id =
     (let doc = \<lparr>allocator = \<lparr>alloc_next = next_id\<rparr>, nodes = Map.empty, doc_root = None\<rparr>;
          (root, doc') = create_node doc Document
      in doc'\<lparr>doc_root := Some root\<rparr>)"

definition new_document :: document where
  "new_document = new_continuing_from 0"

definition next_node_id :: "document \<Rightarrow> u64" where
  "next_node_id d = alloc_next (allocator d)"

definition root :: "document \<Rightarrow> panic + node_id" where
  "root d = unwrap_or_panic No_Root (doc_root d)"

definition data :: "document \<Rightarrow> node_id \<Rightarrow> panic + node_data" where
  "data d i = res_bind (node_at (nodes d) i) (\<lambda>r. Inr (r_data r))"

definition contains :: "document \<Rightarrow> node_id \<Rightarrow> bool" where
  "contains d i \<longleftrightarrow> nodes d i \<noteq> None"

text \<open>\<open>data_mut\<close> hands out a mutable reference; \<open>f\<close> is what the caller does through it.\<close>

definition data_mut ::
  "document \<Rightarrow> node_id \<Rightarrow> (node_data \<Rightarrow> node_data) \<Rightarrow> panic + document" where
  "data_mut d i f =
     res_bind (update_node (nodes d) i (\<lambda>r. r\<lparr>r_data := f (r_data r)\<rparr>))
       (\<lambda>m. Inr (d\<lparr>nodes := m\<rparr>))"

definition parent :: "document \<Rightarrow> node_id \<Rightarrow> panic + node_id option" where
  "parent d i = res_bind (node_at (nodes d) i) (\<lambda>r. Inr (r_parent r))"

definition first_child :: "document \<Rightarrow> node_id \<Rightarrow> panic + node_id option" where
  "first_child d i = res_bind (node_at (nodes d) i) (\<lambda>r. Inr (r_first_child r))"

definition last_child :: "document \<Rightarrow> node_id \<Rightarrow> panic + node_id option" where
  "last_child d i = res_bind (node_at (nodes d) i) (\<lambda>r. Inr (r_last_child r))"

definition next_sibling :: "document \<Rightarrow> node_id \<Rightarrow> panic + node_id option" where
  "next_sibling d i = res_bind (node_at (nodes d) i) (\<lambda>r. Inr (r_next_sibling r))"

definition prev_sibling :: "document \<Rightarrow> node_id \<Rightarrow> panic + node_id option" where
  "prev_sibling d i = res_bind (node_at (nodes d) i) (\<lambda>r. Inr (r_prev_sibling r))"

text \<open>
  \<open>children\<close> follows \<open>next_sibling\<close> from the first child. On an arbitrary node table the
  walk may not end, which is the outcome \<open>None\<close>.
\<close>

partial_function (option) successors ::
  "document \<Rightarrow> node_id option \<Rightarrow> (panic + node_id list) option" where
  "successors d cur =
     (case cur of
        None \<Rightarrow> Some (Inr [])
      | Some n \<Rightarrow>
          (case next_sibling d n of
             Inl e \<Rightarrow> Some (Inl e)
           | Inr nxt \<Rightarrow>
               Option.bind (successors d nxt)
                 (\<lambda>rest. Some (res_bind rest (\<lambda>ns. Inr (n # ns))))))"

definition children :: "document \<Rightarrow> node_id \<Rightarrow> (panic + node_id list) option" where
  "children d i =
     (case first_child d i of Inl e \<Rightarrow> Some (Inl e) | Inr c \<Rightarrow> successors d c)"

section \<open>Tree mutation\<close>

definition append_child :: "document \<Rightarrow> node_id \<Rightarrow> node_id \<Rightarrow> panic + document" where
  "append_child d par chd =
     res_bind (node_at (nodes d) chd) (\<lambda>c.
     if r_parent c \<noteq> None then Inl Already_Attached else
     res_bind (node_at (nodes d) par) (\<lambda>p.
     let prev_last = r_last_child p in
     res_bind (case prev_last of
                 Some pl \<Rightarrow> update_node (nodes d) pl (\<lambda>r. r\<lparr>r_next_sibling := Some chd\<rparr>)
               | None \<Rightarrow> update_node (nodes d) par (\<lambda>r. r\<lparr>r_first_child := Some chd\<rparr>)) (\<lambda>m1.
     res_bind (update_node m1 chd
                 (\<lambda>r. r\<lparr>r_parent := Some par, r_prev_sibling := prev_last\<rparr>)) (\<lambda>m2.
     res_bind (update_node m2 par (\<lambda>r. r\<lparr>r_last_child := Some chd\<rparr>)) (\<lambda>m3.
     Inr (d\<lparr>nodes := m3\<rparr>))))))"

definition insert_before ::
  "document \<Rightarrow> node_id \<Rightarrow> node_id \<Rightarrow> node_id option \<Rightarrow> panic + document" where
  "insert_before d par chd ref =
     (case ref of
        None \<Rightarrow> append_child d par chd
      | Some rf \<Rightarrow>
          res_bind (node_at (nodes d) chd) (\<lambda>c.
          if r_parent c \<noteq> None then Inl Already_Attached else
          res_bind (node_at (nodes d) rf) (\<lambda>r.
          if r_parent r \<noteq> Some par then Inl Reference_Not_A_Child else
          let prv = r_prev_sibling r in
          res_bind (case prv of
                      Some pv \<Rightarrow> update_node (nodes d) pv (\<lambda>r. r\<lparr>r_next_sibling := Some chd\<rparr>)
                    | None \<Rightarrow> update_node (nodes d) par (\<lambda>r. r\<lparr>r_first_child := Some chd\<rparr>)) (\<lambda>m1.
          res_bind (update_node m1 rf (\<lambda>r. r\<lparr>r_prev_sibling := Some chd\<rparr>)) (\<lambda>m2.
          res_bind (update_node m2 chd
                      (\<lambda>r. r\<lparr>r_parent := Some par, r_prev_sibling := prv,
                            r_next_sibling := Some rf\<rparr>)) (\<lambda>m3.
          Inr (d\<lparr>nodes := m3\<rparr>)))))))"

definition detach :: "document \<Rightarrow> node_id \<Rightarrow> panic + document" where
  "detach d i =
     res_bind (node_at (nodes d) i) (\<lambda>rec.
     let par = r_parent rec; prv = r_prev_sibling rec; nxt = r_next_sibling rec in
     res_bind (case prv of
                 Some pv \<Rightarrow> update_node (nodes d) pv (\<lambda>r. r\<lparr>r_next_sibling := nxt\<rparr>)
               | None \<Rightarrow>
                   (case par of
                      Some p \<Rightarrow> update_node (nodes d) p (\<lambda>r. r\<lparr>r_first_child := nxt\<rparr>)
                    | None \<Rightarrow> Inr (nodes d))) (\<lambda>m1.
     res_bind (case nxt of
                 Some nx \<Rightarrow> update_node m1 nx (\<lambda>r. r\<lparr>r_prev_sibling := prv\<rparr>)
               | None \<Rightarrow>
                   (case par of
                      Some p \<Rightarrow> update_node m1 p (\<lambda>r. r\<lparr>r_last_child := prv\<rparr>)
                    | None \<Rightarrow> Inr m1)) (\<lambda>m2.
     res_bind (update_node m2 i
                 (\<lambda>r. r\<lparr>r_parent := None, r_prev_sibling := None, r_next_sibling := None\<rparr>)) (\<lambda>m3.
     Inr (d\<lparr>nodes := m3\<rparr>)))))"

text \<open>
  \<open>free_subtree\<close> and its \<open>while let\<close> loop over the siblings call each other:
  \<open>free_subtree_loop d (Inl i)\<close> is the function on \<open>i\<close>, \<open>free_subtree_loop d (Inr c)\<close> the
  loop at child \<open>c\<close>. \<open>None\<close> is a run that does not return.
\<close>

partial_function (option) free_subtree_loop ::
  "document \<Rightarrow> node_id + node_id option \<Rightarrow> (panic + document) option" where
  "free_subtree_loop d t =
     (case t of
        Inl i \<Rightarrow>
          Option.bind (free_subtree_loop d (Inr (Option.bind (nodes d i) r_first_child)))
            (\<lambda>res. Some (res_bind res (\<lambda>d'. Inr (d'\<lparr>nodes := (nodes d')(i := None)\<rparr>))))
      | Inr child \<Rightarrow>
          (case child of
             None \<Rightarrow> Some (Inr d)
           | Some current \<Rightarrow>
               (case next_sibling d current of
                  Inl e \<Rightarrow> Some (Inl e)
                | Inr nxt \<Rightarrow>
                    Option.bind (free_subtree_loop d (Inl current))
                      (\<lambda>res. case res of
                               Inl e \<Rightarrow> Some (Inl e)
                             | Inr d' \<Rightarrow> free_subtree_loop d' (Inr nxt)))))"

definition free_subtree :: "document \<Rightarrow> node_id \<Rightarrow> (panic + document) option" where
  "free_subtree d i = free_subtree_loop d (Inl i)"

definition remove_subtree :: "document \<Rightarrow> node_id \<Rightarrow> (panic + document) option" where
  "remove_subtree d i =
     (case detach d i of Inl e \<Rightarrow> Some (Inl e) | Inr d' \<Rightarrow> free_subtree d' i)"

section \<open>The canonical dump\<close>

definition indent_of :: "nat \<Rightarrow> rstring" where
  "indent_of depth = concat (replicate depth (chars ''  ''))"

definition dump_attr :: "nat \<Rightarrow> rstring \<times> rstring \<Rightarrow> rstring" where
  "dump_attr depth nv =
     chars ''| '' @ indent_of depth @ fst nv @ chars ''='' @ [34] @ snd nv @ [34, 10]"

definition dump_element_head :: "nat \<Rightarrow> rstring \<Rightarrow> (rstring \<times> rstring) list \<Rightarrow> rstring" where
  "dump_element_head depth tag attrs =
     chars ''| '' @ indent_of depth @ chars ''<'' @ tag @ chars ''>'' @ [10] @
     concat (map (dump_attr (depth + 1)) (sort_key fst attrs))"

definition dump_text :: "nat \<Rightarrow> rstring \<Rightarrow> rstring" where
  "dump_text depth dat = chars ''| '' @ indent_of depth @ [34] @ dat @ [34, 10]"

text \<open>
  \<open>dump_walk d depth (Inl i)\<close> is what \<open>dump_node\<close> appends for \<open>i\<close>;
  \<open>dump_walk d depth (Inr c)\<close> is what the loop over the children appends from child \<open>c\<close> on.
\<close>

partial_function (option) dump_walk ::
  "document \<Rightarrow> nat \<Rightarrow> node_id + node_id option \<Rightarrow> (panic + rstring) option" where
  "dump_walk d depth t =
     (case t of
        Inl i \<Rightarrow>
          (case data d i of
             Inl e \<Rightarrow> Some (Inl e)
           | Inr Document \<Rightarrow> Some (Inl Unreachable)
           | Inr (Text dat) \<Rightarrow> Some (Inr (dump_text depth dat))
           | Inr (Element tag attrs) \<Rightarrow>
               (case first_child d i of
                  Inl e \<Rightarrow> Some (Inl e)
                | Inr c \<Rightarrow>
                    Option.bind (dump_walk d (depth + 1) (Inr c))
                      (\<lambda>res. Some (res_bind res
                         (\<lambda>body. Inr (dump_element_head depth tag attrs @ body))))))
      | Inr child \<Rightarrow>
          (case child of
             None \<Rightarrow> Some (Inr [])
           | Some n \<Rightarrow>
               (case next_sibling d n of
                  Inl e \<Rightarrow> Some (Inl e)
                | Inr nxt \<Rightarrow>
                    Option.bind (dump_walk d depth (Inl n))
                      (\<lambda>res. case res of
                         Inl e \<Rightarrow> Some (Inl e)
                       | Inr out \<Rightarrow>
                           Option.bind (dump_walk d depth (Inr nxt))
                             (\<lambda>rest. Some (res_bind rest (\<lambda>out'. Inr (out @ out'))))))))"

definition dump_node :: "document \<Rightarrow> node_id \<Rightarrow> nat \<Rightarrow> (panic + rstring) option" where
  "dump_node d i depth = dump_walk d depth (Inl i)"

definition dump :: "document \<Rightarrow> (panic + rstring) option" where
  "dump d =
     (case res_bind (root d) (first_child d) of
        Inl e \<Rightarrow> Some (Inl e)
      | Inr c \<Rightarrow> dump_walk d 0 (Inr c))"

declare successors.simps [code] free_subtree_loop.simps [code] dump_walk.simps [code]

end
