(* ===== verification/Css_Value.thy ===== *)
theory Css_Value
  imports Css_Tokenizer Dom
begin

text \<open>
  CSS values: \<open>backend/core/css/src/value.rs\<close>. Slicing a string at a byte offset that is not a
  character boundary panics, so parsing a colour has a panic outcome.
\<close>

type_synonym u8 = "8 word"

datatype css_panic =
    Not_A_Char_Boundary
  | Index_Out_Of_Range
  | Dom_Panic panic

datatype css_length =
    Px f64
  | Em f64
  | Zero

datatype color =
    Rgba u8 u8 u8 u8
  | CurrentColor

datatype css_value =
    Keyword rstring
  | Length css_length
  | VPercentage f64
  | VNumber f64
  | Color color

definition NAMED_COLORS :: "(rstring \<times> u8 \<times> u8 \<times> u8) list" where
  "NAMED_COLORS =
     [(chars ''black'', 0, 0, 0),
      (chars ''white'', 255, 255, 255),
      (chars ''red'', 255, 0, 0),
      (chars ''green'', 0, 128, 0),
      (chars ''blue'', 0, 0, 255),
      (chars ''yellow'', 255, 255, 0),
      (chars ''gray'', 128, 128, 128),
      (chars ''grey'', 128, 128, 128),
      (chars ''silver'', 192, 192, 192),
      (chars ''orange'', 255, 165, 0),
      (chars ''purple'', 128, 0, 128),
      (chars ''transparent'', 0, 0, 0)]"

section \<open>Hexadecimal colours\<close>

definition u8_from_hex :: "rstring \<Rightarrow> u8 option" where
  "u8_from_hex s = map_option word_of_nat (from_str_radix 256 16 s)"

definition expand :: "scalar \<Rightarrow> u8 option" where
  "expand c = u8_from_hex [c, c]"

definition nth_char :: "rstring \<Rightarrow> nat \<Rightarrow> scalar option" where
  "nth_char s i = (if i < length s then Some (s ! i) else None)"

text \<open>Two bytes of the string from its start, as \<open>u8::from_str_radix(&hex[i..i + 2], 16).ok()?\<close>.\<close>

definition hex_byte ::
  "rstring \<Rightarrow> (u8 \<Rightarrow> rstring \<Rightarrow> css_panic + color option) \<Rightarrow> css_panic + color option" where
  "hex_byte s k =
     (case split_at_byte 2 s of
        None \<Rightarrow> Inl Not_A_Char_Boundary
      | Some (a, s') \<Rightarrow> (case u8_from_hex a of None \<Rightarrow> Inr None | Some v \<Rightarrow> k v s'))"

definition parse_hex_color :: "rstring \<Rightarrow> css_panic + color option" where
  "parse_hex_color hex =
     (if byte_len hex = 3
      then Inr (Option.bind (nth_char hex 0) (\<lambda>c0. Option.bind (expand c0) (\<lambda>r.
                Option.bind (nth_char hex 1) (\<lambda>c1. Option.bind (expand c1) (\<lambda>g.
                Option.bind (nth_char hex 2) (\<lambda>c2. Option.bind (expand c2) (\<lambda>b.
                Some (Rgba r g b 255))))))))
      else if byte_len hex = 6
      then hex_byte hex (\<lambda>r s1. hex_byte s1 (\<lambda>g s2. hex_byte s2 (\<lambda>b s3.
             Inr (Some (Rgba r g b 255)))))
      else Inr None)"

section \<open>Single components\<close>

definition parse_value :: "css_token list \<Rightarrow> css_panic + css_value option" where
  "parse_value tokens =
     (case filter (\<lambda>t. t \<noteq> Whitespace) tokens of
        [tok] \<Rightarrow>
          (case tok of
             Ident name \<Rightarrow>
               (let lower = to_ascii_lowercase name
                in if lower = chars ''currentcolor'' then Inr (Some (Color CurrentColor))
                   else case List.find (\<lambda>(n, _). n = lower) NAMED_COLORS of
                          Some (_, r, g, b) \<Rightarrow> Inr (Some (Color (Rgba r g b 255)))
                        | None \<Rightarrow> Inr (Some (Keyword lower)))
           | Hash hex \<Rightarrow> res_bind (parse_hex_color hex) (\<lambda>c. Inr (map_option Color c))
           | Number n \<Rightarrow> Inr (Some (VNumber n))
           | Percentage n \<Rightarrow> Inr (Some (VPercentage n))
           | Dimension n unit \<Rightarrow>
               if unit = chars ''px'' then Inr (Some (Length (Px n)))
               else if unit = chars ''em'' then Inr (Some (Length (Em n)))
               else Inr None
           | _ \<Rightarrow> Inr None)
      | _ \<Rightarrow> Inr None)"

definition zero_as_length :: "css_value \<Rightarrow> css_length option" where
  "zero_as_length v =
     (case v of
        VNumber n \<Rightarrow> if f_eq n (Finite 0) then Some Zero else None
      | Length l \<Rightarrow> Some l
      | _ \<Rightarrow> None)"

end
