(* ===== verification/Css_Selector.thy ===== *)
theory Css_Selector
  imports Css_Value
begin

text \<open>
  Selectors: \<open>backend/core/css/src/selector.rs\<close>. Parsing from tokens, specificity, and matching
  against a document by walking up its parent links.
\<close>

section \<open>Selectors\<close>

datatype simple_selector =
    Universal
  | Type rstring
  | Class rstring
  | Id rstring
  | AttrPresence rstring
  | AttrEquals rstring rstring

datatype combinator = Descendant | Child

record compound =
  simple_selectors :: "simple_selector list"

record complex_selector =
  compounds :: "compound list"
  combinators :: "combinator list"

type_synonym specificity = "u32 \<times> u32 \<times> u32"

fun add_specificity :: "simple_selector \<Rightarrow> specificity \<Rightarrow> specificity" where
  "add_specificity s (i, c, t) =
     (case s of
        Id _ \<Rightarrow> (i + 1, c, t)
      | Class _ \<Rightarrow> (i, c + 1, t)
      | AttrPresence _ \<Rightarrow> (i, c + 1, t)
      | AttrEquals _ _ \<Rightarrow> (i, c + 1, t)
      | Type _ \<Rightarrow> (i, c, t + 1)
      | Universal \<Rightarrow> (i, c, t))"

definition specificity :: "complex_selector \<Rightarrow> specificity" where
  "specificity sel =
     fold (\<lambda>cmp. fold add_specificity (simple_selectors cmp)) (compounds sel) (0, 0, 0)"

section \<open>Parsing\<close>

text \<open>The slice between the first and the last token that is not white space.\<close>

definition trim_whitespace :: "css_token list \<Rightarrow> css_token list" where
  "trim_whitespace ts =
     rev (dropWhile (\<lambda>t. t = Whitespace) (rev (dropWhile (\<lambda>t. t = Whitespace) ts)))"

text \<open>\<open>slice::split\<close>: the maximal runs between separators, one more than there are separators.\<close>

fun split_on :: "('a \<Rightarrow> bool) \<Rightarrow> 'a list \<Rightarrow> 'a list list" where
  "split_on p [] = [[]]"
| "split_on p (x # xs) =
     (if p x then [] # split_on p xs
      else case split_on p xs of [] \<Rightarrow> [[x]] | y # ys \<Rightarrow> (x # y) # ys)"

fun parse_simple_selectors_loop ::
  "css_token list \<Rightarrow> simple_selector list \<Rightarrow> simple_selector list option" where
  "parse_simple_selectors_loop [] result = Some result"
| "parse_simple_selectors_loop (Ident name # ts) result =
     parse_simple_selectors_loop ts (result @ [Type (to_ascii_lowercase name)])"
| "parse_simple_selectors_loop (Delim c # ts) result =
     (if c = ch CHR ''*'' then parse_simple_selectors_loop ts (result @ [Universal])
      else if c = ch CHR ''.''
           then (case ts of
                   Ident name # ts' \<Rightarrow> parse_simple_selectors_loop ts' (result @ [Class name])
                 | _ \<Rightarrow> None)
      else None)"
| "parse_simple_selectors_loop (Hash name # ts) result =
     parse_simple_selectors_loop ts (result @ [Id name])"
| "parse_simple_selectors_loop (LeftBracket # ts) result =
     (case ts of
        Ident attr # RightBracket # ts' \<Rightarrow>
          parse_simple_selectors_loop ts' (result @ [AttrPresence (to_ascii_lowercase attr)])
      | Ident attr # Delim c # v # RightBracket # ts' \<Rightarrow>
          if c = ch CHR ''=''
          then (case v of
                  QuotedString s \<Rightarrow>
                    parse_simple_selectors_loop ts'
                      (result @ [AttrEquals (to_ascii_lowercase attr) s])
                | Ident s \<Rightarrow>
                    parse_simple_selectors_loop ts'
                      (result @ [AttrEquals (to_ascii_lowercase attr) s])
                | _ \<Rightarrow> None)
          else None
      | _ \<Rightarrow> None)"
| "parse_simple_selectors_loop (_ # ts) result = None"

definition parse_simple_selectors :: "css_token list \<Rightarrow> simple_selector list option" where
  "parse_simple_selectors ts =
     (if ts = [] then None else parse_simple_selectors_loop ts [])"

text \<open>
  The loop of \<open>parse_complex_selector\<close>: the compounds closed so far, the tokens of the last,
  open one, the combinators, and whether white space is pending.
\<close>

record selector_split =
  closed :: "css_token list list"
  open_tokens :: "css_token list"
  split_combinators :: "combinator list"
  pending_whitespace :: bool

definition push_combinator :: "combinator \<Rightarrow> selector_split \<Rightarrow> selector_split" where
  "push_combinator k st =
     st\<lparr>split_combinators := split_combinators st @ [k],
        closed := closed st @ [open_tokens st], open_tokens := []\<rparr>"

definition split_step :: "css_token \<Rightarrow> selector_split \<Rightarrow> selector_split" where
  "split_step tok st =
     (if tok = Whitespace then st\<lparr>pending_whitespace := True\<rparr>
      else if tok = Delim (ch CHR ''>'')
           then (push_combinator Child st)\<lparr>pending_whitespace := False\<rparr>
      else let st' = (if pending_whitespace st \<and> open_tokens st \<noteq> []
                      then push_combinator Descendant st else st)
           in st'\<lparr>pending_whitespace := False, open_tokens := open_tokens st' @ [tok]\<rparr>)"

definition split_selector :: "css_token list \<Rightarrow> selector_split" where
  "split_selector ts =
     fold split_step ts
       \<lparr>closed = [], open_tokens = [], split_combinators = [], pending_whitespace = False\<rparr>"

text \<open>\<open>collect\<close> into an \<open>Option\<close> of a vector.\<close>

fun collect_option :: "'a option list \<Rightarrow> 'a list option" where
  "collect_option [] = Some []"
| "collect_option (x # xs) =
     Option.bind x (\<lambda>a. map_option ((#) a) (collect_option xs))"

definition parse_complex_selector :: "css_token list \<Rightarrow> complex_selector option" where
  "parse_complex_selector tokens =
     (let ts = trim_whitespace tokens
      in if ts = [] then None
         else let st = split_selector ts
              in Option.bind
                   (collect_option
                      (map (\<lambda>toks. map_option (\<lambda>ss. \<lparr>simple_selectors = ss\<rparr>)
                              (parse_simple_selectors toks))
                         (closed st @ [open_tokens st])))
                   (\<lambda>cs. Some \<lparr>compounds = cs, combinators = split_combinators st\<rparr>))"

definition parse_selector_list :: "css_token list \<Rightarrow> complex_selector list" where
  "parse_selector_list tokens =
     List.map_filter parse_complex_selector (split_on (\<lambda>t. t = Comma) tokens)"

section \<open>Matching\<close>

definition simple_matches :: "rstring \<Rightarrow> (rstring \<times> rstring) list \<Rightarrow> simple_selector \<Rightarrow> bool" where
  "simple_matches tag attrs s =
     (case s of
        Universal \<Rightarrow> True
      | Type t \<Rightarrow> tag = t
      | Class c \<Rightarrow>
          list_ex (\<lambda>(k, v). k = chars ''class'' \<and> list_ex (\<lambda>cls. cls = c) (split_whitespace v)) attrs
      | Id i \<Rightarrow> list_ex (\<lambda>(k, v). k = chars ''id'' \<and> v = i) attrs
      | AttrPresence a \<Rightarrow> list_ex (\<lambda>(k, _). k = a) attrs
      | AttrEquals a v \<Rightarrow> list_ex (\<lambda>(k, val). k = a \<and> val = v) attrs)"

definition data_matches :: "node_data \<Rightarrow> compound \<Rightarrow> bool" where
  "data_matches dat cmp =
     (case dat of
        Element tag attrs \<Rightarrow> list_all (simple_matches tag attrs) (simple_selectors cmp)
      | _ \<Rightarrow> False)"

definition compound_matches :: "document \<Rightarrow> node_id \<Rightarrow> compound \<Rightarrow> css_panic + bool" where
  "compound_matches d n cmp =
     (case data d n of Inl e \<Rightarrow> Inl (Dom_Panic e) | Inr dat \<Rightarrow> Inr (data_matches dat cmp))"

definition compound_matches_at ::
  "document \<Rightarrow> node_id \<Rightarrow> complex_selector \<Rightarrow> nat \<Rightarrow> css_panic + bool" where
  "compound_matches_at d n sel i =
     (if i < length (compounds sel) then compound_matches d n (compounds sel ! i)
      else Inl Index_Out_Of_Range)"

text \<open>
  \<open>matches_walk d sel (Inl (i, n))\<close> is \<open>matches_from\<close> for the compounds up to \<open>i\<close> at node \<open>n\<close>;
  \<open>matches_walk d sel (Inr (i, a))\<close> is its loop over the ancestors, at ancestor \<open>a\<close>. \<open>None\<close> is a
  walk that does not end, which a document with a cycle of parents would cause.
\<close>

partial_function (option) matches_walk ::
  "document \<Rightarrow> complex_selector \<Rightarrow> nat \<times> node_id + nat \<times> node_id option \<Rightarrow>
   (css_panic + bool) option" where
  "matches_walk d sel t =
     (case t of
        Inl (i, n) \<Rightarrow>
          if i = 0 then Some (Inr True)
          else if length (combinators sel) < i then Some (Inl Index_Out_Of_Range)
          else if combinators sel ! (i - 1) = Child
               then (case parent d n of
                       Inl e \<Rightarrow> Some (Inl (Dom_Panic e))
                     | Inr None \<Rightarrow> Some (Inr False)
                     | Inr (Some p) \<Rightarrow>
                         (case compound_matches_at d p sel (i - 1) of
                            Inl e \<Rightarrow> Some (Inl e)
                          | Inr b \<Rightarrow> if b then matches_walk d sel (Inl (i - 1, p))
                                     else Some (Inr False)))
          else (case parent d n of
                  Inl e \<Rightarrow> Some (Inl (Dom_Panic e))
                | Inr ancestor \<Rightarrow> matches_walk d sel (Inr (i, ancestor)))
      | Inr (i, ancestor) \<Rightarrow>
          (case ancestor of
             None \<Rightarrow> Some (Inr False)
           | Some a \<Rightarrow>
               (case compound_matches_at d a sel (i - 1) of
                  Inl e \<Rightarrow> Some (Inl e)
                | Inr b \<Rightarrow>
                    Option.bind (if b then matches_walk d sel (Inl (i - 1, a)) else Some (Inr False))
                      (\<lambda>res. case res of
                         Inl e \<Rightarrow> Some (Inl e)
                       | Inr found \<Rightarrow>
                           if found then Some (Inr True)
                           else (case parent d a of
                                   Inl e \<Rightarrow> Some (Inl (Dom_Panic e))
                                 | Inr up \<Rightarrow> matches_walk d sel (Inr (i, up)))))))"

definition matches_from ::
  "document \<Rightarrow> complex_selector \<Rightarrow> nat \<Rightarrow> node_id \<Rightarrow> (css_panic + bool) option" where
  "matches_from d sel i n = matches_walk d sel (Inl (i, n))"

definition matches :: "document \<Rightarrow> node_id \<Rightarrow> complex_selector \<Rightarrow> (css_panic + bool) option" where
  "matches d n sel =
     (let k = length (compounds sel)
      in if k = 0 then Some (Inr False)
         else case compound_matches_at d n sel (k - 1) of
                Inl e \<Rightarrow> Some (Inl e)
              | Inr b \<Rightarrow> if b then matches_from d sel (k - 1) n else Some (Inr False))"

end
