(* ===== verification/Css_Parser.thy ===== *)
theory Css_Parser
  imports Css_Selector
begin

text \<open>
  Rules and declarations: \<open>backend/core/css/src/parser.rs\<close>. Token positions of the source become
  the list of tokens from that position on.
\<close>

record css_declaration =
  decl_property :: rstring
  decl_value :: css_value
  decl_important :: bool

record css_rule =
  rule_selectors :: "complex_selector list"
  rule_declarations :: "css_declaration list"

definition LENGTH_VALUED_PROPERTIES :: "rstring list" where
  "LENGTH_VALUED_PROPERTIES = map chars
     [''width'', ''height'', ''margin-top'', ''margin-right'', ''margin-bottom'', ''margin-left'',
      ''padding-top'', ''padding-right'', ''padding-bottom'', ''padding-left'',
      ''border-top-width'', ''border-right-width'', ''border-bottom-width'', ''border-left-width'',
      ''top'', ''right'', ''bottom'', ''left'', ''flex-basis'', ''font-size'']"

section \<open>Values of one property\<close>

definition parse_component_value ::
  "rstring \<Rightarrow> css_token list \<Rightarrow> css_panic + css_value option" where
  "parse_component_value property tokens =
     res_bind (parse_value tokens) (\<lambda>v.
       case v of
         None \<Rightarrow> Inr None
       | Some value \<Rightarrow>
           if property \<in> set LENGTH_VALUED_PROPERTIES
           then (case zero_as_length value of
                   Some len \<Rightarrow> Inr (Some (Length len))
                 | None \<Rightarrow> Inr (Some value))
           else Inr (Some value))"

definition trim_ws :: "css_token list \<Rightarrow> css_token list" where
  "trim_ws ts =
     rev (dropWhile (\<lambda>t. t = Whitespace) (rev (dropWhile (\<lambda>t. t = Whitespace) ts)))"

definition components :: "css_token list \<Rightarrow> css_token list list" where
  "components ts =
     filter (\<lambda>c. c \<noteq> []) (map trim_ws (split_on (\<lambda>t. t = Whitespace) ts))"

definition expand_box_shorthand ::
  "css_value list \<Rightarrow> (css_value \<times> css_value \<times> css_value \<times> css_value) option" where
  "expand_box_shorthand values =
     (case values of
        [a] \<Rightarrow> Some (a, a, a, a)
      | [a, b] \<Rightarrow> Some (a, b, a, b)
      | [a, b, c] \<Rightarrow> Some (a, b, c, b)
      | [a, b, c, d] \<Rightarrow> Some (a, b, c, d)
      | _ \<Rightarrow> None)"

definition BORDER_STYLE_KEYWORDS :: "rstring list" where
  "BORDER_STYLE_KEYWORDS = map chars
     [''none'', ''hidden'', ''solid'', ''dashed'', ''dotted'', ''double'', ''groove'', ''ridge'',
      ''inset'', ''outset'']"

text \<open>\<open>collect\<close> into an \<open>Option\<close> stops at the first \<open>None\<close>; what follows is not parsed.\<close>

fun collect_values ::
  "('a \<Rightarrow> css_panic + css_value option) \<Rightarrow> 'a list \<Rightarrow> css_panic + css_value list option" where
  "collect_values f [] = Inr (Some [])"
| "collect_values f (c # cs) =
     res_bind (f c) (\<lambda>v.
       case v of
         None \<Rightarrow> Inr None
       | Some x \<Rightarrow> res_bind (collect_values f cs) (\<lambda>r. Inr (map_option ((#) x) r)))"

definition side_property :: "rstring \<Rightarrow> string \<Rightarrow> rstring \<Rightarrow> rstring" where
  "side_property pre side suf = pre @ chars ''-'' @ chars side @ suf"

definition expand_box_shorthand_property ::
  "rstring \<Rightarrow> rstring \<Rightarrow> css_token list \<Rightarrow> bool \<Rightarrow> css_panic + (rstring \<times> css_value) list" where
  "expand_box_shorthand_property pre suf value_tokens is_length =
     res_bind
       (collect_values
          (\<lambda>c. if is_length then parse_component_value (side_property pre ''top'' suf) c
               else parse_value c)
          (components value_tokens))
       (\<lambda>cs. case Option.bind cs expand_box_shorthand of
          None \<Rightarrow> Inr []
        | Some (t, r, b, l) \<Rightarrow>
            Inr [(side_property pre ''top'' suf, t), (side_property pre ''right'' suf, r),
                 (side_property pre ''bottom'' suf, b), (side_property pre ''left'' suf, l)])"

text \<open>The \<open>border\<close> shorthand: width, style and colour in any order.\<close>

record border_parts =
  b_width :: "css_value option"
  b_style :: "css_value option"
  b_color :: "css_value option"

definition border_part :: "css_value \<Rightarrow> border_parts \<Rightarrow> border_parts" where
  "border_part v p =
     (case v of
        Color _ \<Rightarrow> p\<lparr>b_color := Some v\<rparr>
      | Keyword k \<Rightarrow> if k \<in> set BORDER_STYLE_KEYWORDS then p\<lparr>b_style := Some v\<rparr> else p
      | Length _ \<Rightarrow> p\<lparr>b_width := Some v\<rparr>
      | VNumber n \<Rightarrow> if f_eq n (Finite 0) then p\<lparr>b_width := Some (Length Zero)\<rparr> else p
      | _ \<Rightarrow> p)"

fun border_loop :: "css_token list list \<Rightarrow> border_parts \<Rightarrow> css_panic + border_parts" where
  "border_loop [] p = Inr p"
| "border_loop (c # cs) p =
     res_bind (parse_value c) (\<lambda>v.
       case v of None \<Rightarrow> border_loop cs p | Some x \<Rightarrow> border_loop cs (border_part x p))"

definition border_side :: "border_parts \<Rightarrow> string \<Rightarrow> (rstring \<times> css_value) list" where
  "border_side p side =
     (let out = (\<lambda>part v. case v of
                   Some x \<Rightarrow> [(chars ''border-'' @ chars side @ chars part, x)] | None \<Rightarrow> [])
      in out ''-width'' (b_width p) @ out ''-style'' (b_style p) @ out ''-color'' (b_color p))"

definition expand_border :: "css_token list \<Rightarrow> css_panic + (rstring \<times> css_value) list" where
  "expand_border value_tokens =
     res_bind (border_loop (components value_tokens) \<lparr>b_width = None, b_style = None, b_color = None\<rparr>)
       (\<lambda>p. Inr (concat (map (border_side p) [''top'', ''right'', ''bottom'', ''left''])))"

fun font_name :: "css_token list \<Rightarrow> rstring option" where
  "font_name [] = None"
| "font_name (t # ts) =
     (case t of
        Ident s \<Rightarrow> Some (to_ascii_lowercase s)
      | QuotedString s \<Rightarrow> Some (to_ascii_lowercase s)
      | _ \<Rightarrow> font_name ts)"

definition expand_property ::
  "rstring \<Rightarrow> css_token list \<Rightarrow> css_panic + (rstring \<times> css_value) list" where
  "expand_property property value_tokens =
     (if property = chars ''margin'' \<or> property = chars ''padding''
      then expand_box_shorthand_property property [] value_tokens True
      else if property = chars ''border-width''
      then expand_box_shorthand_property (chars ''border'') (chars ''-width'') value_tokens True
      else if property = chars ''border-style''
      then expand_box_shorthand_property (chars ''border'') (chars ''-style'') value_tokens False
      else if property = chars ''border-color''
      then expand_box_shorthand_property (chars ''border'') (chars ''-color'') value_tokens False
      else if property = chars ''border'' then expand_border value_tokens
      else if property = chars ''font-family''
      then (case font_name (trim_ws value_tokens) of
              Some n \<Rightarrow> Inr [(chars ''font-family'', Keyword n)]
            | None \<Rightarrow> Inr [])
      else res_bind (parse_component_value property value_tokens)
             (\<lambda>v. case v of Some x \<Rightarrow> Inr [(property, x)] | None \<Rightarrow> Inr []))"

section \<open>Declarations\<close>

text \<open>The trailing \<open>! important\<close> of a declaration's value.\<close>

definition split_important :: "css_token list \<Rightarrow> css_token list \<times> bool" where
  "split_important ts =
     (case rev ts of
        Ident word # before \<Rightarrow>
          if eq_ignore_ascii_case word (chars ''important'')
          then (case rev (trim_ws (rev before)) of
                  Delim c # before' \<Rightarrow>
                    if c = ch CHR ''!'' then (trim_ws (rev before'), True) else (ts, False)
                | _ \<Rightarrow> (ts, False))
          else (ts, False)
      | _ \<Rightarrow> (ts, False))"

definition parse_declaration_head ::
  "css_token list \<Rightarrow> (rstring \<times> css_token list \<times> bool) option" where
  "parse_declaration_head ts =
     (case trim_ws ts of
        Ident prop # Colon # value \<Rightarrow>
          Some (to_ascii_lowercase prop, split_important (trim_ws value))
      | _ \<Rightarrow> None)"

fun parse_declarations_loop :: "css_token list list \<Rightarrow> css_panic + css_declaration list" where
  "parse_declarations_loop [] = Inr []"
| "parse_declarations_loop (ts # tss) =
     (case parse_declaration_head ts of
        None \<Rightarrow> parse_declarations_loop tss
      | Some (property, value_tokens, important) \<Rightarrow>
          res_bind (expand_property property value_tokens) (\<lambda>pvs.
          res_bind (parse_declarations_loop tss) (\<lambda>decls.
          Inr (map (\<lambda>(p, v). \<lparr>decl_property = p, decl_value = v, decl_important = important\<rparr>) pvs
               @ decls))))"

definition parse_declarations :: "css_token list \<Rightarrow> css_panic + css_declaration list" where
  "parse_declarations tokens =
     parse_declarations_loop (split_on (\<lambda>t. t = Semicolon) tokens)"

section \<open>Rules\<close>

fun skip_at_rule :: "css_token list \<Rightarrow> nat \<Rightarrow> css_token list" where
  "skip_at_rule [] depth = []"
| "skip_at_rule (t # ts) depth =
     (if t = LeftBrace then skip_at_rule ts (depth + 1)
      else if t = RightBrace
           then (if depth = 0 then ts
                 else if depth - 1 = 0 then ts
                 else skip_at_rule ts (depth - 1))
      else if t = Semicolon \<and> depth = 0 then ts
      else skip_at_rule ts depth)"

text \<open>\<open>iter().position\<close>: the tokens before the first occurrence and those after it.\<close>

fun split_first :: "'a \<Rightarrow> 'a list \<Rightarrow> ('a list \<times> 'a list) option" where
  "split_first x [] = None"
| "split_first x (y # ys) =
     (if y = x then Some ([], ys)
      else map_option (\<lambda>(a, b). (y # a, b)) (split_first x ys))"

lemma length_skip_at_rule: "length (skip_at_rule ts depth) \<le> length ts"
  by (induction ts depth rule: skip_at_rule.induct) auto

lemma split_first_append: "split_first x ys = Some (a, b) \<Longrightarrow> ys = a @ x # b"
  by (induction ys arbitrary: a) (auto split: if_splits)

text \<open>
  The next block: the tokens before its \<open>{\<close>, those up to the first \<open>}\<close> after it, and the rest.
  \<open>None\<close> is trailing text without a block or a block that is not closed.
\<close>

definition next_block ::
  "css_token list \<Rightarrow> (css_token list \<times> css_token list \<times> css_token list) option" where
  "next_block ts =
     Option.bind (split_first LeftBrace ts) (\<lambda>(selector_tokens, body).
     Option.bind (split_first RightBrace body) (\<lambda>(body_tokens, after).
     Some (selector_tokens, body_tokens, after)))"

lemma next_block_append:
  "next_block ts = Some (a, b, c) \<Longrightarrow> ts = a @ LeftBrace # b @ RightBrace # c"
  by (auto simp: next_block_def bind_eq_Some_conv dest!: split_first_append)

fun is_at_keyword :: "css_token \<Rightarrow> bool" where
  "is_at_keyword (AtKeyword _) \<longleftrightarrow> True"
| "is_at_keyword _ \<longleftrightarrow> False"

function parse_rules :: "css_token list \<Rightarrow> css_panic + css_rule list" where
  "parse_rules ts =
     (case ts of
        [] \<Rightarrow> Inr []
      | t # ts' \<Rightarrow>
          if t = Whitespace then parse_rules ts'
          else if is_at_keyword t then parse_rules (skip_at_rule ts' 0)
          else (case next_block ts of
                  None \<Rightarrow> Inr []
                | Some (selector_tokens, body_tokens, after) \<Rightarrow>
                    (let selectors = parse_selector_list selector_tokens
                     in if selectors = [] then parse_rules after
                        else res_bind (parse_declarations body_tokens) (\<lambda>decls.
                             res_bind (parse_rules after) (\<lambda>rules.
                             Inr (\<lparr>rule_selectors = selectors, rule_declarations = decls\<rparr>
                                  # rules))))))"
  by pat_completeness auto
termination
  by (relation "measure length")
     (auto dest!: next_block_append simp: le_imp_less_Suc length_skip_at_rule dest: arg_cong [of _ _ length])

declare parse_rules.simps [simp del]

definition parse :: "rstring \<Rightarrow> css_panic + css_rule list" where
  "parse input = parse_rules (tokenize input)"

end
