(* ===== verification/Css_Cascade.thy ===== *)
theory Css_Cascade
  imports Css_Parser "HOL-Library.Product_Lexorder"
begin

text \<open>
  The cascade: \<open>backend/core/css/src/cascade.rs\<close>. From a document and style sheets to one
  computed style per element. A \<open>HashMap\<close> is a map; its iteration order is not observable
  here, since the loop over \<open>winners\<close> inserts every key once.
\<close>

datatype origin = Ua | Author

record computed_style =
  cs_display :: rstring
  cs_color :: color
  cs_font_size_px :: f64
  cs_font_family :: "rstring option"
  cs_font_style :: "rstring option"
  cs_line_height :: "css_value option"
  cs_text_align :: "rstring option"
  cs_other :: "rstring \<rightharpoonup> css_value"

definition is_bold :: "computed_style \<Rightarrow> bool" where
  "is_bold st =
     (case cs_other st (chars ''font-weight'') of
        Some (Keyword k) \<Rightarrow> k = chars ''bold''
      | Some (VNumber n) \<Rightarrow> f_le (Finite 600) n
      | _ \<Rightarrow> False)"

definition is_italic :: "computed_style \<Rightarrow> bool" where
  "is_italic st \<longleftrightarrow> cs_font_style st = Some (chars ''italic'')"

definition opacity :: "computed_style \<Rightarrow> f32" where
  "opacity st =
     (case cs_other st (chars ''opacity'') of
        Some (VNumber n) \<Rightarrow> f_clamp (Finite 0) (Finite 1) (as_f32 n)
      | _ \<Rightarrow> Finite 1)"

definition initial :: computed_style where
  "initial =
     \<lparr>cs_display = chars ''inline'', cs_color = Rgba 0 0 0 255, cs_font_size_px = Finite 16,
      cs_font_family = None, cs_font_style = None, cs_line_height = None, cs_text_align = None,
      cs_other = Map.empty\<rparr>"

definition INHERITED_PROPERTIES :: "rstring list" where
  "INHERITED_PROPERTIES = map chars
     [''color'', ''font-family'', ''font-size'', ''font-style'', ''line-height'', ''text-align'']"

definition OTHER_INHERITED_PROPERTIES :: "rstring list" where
  "OTHER_INHERITED_PROPERTIES = [chars ''font-weight'']"

definition resolve_font_size :: "css_value \<Rightarrow> f64 \<Rightarrow> f64 option" where
  "resolve_font_size v parent_px =
     (case v of
        Length (Px n) \<Rightarrow> Some n
      | Length (Em n) \<Rightarrow> Some (f64_mul n parent_px)
      | Length Zero \<Rightarrow> Some (Finite 0)
      | VPercentage p \<Rightarrow> Some (f64_div (f64_mul parent_px p) (Finite 100))
      | _ \<Rightarrow> None)"

definition resolve_color :: "css_value \<Rightarrow> color \<Rightarrow> color option" where
  "resolve_color v inherited =
     (case v of
        Color CurrentColor \<Rightarrow> Some inherited
      | Color c \<Rightarrow> Some c
      | _ \<Rightarrow> None)"

section \<open>Matching declarations\<close>

record matched =
  m_origin :: origin
  m_specificity :: specificity
  m_source_order :: u64
  m_declaration :: css_declaration

text \<open>The highest specificity among the selectors of a rule that match, as \<open>filter\<close>, \<open>map\<close>, \<open>max\<close>.\<close>

fun best_specificity ::
  "document \<Rightarrow> node_id \<Rightarrow> complex_selector list \<Rightarrow> (css_panic + specificity option) option" where
  "best_specificity d n [] = Some (Inr None)"
| "best_specificity d n (s # ss) =
     run_bind (matches d n s) (\<lambda>hit.
     run_bind (best_specificity d n ss) (\<lambda>best.
     Some (Inr (if hit
                then Some (case best of None \<Rightarrow> specificity s | Some b \<Rightarrow> max (specificity s) b)
                else best))))"

fun match_rules ::
  "document \<Rightarrow> node_id \<Rightarrow> origin \<Rightarrow> nat \<Rightarrow> css_rule list \<Rightarrow> (css_panic + matched list) option" where
  "match_rules d n org source_order [] = Some (Inr [])"
| "match_rules d n org source_order (r # rs) =
     run_bind (best_specificity d n (rule_selectors r)) (\<lambda>best.
     run_bind (match_rules d n org (source_order + 1) rs) (\<lambda>ms.
     Some (Inr (case best of
                  None \<Rightarrow> ms
                | Some spec \<Rightarrow>
                    map (\<lambda>decl. \<lparr>m_origin = org, m_specificity = spec,
                           m_source_order = of_nat source_order, m_declaration = decl\<rparr>)
                      (rule_declarations r) @ ms))))"

fun match_sheets ::
  "document \<Rightarrow> node_id \<Rightarrow> (origin \<times> css_rule list) list \<Rightarrow> (css_panic + matched list) option" where
  "match_sheets d n [] = Some (Inr [])"
| "match_sheets d n ((org, rules) # sheets) =
     run_bind (match_rules d n org 0 rules) (\<lambda>ms.
     run_bind (match_sheets d n sheets) (\<lambda>ms'. Some (Inr (ms @ ms'))))"

definition inline_style_declarations ::
  "document \<Rightarrow> node_id \<Rightarrow> css_panic + css_declaration list" where
  "inline_style_declarations d n =
     (case data d n of
        Inl e \<Rightarrow> Inl (Dom_Panic e)
      | Inr (Element tag attrs) \<Rightarrow>
          (case List.find (\<lambda>(k, _). k = chars ''style'') attrs of
             None \<Rightarrow> Inr []
           | Some (_, style_attr) \<Rightarrow> parse_declarations (tokenize style_attr))
      | Inr _ \<Rightarrow> Inr [])"

definition inline_matched :: "css_declaration \<Rightarrow> matched" where
  "inline_matched decl =
     \<lparr>m_origin = Author, m_specificity = (- 1, 0, 0), m_source_order = - 1, m_declaration = decl\<rparr>"

text \<open>\<open>origin as u8\<close>, and the rank with \<open>!important\<close> reversing it.\<close>

fun origin_rank :: "origin \<Rightarrow> nat" where
  "origin_rank Ua = 0"
| "origin_rank Author = 1"

definition cascade_key :: "matched \<Rightarrow> bool \<times> nat \<times> specificity \<times> u64" where
  "cascade_key m =
     (let imp = decl_important (m_declaration m)
      in (imp,
          if imp then 1 - origin_rank (m_origin m) else origin_rank (m_origin m),
          m_specificity m,
          m_source_order m))"

definition collect_winners :: "matched list \<Rightarrow> (rstring \<rightharpoonup> css_value)" where
  "collect_winners ms =
     fold (\<lambda>m w. w(decl_property (m_declaration m) \<mapsto> decl_value (m_declaration m)))
       (sort_key cascade_key ms) Map.empty"

section \<open>Computed values\<close>

definition keyword_of :: "css_value \<Rightarrow> rstring option" where
  "keyword_of v = (case v of Keyword k \<Rightarrow> Some k | _ \<Rightarrow> None)"

definition or_else :: "'a option \<Rightarrow> 'a option \<Rightarrow> 'a option" where
  "or_else a b = (case a of Some x \<Rightarrow> Some x | None \<Rightarrow> b)"

definition other_values ::
  "color \<Rightarrow> (rstring \<rightharpoonup> css_value) \<Rightarrow> computed_style \<Rightarrow> (rstring \<rightharpoonup> css_value)" where
  "other_values col w par = (\<lambda>prop.
     let own = (if prop \<in> set INHERITED_PROPERTIES \<or> prop = chars ''display'' then None
                else map_option (\<lambda>v. if v = Color CurrentColor then Color col else v) (w prop))
     in if prop \<in> set OTHER_INHERITED_PROPERTIES then or_else own (cs_other par prop) else own)"

definition computed_from :: "(rstring \<rightharpoonup> css_value) \<Rightarrow> computed_style \<Rightarrow> computed_style" where
  "computed_from w par =
     (let kw = (\<lambda>prop. Option.bind (w (chars prop)) keyword_of);
          col = (case Option.bind (w (chars ''color'')) (\<lambda>v. resolve_color v (cs_color par)) of
                   Some c \<Rightarrow> c | None \<Rightarrow> cs_color par)
      in \<lparr>cs_display = (case kw ''display'' of Some k \<Rightarrow> k | None \<Rightarrow> cs_display initial),
          cs_color = col,
          cs_font_size_px =
            (case Option.bind (w (chars ''font-size''))
                    (\<lambda>v. resolve_font_size v (cs_font_size_px par)) of
               Some n \<Rightarrow> n | None \<Rightarrow> cs_font_size_px par),
          cs_font_family = or_else (kw ''font-family'') (cs_font_family par),
          cs_font_style = or_else (kw ''font-style'') (cs_font_style par),
          cs_line_height = or_else (w (chars ''line-height'')) (cs_line_height par),
          cs_text_align = or_else (kw ''text-align'') (cs_text_align par),
          cs_other = other_values col w par\<rparr>)"

definition compute_style_for ::
  "document \<Rightarrow> node_id \<Rightarrow> (origin \<times> css_rule list) list \<Rightarrow> computed_style option \<Rightarrow>
   (css_panic + computed_style) option" where
  "compute_style_for d n sheets parent_style =
     run_bind (match_sheets d n sheets) (\<lambda>ms.
     run_bind (Some (inline_style_declarations d n)) (\<lambda>inl.
     Some (Inr (computed_from (collect_winners (ms @ map inline_matched inl))
                  (case parent_style of Some p \<Rightarrow> p | None \<Rightarrow> initial)))))"

section \<open>The tree walk\<close>

type_synonym styles = "node_id \<rightharpoonup> computed_style"

text \<open>
  \<open>cascade_walk d sheets (Inl (ps, n, styles))\<close> is \<open>cascade_subtree\<close> at node \<open>n\<close>;
  \<open>cascade_walk d sheets (Inr (ps, ns, styles))\<close> is its loop over the remaining children \<open>ns\<close>.
\<close>

partial_function (option) cascade_walk ::
  "document \<Rightarrow> (origin \<times> css_rule list) list \<Rightarrow>
   computed_style option \<times> node_id \<times> styles + computed_style option \<times> node_id list \<times> styles \<Rightarrow>
   (css_panic + styles) option" where
  "cascade_walk d sheets t =
     (case t of
        Inl (parent_style, n, styles) \<Rightarrow>
          (case data d n of
             Inl e \<Rightarrow> Some (Inl (Dom_Panic e))
           | Inr dat \<Rightarrow>
               run_bind
                 (case dat of
                    Element _ _ \<Rightarrow>
                      run_bind (compute_style_for d n sheets parent_style)
                        (\<lambda>st. Some (Inr (Some st, styles(n \<mapsto> st))))
                  | _ \<Rightarrow> Some (Inr (parent_style, styles)))
                 (\<lambda>(own_style, styles').
                    case children d n of
                      None \<Rightarrow> None
                    | Some (Inl e) \<Rightarrow> Some (Inl (Dom_Panic e))
                    | Some (Inr ns) \<Rightarrow> cascade_walk d sheets (Inr (own_style, ns, styles'))))
      | Inr (own_style, ns, styles) \<Rightarrow>
          (case ns of
             [] \<Rightarrow> Some (Inr styles)
           | c # cs \<Rightarrow>
               run_bind (cascade_walk d sheets (Inl (own_style, c, styles)))
                 (\<lambda>styles'. cascade_walk d sheets (Inr (own_style, cs, styles')))))"

definition cascade_subtree ::
  "document \<Rightarrow> node_id \<Rightarrow> (origin \<times> css_rule list) list \<Rightarrow> computed_style option \<Rightarrow> styles \<Rightarrow>
   (css_panic + styles) option" where
  "cascade_subtree d n sheets parent_style styles =
     cascade_walk d sheets (Inl (parent_style, n, styles))"

definition cascade ::
  "document \<Rightarrow> (origin \<times> css_rule list) list \<Rightarrow> (css_panic + styles) option" where
  "cascade d sheets =
     (case root d of
        Inl e \<Rightarrow> Some (Inl (Dom_Panic e))
      | Inr r \<Rightarrow> cascade_subtree d r sheets None Map.empty)"

section \<open>The built-in style sheet\<close>

definition UA_STYLESHEET_SOURCE :: rstring where
  "UA_STYLESHEET_SOURCE = concat (map (\<lambda>line. chars line @ [10])
     ['''',
      ''html, body, div, p, ul, ol, li, section, article, header, footer, nav,'',
      ''main, aside, figure, figcaption, blockquote, pre, form, fieldset,'',
      ''table, thead, tbody, tfoot, tr, td, th, caption, colgroup,'',
      ''h1, h2, h3, h4, h5, h6 {'',
      ''  display: block;'',
      ''}'',
      ''button, input, select, textarea {'',
      ''  display: inline-block;'',
      ''}'',
      ''head, title, style, script, link, meta, colgroup {'',
      ''  display: none;'',
      ''}'',
      ''b, strong {'',
      ''  font-weight: bold;'',
      ''}'',
      ''i, em {'',
      ''  font-style: italic;'',
      ''}'',
      ''h1 { font-size: 2em; font-weight: bold; }'',
      ''h2 { font-size: 1.5em; font-weight: bold; }'',
      ''h3 { font-size: 1.17em; font-weight: bold; }'',
      ''h4 { font-size: 1em; font-weight: bold; }'',
      ''h5 { font-size: 0.83em; font-weight: bold; }'',
      ''h6 { font-size: 0.67em; font-weight: bold; }''])"

definition ua_stylesheet :: "css_panic + css_rule list" where
  "ua_stylesheet = parse UA_STYLESHEET_SOURCE"

end
