(* ===== verification/Css_Lexing.thy ===== *)
theory Css_Lexing
  imports Css_Tokenizer
begin

text \<open>
  A grammar of CSS text, independent of the tokenizer's control flow, and the proof that
  \<open>tokenize\<close> finds the tokens the grammar gives. \<open>spells tok w r\<close> says that the characters
  \<open>w\<close> are a token \<open>tok\<close> when \<open>r\<close> follows; \<open>lexes s toks\<close> splits a whole text into tokens, with
  comments dropped and every run of blanks one \<open>Whitespace\<close>.
\<close>

section \<open>The grammar\<close>

abbreviation fst_char :: "rstring \<Rightarrow> scalar option" where
  "fst_char \<equiv> hd_opt None"

definition ends_name :: "rstring \<Rightarrow> bool" where
  "ends_name r \<longleftrightarrow> \<not> next_is is_ident_continue (fst_char r)"

definition name_start :: "rstring \<Rightarrow> bool" where
  "name_start w =
     (case w of
        [] \<Rightarrow> False
      | c # cs \<Rightarrow>
          \<not> is_whitespace c \<and> is_ident_start c \<and>
          (c = ch CHR ''-'' \<longrightarrow> next_is is_ident_start (fst_char cs)))"

definition escape :: "scalar \<Rightarrow> rstring \<Rightarrow> rstring" where
  "escape q s =
     concat (map (\<lambda>c. if c = q \<or> c = ch CHR 0x5C then [ch CHR 0x5C, c] else [c]) s)"

text \<open>A number: sign \<open>sg\<close>, integer digits \<open>ds\<close>, and the fraction \<open>fr\<close> with its point.\<close>

definition numeral_text :: "rstring \<Rightarrow> rstring \<Rightarrow> rstring \<Rightarrow> bool" where
  "numeral_text sg ds fr \<longleftrightarrow>
     sg \<in> {[], [ch CHR ''+''], [ch CHR ''-'']} \<and>
     (\<forall>c\<in>set ds. is_ascii_digit c) \<and> (ds \<noteq> [] \<or> fr \<noteq> []) \<and>
     (case fr of
        [] \<Rightarrow> True
      | p # fs \<Rightarrow> p = ch CHR ''.'' \<and> fs \<noteq> [] \<and> (\<forall>c\<in>set fs. is_ascii_digit c))"

definition ends_number :: "rstring \<Rightarrow> rstring \<Rightarrow> bool" where
  "ends_number fr r \<longleftrightarrow>
     \<not> next_is is_ascii_digit (fst_char r) \<and>
     (fr = [] \<and> fst_char r = Some (ch CHR ''.'') \<longrightarrow> \<not> next_is is_ascii_digit (fst_char (tl r)))"

definition punctuation :: "(scalar \<times> css_token) list" where
  "punctuation =
     [(ch CHR '':'', Colon), (ch CHR '';'', Semicolon), (ch CHR '','', Comma),
      (ch CHR ''{'', LeftBrace), (ch CHR ''}'', RightBrace), (ch CHR ''('', LeftParen),
      (ch CHR '')'', RightParen), (ch CHR ''['', LeftBracket), (ch CHR '']'', RightBracket)]"

definition is_delim :: "scalar \<Rightarrow> rstring \<Rightarrow> bool" where
  "is_delim c r \<longleftrightarrow>
     \<not> is_whitespace c \<and> \<not> is_ascii_digit c \<and> c \<notin> fst ` set punctuation \<and>
     c \<notin> {ch CHR 0x22, ch CHR 0x27, ch CHR ''#'', ch CHR ''@''} \<and>
     (is_ident_start c \<longrightarrow> c = ch CHR ''-'') \<and>
     (c = ch CHR ''/'' \<longrightarrow> fst_char r \<noteq> Some (ch CHR ''*'')) \<and>
     (c = ch CHR ''.'' \<longrightarrow> \<not> next_is is_ascii_digit (fst_char r)) \<and>
     (c = ch CHR ''+'' \<or> c = ch CHR ''-'' \<longrightarrow>
        \<not> next_is (\<lambda>d. is_ascii_digit d \<or> d = ch CHR ''.'') (fst_char r)) \<and>
     (c = ch CHR ''-'' \<longrightarrow> \<not> next_is is_ident_start (fst_char r))"

inductive spells :: "css_token \<Rightarrow> rstring \<Rightarrow> rstring \<Rightarrow> bool" where
  ident: "name_start w \<Longrightarrow> list_all is_ident_continue w \<Longrightarrow> ends_name r \<Longrightarrow> spells (Ident w) w r"
| hash: "list_all is_ident_continue w \<Longrightarrow> ends_name r \<Longrightarrow> spells (Hash w) (ch CHR ''#'' # w) r"
| at: "list_all is_ident_continue w \<Longrightarrow> ends_name r \<Longrightarrow> spells (AtKeyword w) (ch CHR ''@'' # w) r"
| str: "q \<in> {ch CHR 0x22, ch CHR 0x27} \<Longrightarrow> spells (QuotedString s) (q # escape q s @ [q]) r"
| num: "numeral_text sg ds fr \<Longrightarrow> parse_f64 (sg @ ds @ fr) = Some v \<Longrightarrow> ends_number fr r \<Longrightarrow>
    fst_char r \<noteq> Some (ch CHR ''%'') \<Longrightarrow> \<not> next_is is_ident_start (fst_char r) \<Longrightarrow>
    spells (Number v) (sg @ ds @ fr) r"
| percent: "numeral_text sg ds fr \<Longrightarrow> parse_f64 (sg @ ds @ fr) = Some v \<Longrightarrow>
    spells (Percentage v) (sg @ ds @ fr @ [ch CHR ''%'']) r"
| dimension: "numeral_text sg ds fr \<Longrightarrow> parse_f64 (sg @ ds @ fr) = Some v \<Longrightarrow>
    next_is is_ident_start (fst_char u) \<Longrightarrow> list_all is_ident_continue u \<Longrightarrow> ends_name r \<Longrightarrow>
    spells (Dimension v (to_ascii_lowercase u)) (sg @ ds @ fr @ u) r"
| punct: "(c, tok) \<in> set punctuation \<Longrightarrow> spells tok [c] r"
| delim: "is_delim c r \<Longrightarrow> spells (Delim c) [c] r"

inductive_cases spellsE: "spells tok w r"

definition blank_ahead :: "rstring \<Rightarrow> bool" where
  "blank_ahead r \<longleftrightarrow>
     next_is is_whitespace (fst_char r) \<or> take 2 r = chars ''/*''"

text \<open>The text of a comment between its marks does not hold the closing mark.\<close>

fun comment_body :: "rstring \<Rightarrow> bool" where
  "comment_body [] \<longleftrightarrow> True"
| "comment_body (c # s) \<longleftrightarrow>
     \<not> (c = ch CHR ''*'' \<and> fst_char s = Some (ch CHR ''/'')) \<and> comment_body s"

definition comment :: "rstring \<Rightarrow> bool" where
  "comment w \<longleftrightarrow>
     (\<exists>b. w = chars ''/*'' @ b @ chars ''*/'' \<and> comment_body (b @ [ch CHR ''*'']))"

inductive blanks :: "rstring \<Rightarrow> bool" where
  none: "blanks []"
| space: "is_whitespace c \<Longrightarrow> blanks b \<Longrightarrow> blanks (c # b)"
| cmt: "comment w \<Longrightarrow> blanks b \<Longrightarrow> blanks (w @ b)"

inductive lexes :: "rstring \<Rightarrow> css_token list \<Rightarrow> bool" where
  finish: "lexes [] []"
| tok: "spells tok w r \<Longrightarrow> lexes r toks \<Longrightarrow> lexes (w @ r) (tok # toks)"
| blank: "is_whitespace c \<Longrightarrow> blanks b \<Longrightarrow> \<not> blank_ahead r \<Longrightarrow> lexes r toks \<Longrightarrow>
    lexes (c # b @ r) (Whitespace # toks)"
| drop_comment: "comment w \<Longrightarrow> lexes r toks \<Longrightarrow> lexes (w @ r) toks"

section \<open>One token\<close>

lemma takeWhile_stop:
  "list_all P w \<Longrightarrow> \<not> next_is P (fst_char r) \<Longrightarrow> takeWhile P (w @ r) = w"
  by (induction w) (cases r; simp add: next_is_def)+

lemma consume_while_stop:
  assumes "rest t = w @ r" "list_all P w" "\<not> next_is P (fst_char r)"
  shows "consume_while P t s = (s @ w, skip (length w) t)"
  using assms by (simp add: consume_while_eq takeWhile_stop)

lemma skip_blanks_stop:
  assumes "\<not> blank_ahead (rest t)"
  shows "skip_blanks t saw = (saw, t)"
proof (cases "rest t")
  case (Cons c cs)
  moreover have "\<not> (c = ch CHR ''/'' \<and> peek_at t 1 = Some (ch CHR ''*''))"
    using assms Cons by (cases cs) (auto simp: blank_ahead_def peek_at_Some_iff)
  ultimately show ?thesis
    using assms by (subst skip_blanks.simps) (auto simp: blank_ahead_def next_is_def)
qed (simp add: skip_blanks.simps)

lemma consume_string_loop_escape:
  assumes "rest t = escape q s @ q # r" "q \<noteq> ch CHR 0x5C"
  shows "consume_string_loop q t acc = (acc @ s, skip (length (escape q s) + 1) t)"
  using assms
proof (induction s arbitrary: t acc)
  case Nil
  then have "rest t = q # r" by (simp add: escape_def)
  then show ?case by (subst consume_string_loop.simps) (simp add: advance_simps escape_def)
next
  case (Cons c s)
  let ?w = "if c = q \<or> c = ch CHR 0x5C then [ch CHR 0x5C, c] else [c]"
  have e: "escape q (c # s) = ?w @ escape q s" by (simp add: escape_def)
  have "rest (skip (length ?w) t) = escape q s @ q # r" using Cons(2) by (simp add: e)
  note IH = Cons(1) [OF this Cons(3)]
  have "consume_string_loop q t acc = consume_string_loop q (skip (length ?w) t) (acc @ [c])"
  proof (cases "c = q \<or> c = ch CHR 0x5C")
    case True
    then have r: "rest t = ch CHR 0x5C # c # escape q s @ q # r" using Cons(2) by (simp add: e)
    have "advance (snd (advance t)) = (Some c, skip 2 t)"
      using r by (simp add: advance_simps advance_def)
    with r True Cons(3) show ?thesis
      by (subst consume_string_loop.simps) (simp add: numeral_2_eq_2)
  next
    case False
    then have "rest t = c # escape q s @ q # r" using Cons(2) by (simp add: e)
    with False show ?thesis by (subst consume_string_loop.simps) (simp add: advance_simps)
  qed
  with IH show ?case by (auto simp: e)
qed

lemma numeric_text_numeral:
  assumes n: "numeral_text sg ds fr" and r: "rest t = sg @ ds @ fr @ r" and e: "ends_number fr r"
  shows "numeric_text t = (sg @ ds @ fr, skip (length (sg @ ds @ fr)) t)"
proof -
  have digits: "list_all is_ascii_digit ds" using n by (simp add: numeral_text_def list_all_iff)
  have sign: "numeric_sign t = (sg, skip (length sg) t)"
  proof (cases "sg = []")
    case True
    then obtain c cs where "rest t = c # cs" "is_ascii_digit c \<or> c = ch CHR ''.''"
      using n r by (cases ds; cases fr) (auto simp: numeral_text_def)
    with True show ?thesis by (auto simp: numeric_sign_def is_ascii_digit_def)
  next
    case False
    with n r show ?thesis by (auto simp: numeral_text_def numeric_sign_def advance_simps)
  qed
  let ?t1 = "skip (length sg) t" and ?t2 = "skip (length sg + length ds) t"
  have "\<not> next_is is_ascii_digit (fst_char (fr @ r))"
    using n e by (cases fr) (auto simp: numeral_text_def ends_number_def next_is_def is_ascii_digit_def)
  then have ds: "consume_while is_ascii_digit ?t1 sg = (sg @ ds, ?t2)"
    using consume_while_stop [of ?t1 ds "fr @ r"] digits r by simp
  have r2: "rest ?t2 = fr @ r" using r by simp
  have "numeric_fraction ?t2 (sg @ ds) = (sg @ ds @ fr, skip (length fr) ?t2)"
  proof (cases fr)
    case Nil
    then have "\<not> (peek ?t2 = Some (ch CHR ''.'') \<and> next_is is_ascii_digit (peek_at ?t2 1))"
      using e r2 by (cases r; cases "tl r") (auto simp: ends_number_def peek_at_rest next_is_def)
    with Nil show ?thesis by (auto simp: numeric_fraction_def)
  next
    case (Cons p fs)
    with n have p: "p = ch CHR ''.''" "fs \<noteq> []" "list_all is_ascii_digit fs"
      by (auto simp: numeral_text_def list_all_iff)
    then obtain f fs' where "fs = f # fs'" "is_ascii_digit f" by (cases fs) auto
    then have "next_is is_ascii_digit (peek_at ?t2 1)"
      using r2 Cons by (simp add: peek_at_rest next_is_def)
    moreover have "consume_while is_ascii_digit (skip 1 ?t2) acc = (acc @ fs, skip (length fs) (skip 1 ?t2))" for acc
      using p(3) e Cons r by (intro consume_while_stop [of _ _ r]) (auto simp: ends_number_def)
    ultimately show ?thesis
      using Cons p r2 by (simp add: numeric_fraction_def advance_simps)
  qed
  with sign ds show ?thesis by (simp add: numeric_text_def ac_simps)
qed

lemma blank_ahead_Cons:
  "\<not> is_whitespace c \<Longrightarrow> c \<noteq> ch CHR ''/'' \<or> fst_char r \<noteq> Some (ch CHR ''*'') \<Longrightarrow> \<not> blank_ahead (c # r)"
  by (cases r) (auto simp: blank_ahead_def next_is_def)

lemma next_token_Cons:
  assumes "rest t = c # cs" "\<not> blank_ahead (c # cs)"
  shows "next_token t =
    (let single = (\<lambda>tok. (tok, skip 1 t)) in
     if c = ch CHR 0x22 \<or> c = ch CHR 0x27 then consume_string t
     else if c = ch CHR ''#'' then consume_hash t
     else if c = ch CHR ''@'' then consume_at_keyword t
     else if is_ascii_digit c then consume_numeric t
     else if c = ch CHR ''.'' \<and> next_is is_ascii_digit (fst_char cs) then consume_numeric t
     else if c = ch CHR ''+'' \<and> next_is (\<lambda>d. is_ascii_digit d \<or> d = ch CHR ''.'') (fst_char cs)
          then consume_numeric t
     else if c = ch CHR ''-'' \<and> next_is (\<lambda>d. is_ascii_digit d \<or> d = ch CHR ''.'') (fst_char cs)
          then consume_numeric t
     else if c = ch CHR ''-'' \<and> next_is is_ident_start (fst_char cs) then consume_ident_like t
     else if c \<noteq> ch CHR ''-'' \<and> is_ident_start c then consume_ident_like t
     else case map_of punctuation c of Some tok \<Rightarrow> single tok | None \<Rightarrow> single (Delim c))"
proof -
  have at: "peek_at t (Suc 0) = fst_char cs"
    using assms(1) by (cases cs) (simp_all add: peek_at_rest)
  have minus: "starts_ident_after_minus t = next_is is_ident_start (fst_char cs)"
    by (auto simp: starts_ident_after_minus_def at next_is_def is_ident_start_def split: option.splits)
  show ?thesis
    using assms skip_blanks_stop [of t False]
    by (simp add: next_token_def at minus advance_simps punctuation_def Let_def)
qed

lemma is_ident_start_not:
  assumes "is_ident_start c"
  shows "\<not> is_ascii_digit c"
    "c \<notin> {ch CHR 0x22, ch CHR 0x27, ch CHR ''#'', ch CHR ''@'', ch CHR ''.'', ch CHR ''+'',
       ch CHR ''/'', ch CHR ''%''}"
  using assms by (auto simp: is_ident_start_def char_class_defs)

lemma next_token_number_start:
  assumes n: "numeral_text sg ds fr" and r: "rest t = sg @ ds @ fr @ r"
  shows "next_token t = consume_numeric t"
proof -
  obtain c cs where c: "rest t = c # cs" using n r
    by (cases sg; cases ds; cases fr) (auto simp: numeral_text_def)
  have first: "is_ascii_digit c \<or> c = ch CHR ''.'' \<and> next_is is_ascii_digit (fst_char cs) \<or>
      (c = ch CHR ''+'' \<or> c = ch CHR ''-'') \<and>
        next_is (\<lambda>d. is_ascii_digit d \<or> d = ch CHR ''.'') (fst_char cs)"
  proof (cases "sg = []")
    case True
    with n r c show ?thesis
      by (cases ds; cases fr; cases "tl fr") (auto simp: numeral_text_def next_is_def)
  next
    case False
    with n r c show ?thesis
      by (cases ds; cases fr) (auto simp: numeral_text_def next_is_def)
  qed
  then have "\<not> blank_ahead (c # cs)"
    by (intro blank_ahead_Cons) (auto simp: is_ascii_digit_def is_whitespace_def)
  from next_token_Cons [OF c this] first show ?thesis
    by (auto simp: is_ascii_digit_def)
qed

text \<open>The tokenizer reads exactly the characters that spell the next token.\<close>

lemma next_token_spells:
  assumes "spells tok w r" "rest t = w @ r"
  shows "next_token t = (tok, skip (length w) t)"
  using assms
proof (induction rule: spells.induct)
  case (ident w r)
  then obtain c cs where w: "w = c # cs" by (cases w) (auto simp: name_start_def)
  have c: "\<not> is_whitespace c" "is_ident_start c" "c = ch CHR ''-'' \<Longrightarrow> next_is is_ident_start (fst_char cs)"
    using ident(1) by (auto simp: w name_start_def)
  then have nb: "\<not> blank_ahead (c # cs @ r)"
    using is_ident_start_not(2) [OF c(2)] by (intro blank_ahead_Cons) auto
  have "consume_ident_like t = (Ident w, skip (length w) t)"
    using ident consume_while_stop [of t w r is_ident_continue "[]"]
    by (simp add: consume_ident_like_def ends_name_def)
  moreover have "next_token t = consume_ident_like t"
  proof (cases "c = ch CHR ''-''")
    case True
    then obtain d ds where d: "cs = d # ds" "is_ident_start d"
      using c(3) by (cases cs) (auto simp: next_is_def)
    have "\<not> is_ascii_digit c" using True by (simp add: is_ascii_digit_def)
    with True nb ident(4) d is_ident_start_not [OF d(2)] next_token_Cons [of t c "cs @ r"]
    show ?thesis by (simp add: w next_is_def)
  next
    case False
    with nb ident(4) c(2) is_ident_start_not [OF c(2)] next_token_Cons [of t c "cs @ r"]
    show ?thesis by (simp add: w)
  qed
  ultimately show ?case by simp
next
  case (hash w r)
  have "\<not> blank_ahead (rest t)" using hash(3) by (auto simp: blank_ahead_Cons is_whitespace_def)
  then show ?case
    using hash next_token_Cons [of t _ "w @ r"]
      consume_while_stop [of "skip 1 t" w r is_ident_continue "[]"]
    by (simp add: consume_hash_def ends_name_def advance_simps)
next
  case (at w r)
  have "\<not> blank_ahead (rest t)" using at(3) by (auto simp: blank_ahead_Cons is_whitespace_def)
  then show ?case
    using at next_token_Cons [of t _ "w @ r"]
      consume_while_stop [of "skip 1 t" w r is_ident_continue "[]"]
    by (simp add: consume_at_keyword_def ends_name_def advance_simps)
next
  case (str q s r)
  have "\<not> blank_ahead (rest t)" using str by (auto simp: blank_ahead_Cons is_whitespace_def)
  then show ?case
    using str next_token_Cons [of t q] consume_string_loop_escape [of "skip 1 t" q s r "[]"]
    by (auto simp: consume_string_def advance_simps)
next
  case (num sg ds fr v r)
  have r: "rest t = sg @ ds @ fr @ r" using num by simp
  have "rest (skip (length (sg @ ds @ fr)) t) = r" using r by simp
  then have p: "peek (skip (length (sg @ ds @ fr)) t) = fst_char r"
    by (cases r) auto
  show ?case
    using next_token_number_start [OF num(1) r] numeric_text_numeral [OF num(1) r num(3)] num p
    by (simp add: consume_numeric_def)
next
  case (percent sg ds fr v r)
  have r: "rest t = sg @ ds @ fr @ ch CHR ''%'' # r" using percent by simp
  have e: "ends_number fr (ch CHR ''%'' # r)"
    by (simp add: ends_number_def next_is_def is_ascii_digit_def)
  have r1: "rest (skip (length (sg @ ds @ fr)) t) = ch CHR ''%'' # r" using r by simp
  show ?case
    using next_token_number_start [OF percent(1) r] numeric_text_numeral [OF percent(1) r e]
      percent r1 advance_simps(2) [OF r1]
    by (simp add: consume_numeric_def ac_simps)
next
  case (dimension sg ds fr v u r)
  have r: "rest t = sg @ ds @ fr @ u @ r" using dimension by simp
  obtain c cs where u: "u = c # cs" "is_ident_start c"
    using dimension(3) by (cases u) (auto simp: next_is_def)
  then have e: "ends_number fr (u @ r)"
    using is_ident_start_not [OF u(2)] by (auto simp: ends_number_def next_is_def)
  let ?t1 = "skip (length (sg @ ds @ fr)) t"
  have r1: "rest ?t1 = u @ r" using r by simp
  then have p: "peek ?t1 = Some c" using u by simp
  have pc: "c \<noteq> ch CHR ''%''" using is_ident_start_not(2) [OF u(2)] by auto
  show ?case
    using next_token_number_start [OF dimension(1) r] numeric_text_numeral [OF dimension(1) r e]
      consume_while_stop [OF r1 dimension(4)] dimension(2,5) p pc u
    by (simp add: consume_numeric_def ends_name_def next_is_def ac_simps)
next
  case (punct c tok r)
  then have "\<not> blank_ahead (c # r)"
    by (intro blank_ahead_Cons) (auto simp: punctuation_def is_whitespace_def)
  with punct next_token_Cons [of t c r] show ?case
    by (auto simp: punctuation_def is_ident_start_def char_class_defs)
next
  case (delim c r)
  then have "\<not> blank_ahead (c # r)"
    by (intro blank_ahead_Cons) (auto simp: is_delim_def)
  moreover have "map_of punctuation c = None"
    using delim by (simp add: is_delim_def map_of_eq_None_iff)
  ultimately show ?case
    using delim next_token_Cons [of t c r] by (auto simp: is_delim_def)
qed

section \<open>Blanks and comments\<close>

lemma skip_comment_loop_body:
  assumes "rest t = b @ chars ''*/'' @ r" "comment_body (b @ [ch CHR ''*''])"
  shows "skip_comment_loop t = skip (length b) t"
  using assms
proof (induction b arbitrary: t)
  case Nil
  then show ?case by (subst skip_comment_loop.simps) (simp add: peek_at_rest)
next
  case (Cons c b)
  have "\<not> (peek t = Some (ch CHR ''*'') \<and> peek_at t 1 = Some (ch CHR ''/''))"
    using Cons(2,3) by (cases b) (auto simp: peek_at_rest)
  then have "skip_comment_loop t = skip_comment_loop (skip 1 t)"
    using Cons(2) by (subst skip_comment_loop.simps) (auto simp: advance_simps)
  also have "\<dots> = skip (length (c # b)) t"
    using Cons(1) [of "skip 1 t"] Cons(2,3) by simp
  finally show ?case .
qed

lemma skip_comment_comment:
  assumes "rest t = w @ r" "comment w"
  shows "skip_comment t = skip (length w) t"
proof -
  from assms(2) obtain b where w: "w = chars ''/*'' @ b @ chars ''*/''"
    and b: "comment_body (b @ [ch CHR ''*''])"
    unfolding comment_def by blast
  have "skip_comment_loop (skip 2 t) = skip (length b) (skip 2 t)"
    using skip_comment_loop_body [of "skip 2 t" b r] assms(1) b by (simp add: w)
  then show ?thesis using assms(1) by (simp add: skip_comment_def Let_def w peek_eq_iff ac_simps)
qed

lemma comment_blanks_step:
  assumes "rest t = w @ r" "comment w"
  shows "skip_blanks t saw = skip_blanks (skip (length w) t) saw"
proof -
  from assms obtain v where v: "rest t = ch CHR ''/'' # ch CHR ''*'' # v" by (auto simp: comment_def)
  then show ?thesis
    by (subst skip_blanks.simps)
       (simp add: skip_comment_comment [OF assms] peek_at_rest is_whitespace_def)
qed

lemma skip_blanks_blanks:
  assumes "blanks b" "rest t = b @ r" "\<not> blank_ahead r"
  shows "skip_blanks t True = (True, skip (length b) t)"
  using assms
proof (induction b arbitrary: t rule: blanks.induct)
  case none
  then show ?case by (simp add: skip_blanks_stop)
next
  case (space c b)
  then have "skip_blanks t True = skip_blanks (skip 1 t) True"
    by (subst skip_blanks.simps) (simp add: advance_simps)
  with space show ?case by simp
next
  case (cmt w b)
  then have "skip_blanks t True = skip_blanks (skip (length w) t) True"
    by (intro comment_blanks_step) auto
  with cmt show ?case by simp
qed

section \<open>Whole texts\<close>

lemma tokenize_loop_Cons:
  "next_token t = (tok, t') \<Longrightarrow> tok \<noteq> Eof \<Longrightarrow> tokenize_loop t = tok # tokenize_loop t'"
  by (simp add: tokenize_loop.simps [of t])

lemma spells_not_Eof: "spells tok w r \<Longrightarrow> tok \<noteq> Eof"
  by (induction rule: spells.induct) (auto simp: punctuation_def)

lemma tokenize_loop_lexes: "lexes s toks \<Longrightarrow> rest t = s \<Longrightarrow> tokenize_loop t = toks"
proof (induction arbitrary: t rule: lexes.induct)
  case finish
  then have "next_token t = (Eof, t)"
    using skip_blanks_stop [of t False]
    by (simp add: next_token_def blank_ahead_def next_is_def)
  then show ?case by (simp add: tokenize_loop.simps [of t])
next
  case (tok tok w r toks)
  with tokenize_loop_Cons [OF next_token_spells [OF tok(1,4)]] show ?case
    by (simp add: spells_not_Eof)
next
  case (blank c b r toks)
  then have "skip_blanks t False = skip_blanks (skip 1 t) True"
    by (subst skip_blanks.simps) (simp add: advance_simps)
  also have "\<dots> = (True, skip (length b) (skip 1 t))"
    using blank by (intro skip_blanks_blanks [of _ _ r]) auto
  finally have "next_token t = (Whitespace, skip (length b) (skip 1 t))"
    by (simp add: next_token_def)
  with blank tokenize_loop_Cons show ?case by simp
next
  case (drop_comment w r toks)
  then have "next_token t = next_token (skip (length w) t)"
    using comment_blanks_step [of t w r False] by (simp add: next_token_def)
  then have "tokenize_loop t = tokenize_loop (skip (length w) t)"
    by (subst (1 2) tokenize_loop.simps) (simp only:)
  with drop_comment show ?case by simp
qed

text \<open>After a run of blanks the next token is not a blank again.\<close>

lemma skip_blanks_exhausts: "\<not> blank_ahead (rest (snd (skip_blanks t saw)))"
proof (induction t saw rule: skip_blanks.induct)
  case (1 t saw)
  show ?case
  proof (cases "rest t")
    case Nil
    then show ?thesis by (subst skip_blanks.simps) (simp add: blank_ahead_def next_is_def)
  next
    case (Cons c cs)
    then have p: "peek t = Some c" by simp
    show ?thesis
    proof (cases "blank_ahead (rest t)")
      case True
      then have "is_whitespace c \<or> c = ch CHR ''/'' \<and> peek_at t 1 = Some (ch CHR ''*'')"
        using Cons by (cases cs) (auto simp: blank_ahead_def next_is_def peek_at_rest)
      then show ?thesis using 1(1,2) [OF p] p by (subst skip_blanks.simps) auto
    qed (simp add: skip_blanks_stop)
  qed
qed

lemma next_token_not_blank:
  assumes "\<not> blank_ahead (rest t)"
  shows "fst (next_token t) \<noteq> Whitespace"
proof (cases "rest t")
  case Nil
  with skip_blanks_stop [OF assms, of False] show ?thesis by (simp add: next_token_def)
next
  case (Cons c cs)
  have "(c, Whitespace) \<notin> set punctuation" for c by (auto simp: punctuation_def)
  with Cons assms show ?thesis
    by (subst next_token_Cons [of t c cs])
       (auto simp: consume_string_def consume_hash_def consume_at_keyword_def consume_numeric_def
          consume_ident_like_def Let_def case_prod_unfold dest: map_of_SomeD split: option.splits)
qed

lemma next_token_Whitespace:
  assumes "next_token t = (Whitespace, t')"
  shows "\<not> blank_ahead (rest t')"
proof -
  obtain saw u where sb: "skip_blanks t False = (saw, u)" by fastforce
  with skip_blanks_exhausts [of t False] have u: "\<not> blank_ahead (rest u)" by simp
  have "saw"
  proof (rule ccontr)
    assume "\<not> saw"
    then have "next_token t = next_token u"
      using sb skip_blanks_stop [OF u, of False] by (simp add: next_token_def)
    with next_token_not_blank [OF u] assms show False by simp
  qed
  with sb assms u show ?thesis by (simp add: next_token_def)
qed

definition single_blanks :: "css_token list \<Rightarrow> bool" where
  "single_blanks = successively (\<lambda>a b. \<not> (a = Whitespace \<and> b = Whitespace))"

lemma tokenize_loop_single_blanks:
  "single_blanks (tokenize_loop t) \<and>
   (\<not> blank_ahead (rest t) \<longrightarrow> hd_opt None (tokenize_loop t) \<noteq> Some Whitespace)"
proof (induction "length (rest t)" arbitrary: t rule: less_induct)
  case less
  obtain tok t' where n: "next_token t = (tok, t')" by fastforce
  show ?case
  proof (cases "tok = Eof")
    case True
    with n show ?thesis by (simp add: tokenize_loop.simps [of t] single_blanks_def)
  next
    case False
    note IH = less [OF css_stream.progress [OF n False]]
    have "tok = Whitespace \<Longrightarrow> hd_opt None (tokenize_loop t') \<noteq> Some Whitespace"
      using next_token_Whitespace n IH by blast
    then have "single_blanks (tok # tokenize_loop t')"
      using IH by (cases "tokenize_loop t'") (auto simp: single_blanks_def)
    with next_token_not_blank [of t] n show ?thesis
      by (auto simp: tokenize_loop_Cons [OF n False])
  qed
qed

section \<open>Properties\<close>

text \<open>
  C13. Any text that the grammar splits into tokens (names, hashes, strings with escapes,
  numbers with sign, fraction and unit, punctuation, blanks and comments) is tokenized into
  exactly those tokens.
\<close>

theorem tokenize_lexes:
  assumes "lexes s toks"
  shows "tokenize s = toks"
  using tokenize_loop_lexes [OF assms, of "new_tokenizer s"]
  by (simp add: tokenize_def new_tokenizer_def rest_def)

text \<open>
  C16. On every input, however malformed, \<open>tokenize\<close> returns a list without the end mark,
  with at most one token per character and never two \<open>Whitespace\<close> tokens in a row.
\<close>

theorem tokenize_total:
  "Eof \<notin> set (tokenize s) \<and> length (tokenize s) \<le> length s \<and> single_blanks (tokenize s)"
proof -
  have "css_stream.drains (new_tokenizer s) (tokenize s)"
    by (simp add: tokenize_def tokenize_loop_drains)
  then show ?thesis
    using css_stream.drains_no_eof css_stream.drains_length tokenize_loop_single_blanks
    by (fastforce simp: tokenize_def new_tokenizer_def rest_def)
qed

end
