(* ===== verification/Dom_Tree.thy ===== *)
theory Dom_Tree
  imports Dom "HOL-Library.Multiset"
begin

text \<open>
  Correctness of the DOM operations of theory \<open>Dom\<close>. A document is well formed when its
  links are those of one list of children per node and no node is its own ancestor.
  Every operation keeps this, and its effect is described on the child lists.
\<close>

section \<open>Sibling segments\<close>

text \<open>
  \<open>seg m p prv xs nxt\<close>: the nodes \<open>xs\<close> are, in this order, children of \<open>p\<close> linked both
  ways, the first one preceded by \<open>prv\<close> and the last one followed by \<open>nxt\<close>.
\<close>

fun seg :: "node_table \<Rightarrow> node_id \<Rightarrow> node_id option \<Rightarrow> node_id list \<Rightarrow> node_id option \<Rightarrow> bool" where
  "seg m p prv [] nxt \<longleftrightarrow> True"
| "seg m p prv (x # xs) nxt \<longleftrightarrow>
     (\<exists>r. m x = Some r \<and> r_parent r = Some p \<and> r_prev_sibling r = prv \<and>
          r_next_sibling r = hd_opt nxt xs) \<and>
     seg m p (Some x) xs nxt"

definition links :: "node_record \<Rightarrow> node_id option \<times> node_id option \<times> node_id option" where
  "links r = (r_parent r, r_prev_sibling r, r_next_sibling r)"

lemma seg_append [simp]:
  "seg m p prv (xs @ ys) nxt \<longleftrightarrow>
     seg m p prv xs (hd_opt nxt ys) \<and> seg m p (last_opt prv xs) ys nxt"
  by (induction xs arbitrary: prv) auto

lemma seg_frame [frame]:
  "(\<And>x. x \<in> set xs \<Longrightarrow> map_option links (m x) = map_option links (m' x)) \<Longrightarrow>
   seg m p prv xs nxt = seg m' p prv xs nxt"
proof (induction xs arbitrary: prv)
  case (Cons x xs)
  then have "map_option links (m x) = map_option links (m' x)" by simp
  then have "(\<exists>r. m x = Some r \<and> r_parent r = Some p \<and> r_prev_sibling r = prv \<and>
          r_next_sibling r = hd_opt nxt xs) =
        (\<exists>r. m' x = Some r \<and> r_parent r = Some p \<and> r_prev_sibling r = prv \<and>
          r_next_sibling r = hd_opt nxt xs)"
    by (cases "m x"; cases "m' x") (auto simp: links_def)
  with Cons show ?case by simp
qed simp

lemma seg_upd_outside [simp]:
  "y \<notin> set xs \<Longrightarrow> seg (m(y := v)) p prv xs nxt = seg m p prv xs nxt"
  by (rule seg_frame) auto

lemma seg_memberD:
  "seg m p prv xs nxt \<Longrightarrow> x \<in> set xs \<Longrightarrow> \<exists>r. m x = Some r \<and> r_parent r = Some p"
  by (induction xs arbitrary: prv) auto

section \<open>Well-formed documents\<close>

definition parent_rel :: "node_table \<Rightarrow> (node_id \<times> node_id) set" where
  "parent_rel m = {(c, p). \<exists>r. m c = Some r \<and> r_parent r = Some p}"

text \<open>
  \<open>represents d kids\<close>: the links of the node table are exactly those of the child lists
  \<open>kids\<close>. This is the invariant of the crate and its abstraction relation in one.
\<close>

definition node_ok :: "node_table \<Rightarrow> (node_id \<Rightarrow> node_id list) \<Rightarrow> node_id \<Rightarrow> node_record \<Rightarrow> bool" where
  "node_ok m kids n r \<longleftrightarrow>
     r_first_child r = hd_opt None (kids n) \<and>
     r_last_child r = last_opt None (kids n) \<and>
     (case r_parent r of
        None \<Rightarrow> r_prev_sibling r = None \<and> r_next_sibling r = None
      | Some p \<Rightarrow> m p \<noteq> None \<and> n \<in> set (kids p))"

definition represents :: "document \<Rightarrow> (node_id \<Rightarrow> node_id list) \<Rightarrow> bool" where
  "represents d kids \<longleftrightarrow>
     finite (dom (nodes d)) \<and>
     (\<forall>n\<in>dom (nodes d). unat n < unat (next_node_id d)) \<and>
     acyclic (parent_rel (nodes d)) \<and>
     (\<forall>n. distinct (kids n) \<and> seg (nodes d) n None (kids n) None) \<and>
     (\<forall>n. nodes d n = None \<longrightarrow> kids n = []) \<and>
     (\<forall>n r. nodes d n = Some r \<longrightarrow> node_ok (nodes d) kids n r)"

definition wf_document :: "document \<Rightarrow> bool" where
  "wf_document d \<longleftrightarrow> (\<exists>kids. represents d kids)"

section \<open>Reading the representation\<close>

lemma representsD:
  assumes "represents d kids"
  shows "finite (dom (nodes d))" "acyclic (parent_rel (nodes d))"
    "\<And>n. distinct (kids n)" "\<And>n. seg (nodes d) n None (kids n) None"
    "\<And>n. nodes d n = None \<Longrightarrow> kids n = []"
    "\<And>n r. nodes d n = Some r \<Longrightarrow> node_ok (nodes d) kids n r"
    "\<And>n r. nodes d n = Some r \<Longrightarrow> unat n < unat (next_node_id d)"
  using assms by (auto simp: represents_def dom_def)

lemma kids_memberD:
  assumes "represents d kids" "x \<in> set (kids n)"
  shows "\<exists>r. nodes d x = Some r \<and> r_parent r = Some n"
  using seg_memberD representsD(4) assms by blast

lemma kids_in_dom:
  assumes "represents d kids" "x \<in> set (kids n)"
  shows "nodes d x \<noteq> None" "nodes d n \<noteq> None"
proof -
  show "nodes d x \<noteq> None" using kids_memberD [OF assms] by auto
  show "nodes d n \<noteq> None" using representsD(5) [OF assms(1), of n] assms(2) by force
qed

lemma kids_parent_iff:
  assumes "represents d kids" "nodes d x = Some r"
  shows "x \<in> set (kids n) \<longleftrightarrow> r_parent r = Some n"
  using kids_memberD [OF assms(1), of x n] representsD(6) [OF assms(1,2)] assms(2)
  by (auto simp: node_ok_def split: option.splits)

lemma detached_not_in_kids:
  assumes "represents d kids" "nodes d x = Some r" "r_parent r = None"
  shows "x \<notin> set (kids n)"
  using kids_parent_iff [OF assms(1,2)] assms(3) by simp

lemma not_own_child:
  assumes "represents d kids"
  shows "n \<notin> set (kids n)"
proof
  assume "n \<in> set (kids n)"
  then have "(n, n) \<in> parent_rel (nodes d)"
    using kids_memberD [OF assms] by (auto simp: parent_rel_def)
  then show False
    using representsD(2) [OF assms] by (auto simp: acyclic_def)
qed

lemma create_node_spec:
  assumes R: "represents d kids" and no_wrap: "unat (next_node_id d) + 1 < 2 ^ 64"
    and c: "create_node d dat = (i, d')"
  shows "i = next_node_id d" "nodes d i = None" "nodes d' = (nodes d)(i \<mapsto> fresh_record dat)"
    "next_node_id d' = next_node_id d + 1" "doc_root d' = doc_root d"
    "represents d' kids"
proof -
  from c show i: "i = next_node_id d" and m: "nodes d' = (nodes d)(i \<mapsto> fresh_record dat)"
    and nx: "next_node_id d' = next_node_id d + 1" and "doc_root d' = doc_root d"
    by (auto simp: create_node_def allocate_def next_node_id_def)
  show new: "nodes d i = None"
    using representsD(7) [OF R, of i] i by (cases "nodes d i") auto
  have nx': "unat (next_node_id d') = unat (next_node_id d) + 1"
    using nx no_wrap by (simp add: unat_plus_1_no_wrap)
  have outside: "i \<notin> set (kids n)" for n
    using kids_in_dom(1) [OF R] new by blast
  have rel: "parent_rel (nodes d') = parent_rel (nodes d)"
    using new by (auto simp: m parent_rel_def fresh_record_def split: if_splits)
  have "node_ok (nodes d') kids n r" if "nodes d' n = Some r" for n r
  proof (cases "n = i")
    case True
    with that representsD(5) [OF R new] show ?thesis
      by (auto simp: m node_ok_def fresh_record_def)
  next
    case False
    with that have "node_ok (nodes d) kids n r" using representsD(6) [OF R] by (simp add: m)
    then show ?thesis by (auto simp: m node_ok_def split: option.splits)
  qed
  moreover have "unat n < unat (next_node_id d')" if "n \<in> dom (nodes d')" for n
    using that representsD(7) [OF R, of n] nx' i by (fastforce simp: m split: if_splits)
  moreover have "nodes d' n = None \<longrightarrow> kids n = []" for n
    using representsD(5) [OF R, of n] by (simp add: m)
  moreover have "finite (dom (nodes d'))" using representsD(1) [OF R] by (simp add: m)
  moreover have "seg (nodes d') n None (kids n) None" for n
    using representsD(4) [OF R] outside by (simp add: m)
  ultimately show "represents d' kids"
    unfolding represents_def using representsD(2,3) [OF R] rel by auto
qed


definition ends :: "node_record \<Rightarrow> node_id option \<times> node_id option" where
  "ends r = (r_first_child r, r_last_child r)"

lemma ends_simps [simp]:
  "ends (r\<lparr>r_next_sibling := a\<rparr>) = ends r"
  "ends (r\<lparr>r_prev_sibling := a\<rparr>) = ends r"
  "ends (r\<lparr>r_parent := a\<rparr>) = ends r"
  "ends (r\<lparr>r_data := b\<rparr>) = ends r"
  "ends (r\<lparr>r_first_child := f, r_last_child := l\<rparr>) = (f, l)"
  by (simp_all add: ends_def)

lemma represents_update:
  assumes R: "represents d kids"
    and dom: "dom m' = dom (nodes d)"
    and links: "\<And>x. x \<notin> A \<Longrightarrow> map_option links (m' x) = map_option links (nodes d x)"
    and ends: "\<And>x. x \<noteq> par \<Longrightarrow> map_option ends (m' x) = map_option ends (nodes d x)"
    and A: "\<And>x n. x \<in> A \<Longrightarrow> n \<noteq> par \<Longrightarrow> x \<notin> set (kids n)"
    and par: "map_option ends (m' par) = Some (hd_opt None ks, last_opt None ks)"
    and ks: "distinct ks" "seg m' par None ks None"
    and inA: "\<And>x r. x \<in> A \<Longrightarrow> m' x = Some r \<Longrightarrow>
       (if x \<in> set ks then r_parent r = Some par else links r = (None, None, None))"
    and keep: "set (kids par) - A \<subseteq> set ks"
    and acyc: "acyclic (parent_rel m')"
  shows "represents (d\<lparr>nodes := m'\<rparr>) (kids(par := ks))"
proof -
  have "node_ok m' (kids(par := ks)) n r" if n: "m' n = Some r" for n r
  proof -
    from n dom obtain r0 where r0: "nodes d n = Some r0" by blast
    have ok: "node_ok (nodes d) kids n r0" using representsD(6) [OF R r0] .
    have e: "ends r = (hd_opt None ((kids(par := ks)) n), last_opt None ((kids(par := ks)) n))"
      using par ends [of n] n r0 ok by (cases "n = par") (auto simp: ends_def node_ok_def)
    have l: "case r_parent r of
        None \<Rightarrow> r_prev_sibling r = None \<and> r_next_sibling r = None
      | Some p \<Rightarrow> m' p \<noteq> None \<and> n \<in> set ((kids(par := ks)) p)"
    proof (cases "n \<in> A")
      case True
      have "m' par \<noteq> None" using par by auto
      with inA [OF True n] show ?thesis
        by (auto simp: links_def split: if_splits option.splits)
    next
      case False
      with links [OF this] n r0 have l: "links r = links r0" by simp
      show ?thesis
      proof (cases "r_parent r0")
        case None
        with ok l show ?thesis by (auto simp: links_def node_ok_def)
      next
        case (Some p)
        with ok have "nodes d p \<noteq> None" "n \<in> set (kids p)" by (auto simp: node_ok_def)
        moreover from this have "m' p \<noteq> None" using dom by blast
        ultimately show ?thesis using l Some keep False by (auto simp: links_def)
      qed
    qed
    from e l show ?thesis by (simp add: node_ok_def ends_def)
  qed
  moreover have "seg m' n None ((kids(par := ks)) n) None" for n
  proof (cases "n = par")
    case True
    with ks show ?thesis by simp
  next
    case False
    have "seg m' n None (kids n) None = seg (nodes d) n None (kids n) None"
      using False A links by (intro seg_frame) blast
    with False representsD(4) [OF R] show ?thesis by simp
  qed
  moreover have "(kids(par := ks)) n = []" if "m' n = None" for n
    using that representsD(5) [OF R, of n] dom par by (cases "n = par") auto
  moreover have "finite (dom m')" "\<forall>n\<in>dom m'. unat n < unat (next_node_id d)"
    using R dom by (auto simp: represents_def)
  ultimately show ?thesis
    using acyc ks(1) representsD(3) [OF R] by (simp add: represents_def next_node_id_def)
qed

lemma parent_rel_attach:
  assumes "\<And>x. x \<noteq> chd \<Longrightarrow> map_option r_parent (m' x) = map_option r_parent (m x)"
    and "map_option r_parent (m' chd) = Some (Some par)"
    and "map_option r_parent (m chd) = Some None"
  shows "parent_rel m' = insert (chd, par) (parent_rel m)"
proof -
  have "(x, y) \<in> parent_rel m' \<longleftrightarrow> (x, y) \<in> insert (chd, par) (parent_rel m)" for x y
    using assms(1) [of x] assms(2,3)
    by (cases "x = chd"; cases "m' x"; cases "m x") (auto simp: parent_rel_def)
  then show ?thesis by auto
qed

lemma attach_acyclic:
  assumes R: "represents d kids"
    and "\<And>x. x \<noteq> chd \<Longrightarrow> map_option r_parent (m' x) = map_option r_parent (nodes d x)"
    and "map_option r_parent (m' chd) = Some (Some par)"
    and "nodes d chd = Some c" "r_parent c = None"
    and "(par, chd) \<notin> (parent_rel (nodes d))\<^sup>*"
  shows "acyclic (parent_rel m')"
  using parent_rel_attach [of chd m' "nodes d" par] assms representsD(2) [OF R]
  by (simp add: acyclic_insert)


lemma seg_new_next:
  assumes "seg m p prv xs nxt" "distinct xs"
    and "\<And>x. x \<in> set xs \<Longrightarrow> map_option links (m' x) =
           map_option (if last_opt None xs = Some x then (\<lambda>r. links (r\<lparr>r_next_sibling := nxt'\<rparr>)) else links) (m x)"
  shows "seg m' p prv xs nxt'"
proof (cases xs rule: rev_cases)
  case (snoc ys z)
  have z: "map_option links (m' z) = map_option (\<lambda>r. links (r\<lparr>r_next_sibling := nxt'\<rparr>)) (m z)"
    using assms(3) [of z] snoc by simp
  have "map_option links (m' x) = map_option links (m x)" if "x \<in> set ys" for x
    using assms(2) assms(3) [of x] that snoc by (auto split: if_splits)
  then have "seg m' p prv ys (Some z) = seg m p prv ys (Some z)" by (rule seg_frame)
  with assms(1) z snoc show ?thesis by (auto simp: links_def)
qed simp

lemma seg_new_prev:
  assumes "seg m p prv xs nxt" "distinct xs"
    and "\<And>x. x \<in> set xs \<Longrightarrow> map_option links (m' x) =
           map_option (if hd_opt None xs = Some x then (\<lambda>r. links (r\<lparr>r_prev_sibling := prv'\<rparr>)) else links) (m x)"
  shows "seg m' p prv' xs nxt"
proof (cases xs)
  case (Cons z ys)
  have z: "map_option links (m' z) = map_option (\<lambda>r. links (r\<lparr>r_prev_sibling := prv'\<rparr>)) (m z)"
    using assms(3) [of z] Cons by simp
  have "map_option links (m' x) = map_option links (m x)" if "x \<in> set ys" for x
    using assms(2) assms(3) [of x] that Cons by (auto split: if_splits)
  then have "seg m' p (Some z) ys nxt = seg m p (Some z) ys nxt" by (rule seg_frame)
  with assms(1) z Cons show ?thesis by (auto simp: links_def)
qed simp

text \<open>
  Where the records beside a gap between \<open>xs\<close> and \<open>ys\<close> are changed: the last of \<open>xs\<close>
  gets the next sibling \<open>nxt\<close>, the first of \<open>ys\<close> the previous sibling \<open>prv\<close>.
\<close>

definition relink ::
  "node_id list \<Rightarrow> node_id list \<Rightarrow> node_id option \<Rightarrow> node_id option \<Rightarrow> node_id \<Rightarrow>
   node_record \<Rightarrow> node_id option \<times> node_id option \<times> node_id option" where
  "relink xs ys nxt prv x =
     (if last_opt None xs = Some x then (\<lambda>r. links (r\<lparr>r_next_sibling := nxt\<rparr>))
      else if hd_opt None ys = Some x then (\<lambda>r. links (r\<lparr>r_prev_sibling := prv\<rparr>))
      else links)"

lemma relink_parent: "fst (relink xs ys nxt prv x r) = r_parent r"
  by (simp add: relink_def links_def)

lemma relink_outside: "x \<notin> set xs \<Longrightarrow> x \<notin> set ys \<Longrightarrow> relink xs ys nxt prv x = links"
  using last_opt_Some_in [of xs x] hd_opt_Some_in [of ys x] by (auto simp: relink_def)

lemma seg_gap:
  assumes "seg m p None (xs @ zs @ ys) None" "distinct (xs @ zs @ ys)"
    and "\<And>x. x \<in> set xs \<union> set ys \<Longrightarrow>
           map_option links (m' x) = map_option (relink xs ys nxt prv x) (m x)"
  shows "seg m' p None xs nxt" "seg m' p prv ys None"
proof -
  show "seg m' p None xs nxt"
    by (rule seg_new_next [of m _ _ _ "hd_opt None (zs @ ys)"])
      (use assms hd_opt_Some_in [of ys] in \<open>auto simp: relink_def\<close>)
  show "seg m' p prv ys None"
    by (rule seg_new_prev [of m _ "last_opt None (xs @ zs)"])
      (use assms last_opt_Some_in [of xs] in \<open>auto simp: relink_def\<close>)
qed

lemma represents_insert:
  assumes R: "represents d kids"
    and c: "nodes d chd = Some c" "r_parent c = None"
    and ks: "kids par = xs @ ys"
    and anc: "(par, chd) \<notin> (parent_rel (nodes d))\<^sup>*"
    and dom: "dom m' = dom (nodes d)"
    and chd: "map_option links (m' chd) = Some (Some par, last_opt None xs, hd_opt None ys)"
    and other: "\<And>x. x \<noteq> chd \<Longrightarrow> map_option links (m' x) =
           map_option (relink xs ys (Some chd) (Some chd) x) (nodes d x)"
    and ends: "\<And>x. x \<noteq> par \<Longrightarrow> map_option ends (m' x) = map_option ends (nodes d x)"
      "map_option ends (m' par) = Some (hd_opt (Some chd) xs, last_opt (Some chd) ys)"
  shows "represents (d\<lparr>nodes := m'\<rparr>) (kids(par := xs @ chd # ys))"
proof (rule represents_update [OF R dom, where A = "insert chd (set (xs @ ys))"])
  note cout = detached_not_in_kids [OF R c]
  have dist: "distinct (xs @ chd # ys)"
    using representsD(3) [OF R, of par] cout [of par] ks by auto
  then show "distinct (xs @ chd # ys)" .
  have par_of: "map_option r_parent (m' x) = map_option r_parent (nodes d x)" if "x \<noteq> chd" for x
  proof -
    have "map_option fst (map_option links (m' x)) =
        map_option fst (map_option (relink xs ys (Some chd) (Some chd) x) (nodes d x))"
      using other [OF that] by simp
    then show ?thesis by (cases "m' x"; cases "nodes d x") (auto simp: relink_parent links_def)
  qed
  have "map_option r_parent (m' chd) = Some (Some par)"
    using chd by (auto simp: links_def)
  with par_of show "acyclic (parent_rel m')"
    by (rule attach_acyclic [OF R _ _ c anc])
  have "seg m' par None xs (Some chd)" "seg m' par (Some chd) ys None"
    using seg_gap [of "nodes d" par xs "[]" ys m' "Some chd" "Some chd"]
      representsD(3,4) [OF R, of par] ks other dist by force+
  then show "seg m' par None (xs @ chd # ys) None"
    using chd by (auto simp: links_def)
  show "if x \<in> set (xs @ chd # ys) then r_parent r = Some par else links r = (None, None, None)"
    if "x \<in> insert chd (set (xs @ ys))" "m' x = Some r" for x r
    using that par_of [of x] chd kids_memberD [OF R, of x par] ks
    by (cases "x = chd") (auto simp: links_def)
  show "x \<notin> set (kids n)" if "x \<in> insert chd (set (xs @ ys))" "n \<noteq> par" for x n
    using that cout kids_memberD [OF R, of x par] kids_memberD [OF R, of x n] ks by auto
  show "map_option links (m' x) = map_option links (nodes d x)"
    if "x \<notin> insert chd (set (xs @ ys))" for x
    using other [of x] that relink_outside [of x xs ys] by simp
qed (use ends ks in auto)


lemma represents_remove:
  assumes R: "represents d kids"
    and ks: "kids par = xs @ i # ys"
    and dom: "dom m' = dom (nodes d)"
    and i: "map_option links (m' i) = Some (None, None, None)"
    and other: "\<And>x. x \<noteq> i \<Longrightarrow> map_option links (m' x) =
           map_option (relink xs ys (hd_opt None ys) (last_opt None xs) x) (nodes d x)"
    and ends: "\<And>x. x \<noteq> par \<Longrightarrow> map_option ends (m' x) = map_option ends (nodes d x)"
      "map_option ends (m' par) = Some (hd_opt None (xs @ ys), last_opt None (xs @ ys))"
  shows "represents (d\<lparr>nodes := m'\<rparr>) (kids(par := xs @ ys))"
proof (rule represents_update [OF R dom, where A = "insert i (set (xs @ ys))"])
  have dist: "distinct (xs @ [i] @ ys)"
    using representsD(3) [OF R, of par] ks by auto
  then show "distinct (xs @ ys)" by auto
  have par_of: "map_option r_parent (m' x) = map_option r_parent (nodes d x)" if "x \<noteq> i" for x
  proof -
    have "map_option fst (map_option links (m' x)) =
        map_option fst (map_option (relink xs ys (hd_opt None ys) (last_opt None xs) x) (nodes d x))"
      using other [OF that] by simp
    then show ?thesis by (cases "m' x"; cases "nodes d x") (auto simp: relink_parent links_def)
  qed
  have "(x, y) \<in> parent_rel (nodes d)" if "(x, y) \<in> parent_rel m'" for x y
    using that par_of [of x] i
    by (cases "x = i"; cases "nodes d x") (auto simp: parent_rel_def links_def)
  then show "acyclic (parent_rel m')"
    using representsD(2) [OF R] by (auto intro: acyclic_subset)
  have "seg m' par None xs (hd_opt None ys)" "seg m' par (last_opt None xs) ys None"
    using seg_gap [of "nodes d" par xs "[i]" ys m' "hd_opt None ys" "last_opt None xs"]
      representsD(4) [OF R, of par] ks other dist by force+
  then show "seg m' par None (xs @ ys) None" by simp
  show "if x \<in> set (xs @ ys) then r_parent r = Some par else links r = (None, None, None)"
    if "x \<in> insert i (set (xs @ ys))" "m' x = Some r" for x r
    using that par_of [of x] i dist kids_memberD [OF R, of x par] ks by (cases "x = i") auto
  show "x \<notin> set (kids n)" if "x \<in> insert i (set (xs @ ys))" "n \<noteq> par" for x n
    using that kids_memberD [OF R, of x par] kids_memberD [OF R, of x n] ks by auto
  show "map_option links (m' x) = map_option links (nodes d x)"
    if "x \<notin> insert i (set (xs @ ys))" for x
    using other [of x] that relink_outside [of x xs ys] by simp
qed (use ends ks in auto)

definition same_content :: "document \<Rightarrow> document \<Rightarrow> bool" where
  "same_content d d' \<longleftrightarrow>
     (\<forall>x. map_option r_data (nodes d' x) = map_option r_data (nodes d x)) \<and>
     allocator d' = allocator d \<and> doc_root d' = doc_root d"

lemma append_child_spec:
  assumes R: "represents d kids"
    and c: "nodes d chd = Some c" "r_parent c = None"
    and p: "nodes d par = Some p"
    and anc: "(par, chd) \<notin> (parent_rel (nodes d))\<^sup>*"
  shows "\<exists>d'. append_child d par chd = Inr d' \<and>
     represents d' (kids(par := kids par @ [chd])) \<and> same_content d d'"
proof -
  have ne: "par \<noteq> chd" using anc by auto
  have cn: "r_next_sibling c = None"
    using representsD(6) [OF R c(1)] c(2) by (auto simp: node_ok_def)
  have pe: "r_last_child p = last_opt None (kids par)" "r_first_child p = hd_opt None (kids par)"
    using representsD(6) [OF R p] by (auto simp: node_ok_def)
  note out = detached_not_in_kids [OF R c, of par] not_own_child [OF R, of par]
  let ?c = "c\<lparr>r_parent := Some par, r_prev_sibling := last_opt None (kids par)\<rparr>"
  obtain m' where m': "append_child d par chd = Inr (d\<lparr>nodes := m'\<rparr>)"
    "\<And>x. m' x = (if x = par then Some (p\<lparr>r_first_child := hd_opt (Some chd) (kids par), r_last_child := Some chd\<rparr>)
       else if x = chd then Some ?c
       else if last_opt None (kids par) = Some x then map_option (\<lambda>r. r\<lparr>r_next_sibling := Some chd\<rparr>) (nodes d x)
       else nodes d x)"
  proof (cases "kids par" rule: rev_cases)
    case Nil
    then show ?thesis
      using c p pe ne
      by (intro that [of "(nodes d)(chd \<mapsto> ?c, par \<mapsto> p\<lparr>r_first_child := Some chd, r_last_child := Some chd\<rparr>)"])
        (auto simp: append_child_def update_node_def node_at_def fun_upd_twist)
  next
    case (snoc ys z)
    then obtain zr where "nodes d z = Some zr" using kids_memberD [OF R, of z par] by auto
    then show ?thesis
      using c p pe ne snoc out
      by (intro that [of "(nodes d)(z \<mapsto> zr\<lparr>r_next_sibling := Some chd\<rparr>, chd \<mapsto> ?c, par \<mapsto> p\<lparr>r_last_child := Some chd\<rparr>)"])
        (auto simp: append_child_def update_node_def node_at_def)
  qed
  have "represents (d\<lparr>nodes := m'\<rparr>) (kids(par := kids par @ [chd]))"
  proof (rule represents_insert [OF R c _ anc])
    show "kids par = kids par @ []" by simp
    show "dom m' = dom (nodes d)" using c p by (auto simp: m'(2) dom_def)
    show "map_option links (m' x) = map_option (relink (kids par) [] (Some chd) (Some chd) x) (nodes d x)"
      if "x \<noteq> chd" for x
      using that p out last_opt_Some_in [of "kids par" x]
      by (cases "nodes d x") (auto simp: m'(2) relink_def links_def)
  qed (use c p ne cn in \<open>auto simp: m'(2) links_def option.map_comp comp_def\<close>)
  moreover have "same_content d (d\<lparr>nodes := m'\<rparr>)"
    using c p by (auto simp: same_content_def m'(2) option.map_comp comp_def)
  ultimately show ?thesis using m'(1) by blast
qed


lemma insert_before_spec:
  assumes R: "represents d kids"
    and c: "nodes d chd = Some c" "r_parent c = None"
    and ks: "kids par = xs @ rf # ys"
    and anc: "(par, chd) \<notin> (parent_rel (nodes d))\<^sup>*"
  shows "\<exists>d'. insert_before d par chd (Some rf) = Inr d' \<and>
     represents d' (kids(par := xs @ chd # rf # ys)) \<and> same_content d d'"
proof -
  have ne: "par \<noteq> chd" using anc by auto
  obtain rr where r: "nodes d rf = Some rr" "r_parent rr = Some par" "r_prev_sibling rr = last_opt None xs"
    using representsD(4) [OF R, of par] ks by auto
  obtain p where p: "nodes d par = Some p"
    using kids_in_dom(2) [OF R, of rf par] ks by auto
  have pe: "r_last_child p = last_opt None (kids par)" "r_first_child p = hd_opt None (kids par)"
    using representsD(6) [OF R p] by (auto simp: node_ok_def)
  have out: "rf \<noteq> par" "rf \<noteq> chd" "rf \<notin> set xs" "chd \<notin> set xs" "chd \<notin> set ys" "par \<notin> set xs" "par \<notin> set ys"
    using detached_not_in_kids [OF R c, of par] not_own_child [OF R, of par]
      representsD(3) [OF R, of par] ks by auto
  let ?c = "c\<lparr>r_parent := Some par, r_prev_sibling := last_opt None xs, r_next_sibling := Some rf\<rparr>"
  let ?r = "rr\<lparr>r_prev_sibling := Some chd\<rparr>"
  obtain m' where m': "insert_before d par chd (Some rf) = Inr (d\<lparr>nodes := m'\<rparr>)"
    "\<And>x. m' x = (if x = par then Some (p\<lparr>r_first_child := hd_opt (Some chd) xs\<rparr>)
       else if x = chd then Some ?c
       else if x = rf then Some ?r
       else if last_opt None xs = Some x then map_option (\<lambda>r. r\<lparr>r_next_sibling := Some chd\<rparr>) (nodes d x)
       else nodes d x)"
  proof (cases xs rule: rev_cases)
    case Nil
    then show ?thesis
      using c p r pe ne out ks
      by (intro that [of "(nodes d)(par \<mapsto> p\<lparr>r_first_child := Some chd\<rparr>, rf \<mapsto> ?r, chd \<mapsto> ?c)"])
        (auto simp: insert_before_def update_node_def node_at_def)
  next
    case (snoc zs z)
    then obtain zr where "nodes d z = Some zr" using kids_memberD [OF R, of z par] ks by auto
    then show ?thesis
      using c p r pe ne snoc out ks
      by (intro that [of "(nodes d)(z \<mapsto> zr\<lparr>r_next_sibling := Some chd\<rparr>, rf \<mapsto> ?r, chd \<mapsto> ?c)"])
        (auto simp: insert_before_def update_node_def node_at_def)
  qed
  have "represents (d\<lparr>nodes := m'\<rparr>) (kids(par := xs @ chd # rf # ys))"
  proof (rule represents_insert [OF R c ks anc])
    show "dom m' = dom (nodes d)" using c p r by (auto simp: m'(2) dom_def)
    show "map_option links (m' x) = map_option (relink xs (rf # ys) (Some chd) (Some chd) x) (nodes d x)"
      if "x \<noteq> chd" for x
      using that p r out last_opt_Some_in [of xs x]
      by (cases "nodes d x") (auto simp: m'(2) relink_def links_def)
    show "map_option ends (m' par) = Some (hd_opt (Some chd) xs, last_opt (Some chd) (rf # ys))"
      using pe ks by (simp add: m'(2) ends_def)
  qed (use c p r ne out in \<open>auto simp: m'(2) links_def option.map_comp comp_def\<close>)
  moreover have "same_content d (d\<lparr>nodes := m'\<rparr>)"
    using c p r by (auto simp: same_content_def m'(2) option.map_comp comp_def)
  ultimately show ?thesis using m'(1) by blast
qed

lemma detach_table:
  assumes R: "represents d kids" and ks: "kids par = xs @ i # ys"
    and r: "nodes d i = Some r" "r_parent r = Some par"
      "r_prev_sibling r = last_opt None xs" "r_next_sibling r = hd_opt None ys"
    and p: "nodes d par = Some p"
    and pe: "r_last_child p = last_opt None (kids par)" "r_first_child p = hd_opt None (kids par)"
    and out: "i \<noteq> par" "i \<notin> set xs" "i \<notin> set ys" "par \<notin> set xs" "par \<notin> set ys"
      "set xs \<inter> set ys = {}"
  obtains m' where "detach d i = Inr (d\<lparr>nodes := m'\<rparr>)"
    "\<And>x. m' x =
      (if x = par then Some (p\<lparr>r_first_child := hd_opt None (xs @ ys), r_last_child := last_opt None (xs @ ys)\<rparr>)
       else if x = i then Some (r\<lparr>r_parent := None, r_prev_sibling := None, r_next_sibling := None\<rparr>)
       else if last_opt None xs = Some x then map_option (\<lambda>r. r\<lparr>r_next_sibling := hd_opt None ys\<rparr>) (nodes d x)
       else if hd_opt None ys = Some x then map_option (\<lambda>r. r\<lparr>r_prev_sibling := last_opt None xs\<rparr>) (nodes d x)
       else nodes d x)"
proof (cases xs rule: rev_cases)
  case Nil
  show ?thesis
  proof (cases ys)
    case ys: Nil
    show ?thesis
      using p r pe out ks Nil ys
      by (intro that [of "(nodes d)(par \<mapsto> p\<lparr>r_first_child := None, r_last_child := None\<rparr>, i \<mapsto> r\<lparr>r_parent := None, r_prev_sibling := None, r_next_sibling := None\<rparr>)"])
        (auto simp: detach_def update_node_def node_at_def)
  next
    case (Cons y zs)
    then obtain yr where "nodes d y = Some yr" using kids_memberD [OF R, of y par] ks by auto
    then show ?thesis
      using p r pe out ks Nil Cons
      by (intro that [of "(nodes d)(par \<mapsto> p\<lparr>r_first_child := Some y\<rparr>,
            y \<mapsto> yr\<lparr>r_prev_sibling := None\<rparr>, i \<mapsto> r\<lparr>r_parent := None, r_prev_sibling := None, r_next_sibling := None\<rparr>)"])
        (auto simp: detach_def update_node_def node_at_def)
  qed
next
  case (snoc us z)
  then obtain zr where z: "nodes d z = Some zr" using kids_memberD [OF R, of z par] ks by auto
  show ?thesis
  proof (cases ys)
    case ys: Nil
    show ?thesis
      using p r pe out ks z snoc ys
      by (intro that [of "(nodes d)(z \<mapsto> zr\<lparr>r_next_sibling := None\<rparr>,
            par \<mapsto> p\<lparr>r_last_child := Some z\<rparr>, i \<mapsto> r\<lparr>r_parent := None, r_prev_sibling := None, r_next_sibling := None\<rparr>)"])
        (auto simp: detach_def update_node_def node_at_def)
  next
    case (Cons y zs)
    then obtain yr where "nodes d y = Some yr" using kids_memberD [OF R, of y par] ks by auto
    then show ?thesis
      using p r pe out ks z snoc Cons
      by (intro that [of "(nodes d)(z \<mapsto> zr\<lparr>r_next_sibling := Some y\<rparr>,
            y \<mapsto> yr\<lparr>r_prev_sibling := Some z\<rparr>, i \<mapsto> r\<lparr>r_parent := None, r_prev_sibling := None, r_next_sibling := None\<rparr>)"])
        (auto simp: detach_def update_node_def node_at_def)
  qed
qed

lemma detach_attached_spec:
  assumes R: "represents d kids" and ks: "kids par = xs @ i # ys"
  shows "\<exists>d'. detach d i = Inr d' \<and> represents d' (kids(par := xs @ ys)) \<and> same_content d d'"
proof -
  obtain r where r: "nodes d i = Some r" "r_parent r = Some par"
    "r_prev_sibling r = last_opt None xs" "r_next_sibling r = hd_opt None ys"
    using representsD(4) [OF R, of par] ks by auto
  obtain p where p: "nodes d par = Some p"
    using kids_in_dom(2) [OF R, of i par] ks by auto
  have pe: "r_last_child p = last_opt None (kids par)" "r_first_child p = hd_opt None (kids par)"
    using representsD(6) [OF R p] by (auto simp: node_ok_def)
  have out: "i \<noteq> par" "i \<notin> set xs" "i \<notin> set ys" "par \<notin> set xs" "par \<notin> set ys" "set xs \<inter> set ys = {}"
    using not_own_child [OF R, of par] representsD(3) [OF R, of par] ks by auto
  obtain m' where m': "detach d i = Inr (d\<lparr>nodes := m'\<rparr>)"
    "\<And>x. m' x =
      (if x = par then Some (p\<lparr>r_first_child := hd_opt None (xs @ ys), r_last_child := last_opt None (xs @ ys)\<rparr>)
       else if x = i then Some (r\<lparr>r_parent := None, r_prev_sibling := None, r_next_sibling := None\<rparr>)
       else if last_opt None xs = Some x then map_option (\<lambda>r. r\<lparr>r_next_sibling := hd_opt None ys\<rparr>) (nodes d x)
       else if hd_opt None ys = Some x then map_option (\<lambda>r. r\<lparr>r_prev_sibling := last_opt None xs\<rparr>) (nodes d x)
       else nodes d x)"
    by (rule detach_table [OF R ks r p pe out], rule that)
  have "represents (d\<lparr>nodes := m'\<rparr>) (kids(par := xs @ ys))"
  proof (rule represents_remove [OF R ks])
    show "dom m' = dom (nodes d)" using p r by (auto simp: m'(2) dom_def)
    show "map_option links (m' x) = map_option (relink xs ys (hd_opt None ys) (last_opt None xs) x) (nodes d x)"
      if "x \<noteq> i" for x
      using that p r out last_opt_Some_in [of xs x] hd_opt_Some_in [of ys x]
      by (cases "nodes d x") (auto simp: m'(2) relink_def links_def)
  qed (use p r out in \<open>auto simp: m'(2) links_def option.map_comp comp_def\<close>)
  moreover have "same_content d (d\<lparr>nodes := m'\<rparr>)"
    using p r by (auto simp: same_content_def m'(2) option.map_comp comp_def)
  ultimately show ?thesis using m'(1) by blast
qed

section \<open>Children and subtrees\<close>

lemma successors_seg:
  assumes "seg (nodes d) p prv xs None"
  shows "successors d (hd_opt None xs) = Some (Inr xs)"
  using assms
proof (induction xs arbitrary: prv)
  case Nil
  then show ?case by (simp add: successors.simps)
next
  case (Cons x xs)
  then have "next_sibling d x = Inr (hd_opt None xs)"
    by (auto simp: next_sibling_def node_at_def)
  with Cons show ?case by (subst successors.simps) auto
qed

lemma children_kids:
  assumes "represents d kids" "nodes d n = Some r"
  shows "children d n = Some (Inr (kids n))"
proof -
  have "first_child d n = Inr (hd_opt None (kids n))"
    using representsD(6) [OF assms] assms(2) by (simp add: first_child_def node_ok_def node_at_def)
  with successors_seg [OF representsD(4) [OF assms(1)]] show ?thesis
    by (simp add: children_def)
qed

lemma represents_unique:
  assumes "represents d kids" "represents d kids'"
  shows "kids = kids'"
proof
  fix n
  show "kids n = kids' n"
  proof (cases "nodes d n")
    case None
    with assms show ?thesis by (simp add: representsD(5))
  next
    case (Some r)
    with children_kids [OF assms(1)] children_kids [OF assms(2)] show ?thesis by simp
  qed
qed

definition subtree :: "node_table \<Rightarrow> node_id \<Rightarrow> node_id set" where
  "subtree m i = {x. (x, i) \<in> (parent_rel m)\<^sup>*}"

lemma subtree_self [simp, intro]: "i \<in> subtree m i"
  by (simp add: subtree_def)

lemma parent_rel_kids:
  assumes "represents d kids"
  shows "(c, p) \<in> parent_rel (nodes d) \<longleftrightarrow> c \<in> set (kids p)"
  using kids_memberD [OF assms, of c p] kids_parent_iff [OF assms, of c]
  by (auto simp: parent_rel_def)

lemma wf_parent_rel:
  assumes "represents d kids"
  shows "wf (parent_rel (nodes d))"
proof (rule finite_acyclic_wf)
  have "parent_rel (nodes d) \<subseteq> dom (nodes d) \<times> dom (nodes d)"
    using kids_in_dom [OF assms] by (auto simp: parent_rel_kids [OF assms])
  then show "finite (parent_rel (nodes d))"
    using representsD(1) [OF assms] finite_subset by blast
qed (rule representsD(2) [OF assms])

lemma subtree_unfold:
  assumes "represents d kids"
  shows "subtree (nodes d) i = insert i (\<Union>c\<in>set (kids i). subtree (nodes d) c)"
proof -
  note pr = parent_rel_kids [OF assms]
  have "(x, i) \<in> (parent_rel (nodes d))\<^sup>* \<longleftrightarrow>
      x = i \<or> (\<exists>c\<in>set (kids i). (x, c) \<in> (parent_rel (nodes d))\<^sup>*)" for x
    unfolding rtrancl.simps [of x i] by (auto simp: pr)
  then show ?thesis by (auto simp: subtree_def)
qed

lemma parent_rel_single: "(x, y) \<in> parent_rel m \<Longrightarrow> (x, z) \<in> parent_rel m \<Longrightarrow> y = z"
  by (auto simp: parent_rel_def)

lemma ancestors_linear:
  assumes "(x, y) \<in> (parent_rel m)\<^sup>*" "(x, z) \<in> (parent_rel m)\<^sup>*"
  shows "(y, z) \<in> (parent_rel m)\<^sup>* \<or> (z, y) \<in> (parent_rel m)\<^sup>*"
  using assms
proof (induction rule: converse_rtrancl_induct)
  case (step a b)
  from step.prems show ?case
  proof (cases rule: converse_rtranclE)
    case base
    with step.hyps show ?thesis by (auto intro: converse_rtrancl_into_rtrancl)
  next
    case (step b')
    then have "b' = b" using \<open>(a, b) \<in> parent_rel m\<close> parent_rel_single by blast
    with step show ?thesis using step.IH by blast
  qed
qed simp

lemma sibling_not_ancestor:
  assumes R: "represents d kids" and "y \<in> set (kids p)" "y' \<in> set (kids p)" "y \<noteq> y'"
  shows "(y, y') \<notin> (parent_rel (nodes d))\<^sup>*"
proof
  let ?r = "parent_rel (nodes d)"
  assume "(y, y') \<in> ?r\<^sup>*"
  then obtain b where "(y, b) \<in> ?r" "(b, y') \<in> ?r\<^sup>*"
    using \<open>y \<noteq> y'\<close> by (blast elim: converse_rtranclE)
  moreover have "(y, p) \<in> ?r" "(y', p) \<in> ?r" using assms parent_rel_kids [OF R] by simp_all
  ultimately have "(y', y') \<in> ?r\<^sup>+"
    using parent_rel_single by (metis rtrancl_into_trancl2)
  then show False
    using representsD(2) [OF R] by (simp add: acyclic_def)
qed

lemma sibling_subtrees_disjoint:
  assumes R: "represents d kids" and "y \<in> set (kids p)" "y' \<in> set (kids p)" "y \<noteq> y'"
  shows "subtree (nodes d) y \<inter> subtree (nodes d) y' = {}"
proof (rule equals0I)
  fix x
  assume "x \<in> subtree (nodes d) y \<inter> subtree (nodes d) y'"
  then have "(x, y) \<in> (parent_rel (nodes d))\<^sup>*" "(x, y') \<in> (parent_rel (nodes d))\<^sup>*"
    by (simp_all add: subtree_def)
  from ancestors_linear [OF this] show False
    using sibling_not_ancestor [OF R] assms by metis
qed

text \<open>Freeing a subtree only reads the records of that subtree.\<close>

definition drop_nodes :: "document \<Rightarrow> node_id set \<Rightarrow> document" where
  "drop_nodes d A = d\<lparr>nodes := nodes d |` (- A)\<rparr>"

lemma nodes_drop_nodes [simp]: "nodes (drop_nodes d A) x = (if x \<in> A then None else nodes d x)"
  by (simp add: drop_nodes_def restrict_map_def)

lemma drop_nodes_drop_nodes: "drop_nodes (drop_nodes d A) B = drop_nodes d (A \<union> B)"
  by (simp add: drop_nodes_def Int_commute)

lemma free_siblings:
  assumes R: "represents d kids"
    and IH: "\<And>y d1. y \<in> set (kids i) \<Longrightarrow> (\<And>x. x \<in> subtree (nodes d) y \<Longrightarrow> nodes d1 x = nodes d x) \<Longrightarrow>
      free_subtree_loop d1 (Inl y) = Some (Inr (drop_nodes d1 (subtree (nodes d) y)))"
    and ks: "kids i = xs @ ys"
    and agree: "\<And>y x. y \<in> set ys \<Longrightarrow> x \<in> subtree (nodes d) y \<Longrightarrow> nodes d1 x = nodes d x"
  shows "free_subtree_loop d1 (Inr (hd_opt None ys)) =
    Some (Inr (drop_nodes d1 (\<Union>y\<in>set ys. subtree (nodes d) y)))"
  using ks agree
proof (induction ys arbitrary: xs d1)
  case Nil
  then show ?case by (subst free_subtree_loop.simps) (simp add: drop_nodes_def restrict_map_def)
next
  case (Cons y ys)
  let ?d2 = "drop_nodes d1 (subtree (nodes d) y)"
  have "seg (nodes d) i (last_opt None xs) (y # ys) None"
    using representsD(4) [OF R, of i] Cons.prems(1) by simp
  moreover have "nodes d1 y = nodes d y" using Cons.prems(2) [of y y] by simp
  ultimately have nxt: "next_sibling d1 y = Inr (hd_opt None ys)"
    by (auto simp: next_sibling_def node_at_def)
  have first: "free_subtree_loop d1 (Inl y) = Some (Inr ?d2)"
    using Cons.prems by (intro IH) auto
  have "nodes ?d2 x = nodes d x" if "y' \<in> set ys" "x \<in> subtree (nodes d) y'" for y' x
  proof -
    have "y \<noteq> y'" using that representsD(3) [OF R, of i] Cons.prems(1) by auto
    then have "x \<notin> subtree (nodes d) y"
      using sibling_subtrees_disjoint [OF R, of y i y'] that Cons.prems(1) by auto
    with that Cons.prems(2) [of y' x] show ?thesis by simp
  qed
  then have "free_subtree_loop ?d2 (Inr (hd_opt None ys)) =
      Some (Inr (drop_nodes ?d2 (\<Union>y\<in>set ys. subtree (nodes d) y)))"
    using Cons.prems(1) by (intro Cons.IH [of "xs @ [y]"]) auto
  with nxt first show ?case
    by (subst free_subtree_loop.simps) (simp add: drop_nodes_drop_nodes)
qed

lemma free_subtree_agree:
  assumes R: "represents d kids"
  shows "nodes d i \<noteq> None \<Longrightarrow> (\<And>x. x \<in> subtree (nodes d) i \<Longrightarrow> nodes d1 x = nodes d x) \<Longrightarrow>
    free_subtree_loop d1 (Inl i) = Some (Inr (drop_nodes d1 (subtree (nodes d) i)))"
proof (induction i arbitrary: d1 rule: wf_induct_rule [OF wf_parent_rel [OF R]])
  case (1 i)
  then obtain r where r: "nodes d i = Some r" "nodes d1 i = Some r" by force
  have fc: "Option.bind (nodes d1 i) r_first_child = hd_opt None (kids i)"
    using representsD(6) [OF R r(1)] r(2) by (simp add: node_ok_def)
  let ?U = "\<Union>y\<in>set (kids i). subtree (nodes d) y"
  have "free_subtree_loop d1 (Inr (hd_opt None (kids i))) = Some (Inr (drop_nodes d1 ?U))"
  proof (rule free_siblings [OF R, where xs = "[]"])
    fix y and d2 :: document
    assume y: "y \<in> set (kids i)" "\<And>x. x \<in> subtree (nodes d) y \<Longrightarrow> nodes d2 x = nodes d x"
    then show "free_subtree_loop d2 (Inl y) = Some (Inr (drop_nodes d2 (subtree (nodes d) y)))"
      using kids_in_dom(1) [OF R y(1)] by (intro "1.IH") (auto simp: parent_rel_kids [OF R])
  next
    show "nodes d1 x = nodes d x" if "y \<in> set (kids i)" "x \<in> subtree (nodes d) y" for y x
      using that "1.prems"(2) [of x] subtree_unfold [OF R, of i] by blast
  qed simp
  moreover have "(drop_nodes d1 ?U)\<lparr>nodes := (nodes (drop_nodes d1 ?U))(i := None)\<rparr> =
      drop_nodes d1 (subtree (nodes d) i)"
    by (simp add: drop_nodes_def subtree_unfold [OF R, of i] restrict_map_def fun_eq_iff)
  ultimately show ?case
    using fc by (subst free_subtree_loop.simps) simp
qed

section \<open>Removal\<close>

lemma represents_drop_subtree:
  assumes R: "represents d kids" and i: "nodes d i = Some r" "r_parent r = None"
  defines "S \<equiv> subtree (nodes d) i"
  shows "represents (drop_nodes d S) (\<lambda>n. if n \<in> S then [] else kids n)"
proof -
  have closed: "x \<notin> S" if "x \<in> set (kids n)" "n \<notin> S" for x n
  proof
    assume "x \<in> S"
    moreover have "x \<noteq> i" using that(1) detached_not_in_kids [OF R i] by auto
    ultimately obtain n' where "(x, n') \<in> parent_rel (nodes d)" "n' \<in> S"
      by (auto simp: S_def subtree_def elim: converse_rtranclE)
    with that show False using parent_rel_kids [OF R] parent_rel_single by metis
  qed
  let ?m = "nodes (drop_nodes d S)" and ?k = "\<lambda>n. if n \<in> S then [] else kids n"
  have "parent_rel ?m \<subseteq> parent_rel (nodes d)"
    by (auto simp: parent_rel_def split: if_splits)
  then have acyc: "acyclic (parent_rel ?m)" using representsD(2) [OF R] acyclic_subset by blast
  have seg: "seg ?m n None (?k n) None" for n
  proof (cases "n \<in> S")
    case False
    have "seg ?m n None (kids n) None = seg (nodes d) n None (kids n) None"
      using closed [OF _ False] by (intro seg_frame) simp
    with False representsD(4) [OF R] show ?thesis by simp
  qed simp
  have ok: "node_ok ?m ?k n r" if "?m n = Some r" for n r
  proof -
    from that have n: "n \<notin> S" "nodes d n = Some r" by (auto split: if_splits)
    have "p \<notin> S" if "n \<in> set (kids p)" for p
      using that n(1) parent_rel_kids [OF R]
      by (auto simp: S_def subtree_def intro: converse_rtrancl_into_rtrancl)
    with representsD(6) [OF R n(2)] n(1) show ?thesis
      by (auto simp: node_ok_def split: option.splits)
  qed
  have "finite (dom ?m)"
    using representsD(1) [OF R] by (simp add: drop_nodes_def)
  moreover have "unat n < unat (next_node_id d)" if "n \<in> dom ?m" for n
    using that representsD(7) [OF R, of n] by (auto split: if_splits)
  moreover have "next_node_id (drop_nodes d S) = next_node_id d"
    by (simp add: next_node_id_def drop_nodes_def)
  ultimately show ?thesis
    unfolding represents_def
    using acyc seg ok representsD(3,5) [OF R] by (auto split: if_splits)
qed

lemma detach_detached_spec:
  assumes R: "represents d kids" and i: "nodes d i = Some r" "r_parent r = None"
  shows "detach d i = Inr d"
proof -
  have "r_prev_sibling r = None" "r_next_sibling r = None"
    using representsD(6) [OF R i(1)] i(2) by (auto simp: node_ok_def)
  moreover from this i have "r\<lparr>r_parent := None, r_prev_sibling := None, r_next_sibling := None\<rparr> = r"
    by simp
  ultimately show ?thesis
    using i by (simp add: detach_def node_at_def update_node_def fun_upd_idem)
qed

text \<open>The tree a detached node leaves behind, in one statement for both cases.\<close>

lemma detach_spec:
  assumes R: "represents d kids" and i: "nodes d i = Some r"
  shows "\<exists>d'. detach d i = Inr d' \<and> represents d' (\<lambda>n. remove1 i (kids n)) \<and>
     same_content d d' \<and> map_option r_parent (nodes d' i) = Some None"
proof (cases "r_parent r")
  case None
  have "(\<lambda>n. remove1 i (kids n)) = kids"
    using detached_not_in_kids [OF R i None] by (simp add: remove1_idem)
  with detach_detached_spec [OF R i None] R i None show ?thesis
    by (simp add: same_content_def)
next
  case (Some par)
  then have "i \<in> set (kids par)" using kids_parent_iff [OF R i] by simp
  then obtain xs ys where ks: "kids par = xs @ i # ys" by (meson split_list)
  have out: "i \<notin> set xs" "i \<notin> set ys" using representsD(3) [OF R, of par] ks by auto
  have "i \<notin> set (kids n)" if "n \<noteq> par" for n
    using that Some kids_parent_iff [OF R i] by simp
  then have kids': "(\<lambda>n. remove1 i (kids n)) = kids(par := xs @ ys)"
    using ks out by (auto simp: fun_eq_iff remove1_append remove1_idem)
  obtain d' where d': "detach d i = Inr d'" "represents d' (kids(par := xs @ ys))" "same_content d d'"
    using detach_attached_spec [OF R ks] by blast
  from d'(3) i obtain r' where r': "nodes d' i = Some r'"
    by (cases "nodes d' i") (auto simp: same_content_def dest: spec [of _ i])
  have "r_parent r' = None"
  proof (cases "r_parent r'")
    case (Some q)
    then have "i \<in> set ((kids(par := xs @ ys)) q)" using kids_parent_iff [OF d'(2) r'] by simp
    with out \<open>\<And>n. n \<noteq> par \<Longrightarrow> i \<notin> set (kids n)\<close> show ?thesis by (auto split: if_splits)
  qed
  with d' r' kids' show ?thesis by simp
qed

lemma subtree_after_detach:
  assumes R: "represents d kids" and R': "represents d' (\<lambda>n. remove1 i (kids n))"
  shows "subtree (nodes d') i = subtree (nodes d) i"
proof -
  let ?r = "parent_rel (nodes d)" and ?r' = "parent_rel (nodes d')"
  have rel: "(c, p) \<in> ?r' \<longleftrightarrow> (c, p) \<in> ?r \<and> c \<noteq> i" for c p
    using representsD(3) [OF R, of p] by (auto simp: parent_rel_kids [OF R] parent_rel_kids [OF R'])
  have "(x, i) \<in> ?r'\<^sup>*" if "(x, i) \<in> ?r\<^sup>*" for x
    using that
  proof (induction rule: converse_rtrancl_induct)
    case (step a b)
    have "a \<noteq> i"
    proof
      assume "a = i"
      with step.hyps have "(i, i) \<in> ?r\<^sup>+" by (metis rtrancl_into_trancl2)
      then show False using representsD(2) [OF R] by (simp add: acyclic_def)
    qed
    with step show ?case using rel by (blast intro: converse_rtrancl_into_rtrancl)
  qed simp
  moreover have "?r' \<subseteq> ?r" using rel by auto
  ultimately show ?thesis
    by (auto simp: subtree_def dest: rtrancl_mono)
qed

lemma remove_subtree_spec:
  assumes R: "represents d kids" and i: "nodes d i = Some r"
  defines "S \<equiv> subtree (nodes d) i"
  shows "\<exists>d'. remove_subtree d i = Some (Inr d') \<and>
     represents d' (\<lambda>n. if n \<in> S then [] else remove1 i (kids n)) \<and>
     (\<forall>x. map_option r_data (nodes d' x) = (if x \<in> S then None else map_option r_data (nodes d x))) \<and>
     allocator d' = allocator d \<and> doc_root d' = doc_root d"
proof -
  obtain d1 where d1: "detach d i = Inr d1" "represents d1 (\<lambda>n. remove1 i (kids n))"
    "same_content d d1" "map_option r_parent (nodes d1 i) = Some None"
    using detach_spec [OF R i] by blast
  then obtain r1 where r1: "nodes d1 i = Some r1" "r_parent r1 = None" by auto
  have S: "subtree (nodes d1) i = S"
    using subtree_after_detach [OF R d1(2)] by (simp add: S_def)
  have "free_subtree d1 i = Some (Inr (drop_nodes d1 S))"
    using free_subtree_agree [OF d1(2), of i d1] r1 S by (simp add: free_subtree_def)
  moreover have "represents (drop_nodes d1 S) (\<lambda>n. if n \<in> S then [] else remove1 i (kids n))"
    using represents_drop_subtree [OF d1(2) r1] S by simp
  ultimately show ?thesis
    using d1 by (intro exI [of _ "drop_nodes d1 S"])
      (auto simp: remove_subtree_def same_content_def drop_nodes_def restrict_map_def)
qed

section \<open>The dump as a rendering of the tree\<close>

datatype dtree = DNode (dt_data: node_data) (dt_kids: "dtree list")

inductive tree_at :: "document \<Rightarrow> node_id \<Rightarrow> dtree \<Rightarrow> bool" where
  tree_at: "nodes d i = Some r \<Longrightarrow> children d i = Some (Inr cs) \<Longrightarrow> list_all2 (tree_at d) cs ts \<Longrightarrow>
    tree_at d i (DNode (r_data r) ts)"
monos list.rel_mono_strong

inductive_cases tree_atE: "tree_at d i t"

fun render :: "nat \<Rightarrow> dtree \<Rightarrow> rstring" where
  "render depth (DNode Document ts) = []"
| "render depth (DNode (Text dat) ts) = dump_text depth dat"
| "render depth (DNode (Element tag attrs) ts) =
     dump_element_head depth tag attrs @ concat (map (render (depth + 1)) ts)"

fun printable :: "dtree \<Rightarrow> bool" where
  "printable (DNode dat ts) \<longleftrightarrow> dat \<noteq> Document \<and> (\<forall>t\<in>set ts. printable t)"

lemma tree_at_exists:
  assumes R: "represents d kids"
  shows "nodes d i \<noteq> None \<Longrightarrow> \<exists>t. tree_at d i t"
proof (induction i rule: wf_induct_rule [OF wf_parent_rel [OF R]])
  case (1 i)
  then obtain r where r: "nodes d i = Some r" by blast
  have "\<exists>t. tree_at d c t" if "c \<in> set (kids i)" for c
    using "1.IH" [of c] that kids_in_dom(1) [OF R that] parent_rel_kids [OF R] by blast
  then obtain f where "\<And>c. c \<in> set (kids i) \<Longrightarrow> tree_at d c (f c)" by metis
  then have "list_all2 (tree_at d) (kids i) (map f (kids i))"
    by (simp add: list_all2_conv_all_nth)
  with r children_kids [OF R r] show ?case by (blast intro: tree_at)
qed

lemma dump_walk_siblings:
  assumes "seg (nodes d) p prv cs None"
    and "list_all2 (\<lambda>c t. dump_walk d depth (Inl c) = Some (Inr (render depth t))) cs ts"
  shows "dump_walk d depth (Inr (hd_opt None cs)) = Some (Inr (concat (map (render depth) ts)))"
  using assms(2,1)
proof (induction arbitrary: prv rule: list_all2_induct)
  case Nil
  then show ?case by (subst dump_walk.simps) simp
next
  case (Cons c cs t ts)
  then have "next_sibling d c = Inr (hd_opt None cs)"
    by (auto simp: next_sibling_def node_at_def)
  with Cons show ?case by (subst dump_walk.simps) auto
qed

lemma dump_walk_render:
  assumes R: "represents d kids"
  shows "tree_at d i t \<Longrightarrow> printable t \<Longrightarrow> dump_walk d depth (Inl i) = Some (Inr (render depth t))"
proof (induction t arbitrary: i depth)
  case (DNode dat ts)
  from DNode.prems(1) obtain r where r: "nodes d i = Some r" "r_data r = dat"
    and ts: "list_all2 (tree_at d) (kids i) ts"
    by (cases rule: tree_at.cases) (auto dest: children_kids [OF R])
  have fc: "first_child d i = Inr (hd_opt None (kids i))"
    using representsD(6) [OF R r(1)] r(1) by (simp add: first_child_def node_ok_def node_at_def)
  have "list_all2 (\<lambda>c t. dump_walk d (depth + 1) (Inl c) = Some (Inr (render (depth + 1) t))) (kids i) ts"
    using ts DNode.IH DNode.prems(2) by (auto simp: list_all2_conv_all_nth)
  then have "dump_walk d (depth + 1) (Inr (hd_opt None (kids i))) =
      Some (Inr (concat (map (render (depth + 1)) ts)))"
    by (rule dump_walk_siblings [OF representsD(4) [OF R]])
  with r fc DNode.prems(2) show ?case
    by (cases dat) (auto simp: dump_walk.simps [of d depth "Inl i"] data_def node_at_def)
qed

text \<open>Two trees of the same shape: equal up to the order in which attributes were added.\<close>

inductive same_shape :: "dtree \<Rightarrow> dtree \<Rightarrow> bool" where
  same_node: "list_all2 same_shape ts ts' \<Longrightarrow> dat = dat' \<or>
     (\<exists>tag as as'. dat = Element tag as \<and> dat' = Element tag as' \<and>
        distinct (map fst as) \<and> mset as = mset as') \<Longrightarrow>
     same_shape (DNode dat ts) (DNode dat' ts')"
monos list.rel_mono_strong

lemma dump_element_head_order:
  assumes "distinct (map fst as)" "mset as = mset as'"
  shows "dump_element_head depth tag as = dump_element_head depth tag as'"
proof -
  have "inj_on fst (set as)" using assms(1) by (simp add: distinct_map)
  then have "sort_key fst as = sort_key fst as'"
    using assms(2) by (intro sort_key_inj_key_eq) simp_all
  then show ?thesis by (simp add: dump_element_head_def)
qed

lemma render_same_shape: "same_shape t t' \<Longrightarrow> render depth t = render depth t'"
proof (induction t arbitrary: t' depth)
  case (DNode dat ts)
  from DNode.prems obtain dat' ts' where t': "t' = DNode dat' ts'"
    and ts: "list_all2 same_shape ts ts'"
    and dat: "dat = dat' \<or> (\<exists>tag as as'. dat = Element tag as \<and> dat' = Element tag as' \<and>
        distinct (map fst as) \<and> mset as = mset as')"
    by (cases rule: same_shape.cases) auto
  have "map (render (depth + 1)) ts = map (render (depth + 1)) ts'"
    using ts DNode.IH by (auto simp: list_all2_conv_all_nth intro: nth_equalityI)
  with dat show ?case
    by (cases dat) (auto simp: t' dest: dump_element_head_order)
qed

lemma same_shape_printable: "same_shape t t' \<Longrightarrow> printable t \<Longrightarrow> printable t'"
proof (induction t arbitrary: t')
  case (DNode dat ts)
  from DNode.prems(1) obtain dat' ts' where t': "t' = DNode dat' ts'"
    "list_all2 same_shape ts ts'" "dat' = Document \<longrightarrow> dat = Document"
    by (cases rule: same_shape.cases) auto
  have "printable u'" if "u' \<in> set ts'" for u'
    using that t'(2) DNode.IH DNode.prems(2)
    by (fastforce simp: list_all2_conv_all_nth in_set_conv_nth)
  with t' DNode.prems(2) show ?case by auto
qed


lemma dump_renders:
  assumes "wf_document d" "root d = Inr r" "tree_at d r (DNode Document ts)" "\<forall>t\<in>set ts. printable t"
  shows "dump d = Some (Inr (concat (map (render 0) ts)))"
proof -
  obtain kids where R: "represents d kids" using assms(1) by (auto simp: wf_document_def)
  obtain rr where rr: "nodes d r = Some rr" and ts: "list_all2 (tree_at d) (kids r) ts"
    using assms(3) by (cases rule: tree_at.cases) (auto dest: children_kids [OF R])
  have "list_all2 (\<lambda>c t. dump_walk d 0 (Inl c) = Some (Inr (render 0 t))) (kids r) ts"
    using ts assms(4) dump_walk_render [OF R] by (auto simp: list_all2_conv_all_nth)
  from dump_walk_siblings [OF representsD(4) [OF R] this]
  show ?thesis
    using representsD(6) [OF R rr] rr assms(2)
    by (simp add: dump_def first_child_def node_ok_def node_at_def)
qed

section \<open>Documents under construction\<close>

text \<open>
  The steps a client of the crate can take. The guard on \<open>append\<close> and \<open>insert\<close> is the
  one obligation the crate leaves to its caller: a node is never attached below itself
  (the code checks only that it is detached). The guard on \<open>create\<close> says the 64-bit
  counter has not run out; where it has, a debug build panics and a release build wraps.
\<close>

inductive dom_step :: "document \<Rightarrow> document \<Rightarrow> bool" where
  create: "unat (next_node_id d) + 1 < 2 ^ 64 \<Longrightarrow> create_node d dat = (i, d') \<Longrightarrow> dom_step d d'"
| mutate: "data_mut d i f = Inr d' \<Longrightarrow> dom_step d d'"
| append: "append_child d par chd = Inr d' \<Longrightarrow> (par, chd) \<notin> (parent_rel (nodes d))\<^sup>* \<Longrightarrow> dom_step d d'"
| insert: "insert_before d par chd ref = Inr d' \<Longrightarrow> (par, chd) \<notin> (parent_rel (nodes d))\<^sup>* \<Longrightarrow> dom_step d d'"
| detach: "detach d i = Inr d' \<Longrightarrow> dom_step d d'"
| remove: "remove_subtree d i = Some (Inr d') \<Longrightarrow> dom_step d d'"

lemma new_continuing_from_represents:
  assumes "unat n + 1 < 2 ^ 64"
  shows "represents (new_continuing_from n) (\<lambda>_. [])"
proof -
  let ?e = "\<lparr>allocator = \<lparr>alloc_next = n\<rparr>, nodes = Map.empty, doc_root = None\<rparr> :: document"
  have e: "represents ?e (\<lambda>_. [])"
    by (simp add: represents_def acyclic_def parent_rel_def)
  obtain i d' where c: "create_node ?e Document = (i, d')" by fastforce
  have "represents d' (\<lambda>_. [])"
    using create_node_spec(6) [OF e _ c] assms by (simp add: next_node_id_def)
  moreover have "new_continuing_from n = d'\<lparr>doc_root := Some i\<rparr>"
    using c by (simp add: new_continuing_from_def)
  ultimately show ?thesis
    by (simp add: represents_def next_node_id_def)
qed

lemma data_mut_represents:
  assumes R: "represents d kids" and m: "data_mut d i f = Inr d'"
  shows "represents d' kids"
proof -
  from m obtain r where r: "nodes d i = Some r" and d': "d' = d\<lparr>nodes := (nodes d)(i \<mapsto> r\<lparr>r_data := f (r_data r)\<rparr>)\<rparr>"
    by (auto simp: data_mut_def update_node_def node_at_def res_simps)
  have rel: "parent_rel (nodes d') = parent_rel (nodes d)"
    using r by (auto simp: d' parent_rel_def split: if_splits)
  have "seg (nodes d') n None (kids n) None" for n
  proof -
    have "seg (nodes d') n None (kids n) None = seg (nodes d) n None (kids n) None"
      using r by (intro seg_frame) (auto simp: d' links_def)
    with representsD(4) [OF R] show ?thesis by simp
  qed
  moreover have "node_ok (nodes d') kids n r'" if n: "nodes d' n = Some r'" for n r'
  proof -
    obtain r0 where r0: "nodes d n = Some r0" "ends r' = ends r0" "links r' = links r0"
      using n r by (auto simp: d' links_def split: if_splits)
    with representsD(6) [OF R r0(1)] show ?thesis
      by (auto simp: node_ok_def ends_def links_def d' split: option.splits)
  qed
  moreover have "dom (nodes d') = dom (nodes d)" using r by (auto simp: d')
  moreover have "next_node_id d' = next_node_id d" by (simp add: d' next_node_id_def)
  moreover have "nodes d' n = None \<longrightarrow> kids n = []" for n
    using representsD(5) [OF R, of n] by (simp add: d')
  ultimately show ?thesis
    using R rel by (simp add: represents_def)
qed

lemma append_child_InrD:
  assumes "append_child d par chd = Inr d'"
  shows "\<exists>c p. nodes d chd = Some c \<and> r_parent c = None \<and> nodes d par = Some p"
  using assms by (auto simp: append_child_def node_at_def res_simps split: if_splits)

lemma insert_before_SomeD:
  assumes "insert_before d par chd (Some rf) = Inr d'"
  shows "\<exists>c r. nodes d chd = Some c \<and> r_parent c = None \<and> nodes d rf = Some r \<and> r_parent r = Some par"
  using assms by (auto simp: insert_before_def node_at_def res_simps split: if_splits)

text \<open>
  What every step keeps: the document stays well formed, the counter does not go back,
  and an identifier that was handed out and freed does not resolve again.
\<close>

definition step_ok :: "document \<Rightarrow> document \<Rightarrow> bool" where
  "step_ok d d' \<longleftrightarrow> wf_document d' \<and> unat (next_node_id d) \<le> unat (next_node_id d') \<and>
     (\<forall>x. nodes d x = None \<longrightarrow> unat x < unat (next_node_id d) \<longrightarrow> nodes d' x = None)"

lemma step_okI:
  assumes "represents d' kids'" "allocator d' = allocator d" "dom (nodes d') \<subseteq> dom (nodes d)"
  shows "step_ok d d'"
  using assms by (auto simp: step_ok_def wf_document_def next_node_id_def dom_def)

lemma same_content_dom: "same_content d d' \<Longrightarrow> dom (nodes d') = dom (nodes d)"
proof -
  assume "same_content d d'"
  then have "nodes d' x = None \<longleftrightarrow> nodes d x = None" for x
    by (metis option.map_disc_iff same_content_def)
  then show ?thesis by (auto simp: dom_def)
qed

lemma same_content_step_ok: "represents d' kids' \<Longrightarrow> same_content d d' \<Longrightarrow> step_ok d d'"
  by (rule step_okI) (simp_all add: same_content_dom, simp add: same_content_def)

lemma create_step_ok:
  assumes R: "represents d kids" and nw: "unat (next_node_id d) + 1 < 2 ^ 64"
    and c: "create_node d dat = (i, d')"
  shows "step_ok d d'"
  using create_node_spec [OF R nw c] unat_plus_1_no_wrap [OF nw]
  by (auto simp: step_ok_def wf_document_def)

lemma mutate_step_ok:
  assumes R: "represents d kids" and m: "data_mut d i f = Inr d'"
  shows "step_ok d d'"
  by (rule step_okI [OF data_mut_represents [OF R m]])
    (use m in \<open>auto simp: data_mut_def update_node_def node_at_def res_simps split: if_splits\<close>)

lemma append_step_ok:
  assumes R: "represents d kids" and a: "append_child d par chd = Inr d'"
    and anc: "(par, chd) \<notin> (parent_rel (nodes d))\<^sup>*"
  shows "step_ok d d'"
proof -
  obtain c p where "nodes d chd = Some c" "r_parent c = None" "nodes d par = Some p"
    using append_child_InrD [OF a] by blast
  from append_child_spec [OF R this anc] a show ?thesis by (auto intro: same_content_step_ok)
qed

lemma insert_step_ok:
  assumes R: "represents d kids" and a: "insert_before d par chd ref = Inr d'"
    and anc: "(par, chd) \<notin> (parent_rel (nodes d))\<^sup>*"
  shows "step_ok d d'"
proof (cases ref)
  case None
  with a append_step_ok [OF R _ anc] show ?thesis by (simp add: insert_before_def)
next
  case (Some rf)
  then obtain c r where cr: "nodes d chd = Some c" "r_parent c = None"
    "nodes d rf = Some r" "r_parent r = Some par"
    using insert_before_SomeD a by blast
  then obtain xs ys where "kids par = xs @ rf # ys"
    using kids_parent_iff [OF R cr(3)] by (meson split_list)
  from insert_before_spec [OF R cr(1,2) this anc] a Some show ?thesis
    by (auto intro: same_content_step_ok)
qed

lemma detach_step_ok:
  assumes R: "represents d kids" and a: "detach d i = Inr d'"
  shows "step_ok d d'"
proof -
  obtain r where "nodes d i = Some r" using a by (auto simp: detach_def node_at_def res_simps)
  from detach_spec [OF R this] a show ?thesis by (auto intro: same_content_step_ok)
qed

lemma remove_step_ok:
  assumes R: "represents d kids" and a: "remove_subtree d i = Some (Inr d')"
  shows "step_ok d d'"
proof -
  obtain d1 where "detach d i = Inr d1" using a by (auto simp: remove_subtree_def split: sum.splits)
  then obtain r where "nodes d i = Some r" by (auto simp: detach_def node_at_def res_simps)
  from remove_subtree_spec [OF R this] a obtain kids' where
    d': "represents d' kids'" "allocator d' = allocator d"
    "\<forall>x. map_option r_data (nodes d' x) =
       (if x \<in> subtree (nodes d) i then None else map_option r_data (nodes d x))"
    by auto
  have "x \<in> dom (nodes d)" if "x \<in> dom (nodes d')" for x
    using spec [OF d'(3), of x] that by (cases "nodes d x") (auto split: if_splits)
  with d' show ?thesis by (intro step_okI) auto
qed

lemma dom_step_ok: "dom_step d d' \<Longrightarrow> wf_document d \<Longrightarrow> step_ok d d'"
  by (induction rule: dom_step.induct)
    (auto simp: wf_document_def
      intro: create_step_ok mutate_step_ok append_step_ok insert_step_ok detach_step_ok remove_step_ok)

lemma dom_steps_ok:
  assumes "dom_step\<^sup>*\<^sup>* d d'" "wf_document d"
  shows "step_ok d d'"
  using assms
proof (induction rule: rtranclp_induct)
  case base
  then show ?case by (simp add: step_ok_def)
next
  case (step d1 d2)
  then have "step_ok d d1" "step_ok d1 d2" using dom_step_ok by (auto simp: step_ok_def)
  then show ?case by (auto simp: step_ok_def)
qed

section \<open>The tree interface its clients use\<close>

text \<open>
  Selector matching and the tree builder see a document as a forest: every node has a
  parent or none, and following parents ends.
\<close>

locale forest =
  fixes alive :: "'d \<Rightarrow> 'n \<Rightarrow> bool"
    and kids :: "'d \<Rightarrow> 'n \<Rightarrow> 'n list"
    and par :: "'d \<Rightarrow> 'n \<Rightarrow> 'n option"
    and inv :: "'d \<Rightarrow> bool"
  assumes par_kids: "inv d \<Longrightarrow> alive d c \<Longrightarrow> par d c = Some p \<longleftrightarrow> c \<in> set (kids d p)"
    and kids_alive: "inv d \<Longrightarrow> c \<in> set (kids d p) \<Longrightarrow> alive d c \<and> alive d p"
    and finite_alive: "inv d \<Longrightarrow> finite {n. alive d n}"
    and no_cycle: "inv d \<Longrightarrow> acyclic {(c, p). c \<in> set (kids d p)}"
begin

primrec ancestor_chain :: "'d \<Rightarrow> 'n \<Rightarrow> 'n list \<Rightarrow> bool" where
  "ancestor_chain d c [] \<longleftrightarrow> par d c = None"
| "ancestor_chain d c (a # as) \<longleftrightarrow> par d c = Some a \<and> ancestor_chain d a as"

lemma up_wf:
  assumes "inv d"
  shows "wf {(p, c). c \<in> set (kids d p)}"
proof -
  have eq: "{(p, c). c \<in> set (kids d p)} = {(c, p). c \<in> set (kids d p)}\<inverse>" by auto
  have "{(c, p). c \<in> set (kids d p)} \<subseteq> {n. alive d n} \<times> {n. alive d n}"
    using kids_alive [OF assms] by auto
  then have "finite {(c, p). c \<in> set (kids d p)}"
    using finite_alive [OF assms] finite_subset by blast
  then show ?thesis
    unfolding eq using no_cycle [OF assms] by (rule finite_acyclic_wf_converse)
qed

lemma ancestor_chain_exists:
  assumes "inv d" "alive d c"
  shows "\<exists>as. ancestor_chain d c as"
  using assms(2)
proof (induction c rule: wf_induct_rule [OF up_wf [OF assms(1)]])
  case (1 c)
  show ?case
  proof (cases "par d c")
    case None
    then have "ancestor_chain d c []" by simp
    then show ?thesis ..
  next
    case (Some p)
    then have c: "c \<in> set (kids d p)" using par_kids [OF assms(1)] "1.prems" by simp
    then obtain as where "ancestor_chain d p as"
      using "1.IH" [of p] kids_alive [OF assms(1)] by blast
    with Some have "ancestor_chain d c (p # as)" by simp
    then show ?thesis ..
  qed
qed

lemma ancestor_chain_unique:
  "ancestor_chain d c as \<Longrightarrow> ancestor_chain d c bs \<Longrightarrow> as = bs"
proof (induction as arbitrary: c bs)
  case Nil
  then show ?case by (cases bs) simp_all
next
  case (Cons a as)
  then show ?case by (cases bs) auto
qed

end

definition kids_of :: "document \<Rightarrow> node_id \<Rightarrow> node_id list" where
  "kids_of d n = (case children d n of Some (Inr cs) \<Rightarrow> cs | _ \<Rightarrow> [])"

definition parent_of :: "document \<Rightarrow> node_id \<Rightarrow> node_id option" where
  "parent_of d n = (case parent d n of Inr p \<Rightarrow> p | Inl _ \<Rightarrow> None)"

lemma kids_of_represents:
  assumes "represents d kids"
  shows "kids_of d n = kids n"
proof (cases "nodes d n")
  case None
  then show ?thesis
    using representsD(5) [OF assms] by (simp add: kids_of_def children_def first_child_def node_at_def)
next
  case (Some r)
  then show ?thesis using children_kids [OF assms] by (simp add: kids_of_def)
qed

interpretation dom_forest: forest contains kids_of parent_of wf_document
proof
  fix d and c p :: node_id
  assume "wf_document d"
  then obtain kids where R: "represents d kids" by (auto simp: wf_document_def)
  note ko = kids_of_represents [OF R]
  show "finite {n. contains d n}"
    using representsD(1) [OF R] by (simp add: contains_def dom_def)
  show "acyclic {(c, p). c \<in> set (kids_of d p)}"
    using representsD(2) [OF R] by (simp add: ko parent_rel_kids [OF R, symmetric])
  show "contains d c \<Longrightarrow> (parent_of d c = Some p) = (c \<in> set (kids_of d p))"
    using kids_parent_iff [OF R] by (auto simp: contains_def ko parent_of_def parent_def node_at_def)
  show "c \<in> set (kids_of d p) \<Longrightarrow> contains d c \<and> contains d p"
    using kids_in_dom [OF R] by (simp add: contains_def ko)
qed

section \<open>Properties of the DOM\<close>

text \<open>
  C1. Every document a client can build is well formed: starting from a new document,
  whatever sequence of node creations, data mutations, appends, insertions, detachments
  and removals has returned, the sibling, child and parent links agree with one list of
  children per node, and no node is its own ancestor.
\<close>

theorem reachable_documents_well_formed:
  assumes "unat n + 1 < 2 ^ 64" "dom_step\<^sup>*\<^sup>* (new_continuing_from n) d"
  shows "wf_document d"
proof -
  have "wf_document (new_continuing_from n)"
    using new_continuing_from_represents [OF assms(1)] by (auto simp: wf_document_def)
  from dom_steps_ok [OF assms(2) this] show ?thesis by (simp add: step_ok_def)
qed

text \<open>
  C3. \<open>append_child\<close> on a detached child and a live parent that is not below it returns,
  puts the child last among the children of the parent, and changes no other list of
  children and no node's data.
\<close>

theorem append_child_refines:
  assumes "represents d kids" "contains d par" "parent d chd = Inr None"
    and "(par, chd) \<notin> (parent_rel (nodes d))\<^sup>*"
  shows "\<exists>d'. append_child d par chd = Inr d' \<and>
     represents d' (kids(par := kids par @ [chd])) \<and> same_content d d'"
  using assms append_child_spec [OF assms(1) _ _ _ assms(4)]
  by (auto simp: contains_def parent_def node_at_def res_simps)

text \<open>
  C4. \<open>insert_before\<close> with a reference that is a child of the parent puts the detached
  child immediately before the reference and changes nothing else.
\<close>

theorem insert_before_refines:
  assumes "represents d kids" "parent d chd = Inr None" "kids par = xs @ rf # ys"
    and "(par, chd) \<notin> (parent_rel (nodes d))\<^sup>*"
  shows "\<exists>d'. insert_before d par chd (Some rf) = Inr d' \<and>
     represents d' (kids(par := xs @ chd # rf # ys)) \<and> same_content d d'"
  using assms insert_before_spec [OF assms(1) _ _ assms(3,4)]
  by (auto simp: parent_def node_at_def res_simps)

text \<open>
  C5. \<open>detach\<close> on any live node returns, leaves it without a parent, takes it out of
  its parent's children and keeps it, its subtree and every other list of children.
\<close>

theorem detach_refines:
  assumes "represents d kids" "contains d i"
  shows "\<exists>d'. detach d i = Inr d' \<and> represents d' (\<lambda>n. remove1 i (kids n)) \<and>
     same_content d d' \<and> parent d' i = Inr None"
proof -
  obtain r where "nodes d i = Some r" using assms(2) by (auto simp: contains_def)
  from detach_spec [OF assms(1) this] show ?thesis
    by (fastforce simp: parent_def node_at_def)
qed

text \<open>
  C2. \<open>remove_subtree\<close> on any live node of a well-formed document returns (its recursion
  over children and siblings ends without a panic), frees exactly the node and its
  descendants, and leaves the rest of the tree as it was.
\<close>

theorem remove_subtree_frees_exactly_the_subtree:
  assumes "represents d kids" "contains d i"
  shows "\<exists>d'. remove_subtree d i = Some (Inr d') \<and>
     (\<forall>x. contains d' x \<longleftrightarrow> contains d x \<and> x \<notin> subtree (nodes d) i) \<and>
     represents d' (\<lambda>n. if n \<in> subtree (nodes d) i then [] else remove1 i (kids n)) \<and>
     (\<forall>x. contains d' x \<longrightarrow> data d' x = data d x)"
proof -
  obtain r where "nodes d i = Some r" using assms(2) by (auto simp: contains_def)
  from remove_subtree_spec [OF assms(1) this] obtain d' where
    d': "remove_subtree d i = Some (Inr d')"
    "represents d' (\<lambda>n. if n \<in> subtree (nodes d) i then [] else remove1 i (kids n))"
    and dat: "\<And>x. map_option r_data (nodes d' x) =
       (if x \<in> subtree (nodes d) i then None else map_option r_data (nodes d x))"
    by blast
  have "contains d' x \<longleftrightarrow> contains d x \<and> x \<notin> subtree (nodes d) i" for x
    using dat [of x] by (cases "nodes d' x"; cases "nodes d x") (auto simp: contains_def split: if_splits)
  moreover have "data d' x = data d x" if "contains d' x" for x
    using dat [of x] that
    by (cases "nodes d' x"; cases "nodes d x")
      (auto simp: contains_def data_def node_at_def split: if_splits)
  ultimately show ?thesis using d' by blast
qed

text \<open>
  C6. Node identifiers are never reused: an identifier that was allocated and no longer
  resolves stays unresolvable through every later sequence of steps.
\<close>

theorem node_ids_never_reused:
  assumes "wf_document d" "dom_step\<^sup>*\<^sup>* d d'" "\<not> contains d x" "unat x < unat (next_node_id d)"
  shows "\<not> contains d' x"
  using dom_steps_ok [OF assms(2,1)] assms(3,4) by (auto simp: step_ok_def contains_def)

text \<open>
  C7. A replacement document that continues the numbering of another (as a navigation
  does) never resolves an identifier that resolves in the document it replaces, whatever
  is built in it later.
\<close>

theorem continued_document_shares_no_id:
  assumes "wf_document d" "unat (next_node_id d) + 1 < 2 ^ 64" "contains d x"
    and "dom_step\<^sup>*\<^sup>* (new_continuing_from (next_node_id d)) e"
  shows "\<not> contains e x"
proof -
  let ?n = "new_continuing_from (next_node_id d)"
  obtain kids where R: "represents d kids" using assms(1) by (auto simp: wf_document_def)
  have lt: "unat x < unat (next_node_id d)"
    using representsD(7) [OF R, of x] assms(3) by (auto simp: contains_def)
  have "wf_document ?n"
    using new_continuing_from_represents [OF assms(2)] by (auto simp: wf_document_def)
  moreover have "next_node_id ?n = next_node_id d + 1" "nodes ?n x = None"
    using lt by (auto simp: new_continuing_from_def create_node_def allocate_def next_node_id_def)
  ultimately show ?thesis
    using dom_steps_ok [OF assms(4)] lt unat_plus_1_no_wrap [OF assms(2)]
    by (auto simp: step_ok_def contains_def)
qed

text \<open>
  C8. The dump is canonical: on well-formed documents whose trees hold only elements and
  text below the root, \<open>dump\<close> returns, and two documents of the same shape (equal up to
  the order in which attributes with distinct names were added) have identical dumps.
\<close>

theorem dump_canonical:
  assumes "wf_document d" "root d = Inr r" "tree_at d r (DNode Document ts)"
    and "wf_document e" "root e = Inr s" "tree_at e s (DNode Document us)"
    and "list_all2 same_shape ts us" "\<forall>t\<in>set ts. printable t"
  shows "\<exists>out. dump d = Some (Inr out) \<and> dump e = Some (Inr out)"
proof -
  have "map (render 0) us = map (render 0) ts"
    using assms(7) by (induction rule: list_all2_induct) (simp_all add: render_same_shape)
  moreover have "\<forall>t\<in>set us. printable t"
    using assms(7,8) by (fastforce simp: list_all2_conv_all_nth in_set_conv_nth dest: same_shape_printable)
  ultimately show ?thesis
    using dump_renders [OF assms(1-3,8)] dump_renders [OF assms(4-6)] by simp
qed

end
