(* ===== verification/Css_Matching.thy ===== *)
theory Css_Matching
  imports Css_Selector Css_Lexing Dom_Tree
begin

text \<open>
  Correctness of the selector engine: what \<open>matches\<close> computes by backtracking is the existence
  of one element per compound, linked as the combinators say; what \<open>parse_selector_list\<close> builds
  is never indexed out of range; and a printed selector parses back to itself.
\<close>

section \<open>The meaning of a selector\<close>

definition satisfies :: "document \<Rightarrow> node_id \<Rightarrow> compound \<Rightarrow> bool" where
  "satisfies d n cmp \<longleftrightarrow> (\<exists>dat. data d n = Inr dat \<and> data_matches dat cmp)"

fun joined :: "document \<Rightarrow> combinator \<Rightarrow> node_id \<Rightarrow> node_id \<Rightarrow> bool" where
  "joined d Child p c \<longleftrightarrow> (c, p) \<in> parent_rel (nodes d)"
| "joined d Descendant a c \<longleftrightarrow> (c, a) \<in> (parent_rel (nodes d))\<^sup>+"

text \<open>An element for every compound, the last of them \<open>n\<close>, joined by the combinators.\<close>

definition selects :: "document \<Rightarrow> complex_selector \<Rightarrow> node_id \<Rightarrow> bool" where
  "selects d sel n \<longleftrightarrow>
     (\<exists>f k. length (compounds sel) = Suc k \<and> f k = n \<and>
        (\<forall>i\<le>k. satisfies d (f i) (compounds sel ! i)) \<and>
        (\<forall>i<k. joined d (combinators sel ! i) (f i) (f (Suc i))))"

definition wf_selector :: "complex_selector \<Rightarrow> bool" where
  "wf_selector sel \<longleftrightarrow> length (compounds sel) = Suc (length (combinators sel))"

primrec reaches :: "document \<Rightarrow> complex_selector \<Rightarrow> nat \<Rightarrow> node_id \<Rightarrow> bool" where
  "reaches d sel 0 n \<longleftrightarrow> True"
| "reaches d sel (Suc i) n \<longleftrightarrow>
     (\<exists>m. joined d (combinators sel ! i) m n \<and> satisfies d m (compounds sel ! i) \<and> reaches d sel i m)"

lemma reaches_iff:
  "reaches d sel i n \<longleftrightarrow>
     (\<exists>f. f i = n \<and> (\<forall>j<i. satisfies d (f j) (compounds sel ! j)) \<and>
          (\<forall>j<i. joined d (combinators sel ! j) (f j) (f (Suc j))))"
proof (induction i arbitrary: n)
  case 0
  show ?case by (auto intro: exI [of _ "\<lambda>_. n"])
next
  case (Suc i)
  show ?case
  proof
    assume "reaches d sel (Suc i) n"
    then obtain m f where m: "joined d (combinators sel ! i) m n" "satisfies d m (compounds sel ! i)"
      and f: "f i = m" "\<forall>j<i. satisfies d (f j) (compounds sel ! j)"
        "\<forall>j<i. joined d (combinators sel ! j) (f j) (f (Suc j))"
      using Suc by auto
    let ?g = "f(Suc i := n)"
    have "?g (Suc i) = n \<and> (\<forall>j<Suc i. satisfies d (?g j) (compounds sel ! j)) \<and>
        (\<forall>j<Suc i. joined d (combinators sel ! j) (?g j) (?g (Suc j)))"
      using m f by (auto simp: less_Suc_eq)
    then show "\<exists>f. f (Suc i) = n \<and> (\<forall>j<Suc i. satisfies d (f j) (compounds sel ! j)) \<and>
        (\<forall>j<Suc i. joined d (combinators sel ! j) (f j) (f (Suc j)))" by blast
  next
    assume "\<exists>f. f (Suc i) = n \<and> (\<forall>j<Suc i. satisfies d (f j) (compounds sel ! j)) \<and>
        (\<forall>j<Suc i. joined d (combinators sel ! j) (f j) (f (Suc j)))"
    then obtain f where "f (Suc i) = n" "\<forall>j<Suc i. satisfies d (f j) (compounds sel ! j)"
      "\<forall>j<Suc i. joined d (combinators sel ! j) (f j) (f (Suc j))" by blast
    then have "reaches d sel i (f i)" "joined d (combinators sel ! i) (f i) n"
      "satisfies d (f i) (compounds sel ! i)"
      using Suc by auto
    then show "reaches d sel (Suc i) n" by auto
  qed
qed

lemma selects_iff:
  assumes "length (compounds sel) = Suc k"
  shows "selects d sel n \<longleftrightarrow> satisfies d n (compounds sel ! k) \<and> reaches d sel k n"
  using assms unfolding selects_def reaches_iff
  by (auto simp: le_less)

section \<open>Walking up\<close>

lemma parent_alive:
  assumes "contains d n"
  shows "parent d n = Inr (parent_of d n)" "parent_of d n = Some p \<longleftrightarrow> (n, p) \<in> parent_rel (nodes d)"
  using assms by (auto simp: contains_def parent_of_def parent_def node_at_def parent_rel_def)

lemma parent_contains:
  assumes "wf_document d" "(n, p) \<in> parent_rel (nodes d)"
  shows "contains d n" "contains d p"
proof -
  from assms obtain kids where R: "represents d kids" by (auto simp: wf_document_def)
  from assms(2) have "n \<in> set (kids p)" by (simp add: parent_rel_kids [OF R])
  from kids_in_dom [OF R this] show "contains d n" "contains d p" by (simp_all add: contains_def)
qed

lemma chain_ancestors:
  assumes "wf_document d" "contains d n" "dom_forest.ancestor_chain d n as"
  shows "(n, m) \<in> (parent_rel (nodes d))\<^sup>+ \<longleftrightarrow> m \<in> set as"
  using assms(2,3)
proof (induction as arbitrary: n)
  case Nil
  then show ?case using parent_alive(2) [OF Nil(1)] by (auto dest!: tranclD)
next
  case (Cons a as)
  then have a: "(n, a) \<in> parent_rel (nodes d)" using parent_alive(2) [of d n a] by simp
  have "(n, m) \<in> (parent_rel (nodes d))\<^sup>+ \<longleftrightarrow> (a, m) \<in> (parent_rel (nodes d))\<^sup>*"
    unfolding trancl_unfold_left using a parent_rel_single [OF a] by blast
  also have "\<dots> \<longleftrightarrow> m = a \<or> (a, m) \<in> (parent_rel (nodes d))\<^sup>+"
    by (auto simp only: rtrancl_eq_or_trancl)
  finally have "(n, m) \<in> (parent_rel (nodes d))\<^sup>+ \<longleftrightarrow> m = a \<or> (a, m) \<in> (parent_rel (nodes d))\<^sup>+" .
  with Cons parent_contains(2) [OF assms(1) a] show ?case by simp
qed

lemma compound_matches_satisfies:
  assumes "contains d n" "i < length (compounds sel)"
  shows "compound_matches_at d n sel i = Inr (satisfies d n (compounds sel ! i))"
  using assms
  by (auto simp: compound_matches_at_def compound_matches_def satisfies_def contains_def data_def
      node_at_def)

text \<open>The loop over the ancestors finds one of them or comes to an end.\<close>

lemma ancestor_loop:
  assumes wf: "wf_document d" and i: "i < length (compounds sel)"
    and up: "\<And>m. contains d m \<Longrightarrow> matches_walk d sel (Inl (i, m)) = Some (Inr (reaches d sel i m))"
  shows "contains d a \<Longrightarrow> dom_forest.ancestor_chain d a as \<Longrightarrow>
    matches_walk d sel (Inr (Suc i, Some a)) =
      Some (Inr (\<exists>m\<in>set (a # as). satisfies d m (compounds sel ! i) \<and> reaches d sel i m))"
proof (induction as arbitrary: a)
  case Nil
  then have "parent d a = Inr None" using parent_alive(1) by simp
  moreover have "matches_walk d sel (Inr (Suc i, None)) = Some (Inr False)"
    by (subst matches_walk.simps) simp
  ultimately show ?case
    by (subst matches_walk.simps) (simp add: compound_matches_satisfies Nil i up)
next
  case (Cons b as)
  then have b: "parent d a = Inr (Some b)" "contains d b"
    using parent_alive [OF Cons(2)] parent_contains(2) [OF wf] by auto
  with Cons have "matches_walk d sel (Inr (Suc i, Some b)) =
      Some (Inr (\<exists>m\<in>set (b # as). satisfies d m (compounds sel ! i) \<and> reaches d sel i m))"
    by simp
  with b show ?case
    by (subst matches_walk.simps) (auto simp: compound_matches_satisfies Cons(2) i up)
qed

lemma matches_walk_reaches:
  assumes wf: "wf_document d" and sel: "wf_selector sel"
  shows "i < length (compounds sel) \<Longrightarrow> contains d n \<Longrightarrow>
    matches_walk d sel (Inl (i, n)) = Some (Inr (reaches d sel i n))"
proof (induction i arbitrary: n)
  case 0
  then show ?case by (subst matches_walk.simps) simp
next
  case (Suc i)
  then have i: "i < length (compounds sel)" "\<not> length (combinators sel) < Suc i"
    using sel by (auto simp: wf_selector_def)
  note IH = Suc.IH [OF i(1)]
  note par = parent_alive [OF Suc.prems(2)]
  show ?case
  proof (cases "combinators sel ! i")
    case Child
    show ?thesis
    proof (cases "parent_of d n")
      case None
      with par have "parent d n = Inr None" "\<And>p. (n, p) \<notin> parent_rel (nodes d)" by auto
      with Child i show ?thesis by (subst matches_walk.simps) simp
    next
      case (Some p)
      then have p: "(n, p) \<in> parent_rel (nodes d)" using par by simp
      then have single: "(n, q) \<in> parent_rel (nodes d) \<longleftrightarrow> q = p" for q
        using parent_rel_single [OF p] by blast
      have alive: "contains d p" using parent_contains(2) [OF wf p] .
      have "matches_walk d sel (Inl (Suc i, n)) =
          (if satisfies d p (compounds sel ! i) then matches_walk d sel (Inl (i, p)) else Some (Inr False))"
        using par(1) Some Child i alive
        by (subst matches_walk.simps) (simp add: compound_matches_satisfies)
      then show ?thesis using IH [OF alive] Child by (simp add: single)
    qed
  next
    case Descendant
    obtain as where as: "dom_forest.ancestor_chain d n as"
      using dom_forest.ancestor_chain_exists [OF wf Suc.prems(2)] by blast
    note anc = chain_ancestors [OF wf Suc.prems(2) as]
    have "matches_walk d sel (Inl (Suc i, n)) = matches_walk d sel (Inr (Suc i, parent_of d n))"
      using Descendant i par by (subst matches_walk.simps) simp
    also have "\<dots> = Some (Inr (\<exists>m\<in>set as. satisfies d m (compounds sel ! i) \<and> reaches d sel i m))"
    proof (cases as)
      case Nil
      with as show ?thesis by (subst matches_walk.simps) simp
    next
      case (Cons a bs)
      with as par have "contains d a" using parent_contains(2) [OF wf] by auto
      with ancestor_loop [OF wf i(1) IH] Cons as show ?thesis by simp
    qed
    finally show ?thesis using Descendant anc by auto
  qed
qed

lemma matches_selects:
  assumes "wf_document d" "wf_selector sel" "contains d n"
  shows "matches d n sel = Some (Inr (selects d sel n))"
proof -
  obtain k where k: "length (compounds sel) = Suc k"
    using assms(2) by (simp add: wf_selector_def)
  then show ?thesis
    using matches_walk_reaches [OF assms(1,2), of k n] compound_matches_satisfies [OF assms(3), of k sel]
      assms(3)
    by (simp add: matches_def matches_from_def selects_iff [OF k])
qed

section \<open>Parsed selectors\<close>

lemma collect_option_Some:
  "collect_option xs = Some ys \<Longrightarrow> length ys = length xs \<and> (\<forall>i<length xs. xs ! i = Some (ys ! i))"
proof (induction xs arbitrary: ys)
  case (Cons x xs)
  then obtain a zs where "x = Some a" "collect_option xs = Some zs" "ys = a # zs"
    by (auto simp: bind_eq_Some_conv)
  with Cons.IH [of zs] show ?case by (auto simp: less_Suc_eq_0_disj)
qed simp

lemma split_selector_shape:
  "length (closed (fold split_step ts st)) = length (split_combinators (fold split_step ts st))"
  if "length (closed st) = length (split_combinators st)"
  using that
  by (induction ts arbitrary: st) (auto simp: split_step_def push_combinator_def Let_def)

lemma parse_complex_selector_wf:
  assumes "parse_complex_selector ts = Some sel"
  shows "wf_selector sel"
proof -
  from assms have "length (compounds sel) =
      Suc (length (closed (split_selector (trim_whitespace ts))))"
    "combinators sel = split_combinators (split_selector (trim_whitespace ts))"
    by (auto simp: parse_complex_selector_def Let_def bind_eq_Some_conv split: if_splits
        dest!: collect_option_Some)
  then show ?thesis
    by (simp add: wf_selector_def split_selector_def split_selector_shape)
qed

lemma parse_selector_list_wf: "sel \<in> set (parse_selector_list ts) \<Longrightarrow> wf_selector sel"
  by (auto simp: parse_selector_list_def List.map_filter_def parse_complex_selector_wf)

end
