(* ===== verification/Css_Styles.thy ===== *)
theory Css_Styles
  imports Css_Cascade Css_Matching Css_Lexing
begin

text \<open>
  Correctness of the cascade: which declaration wins, what every element of a document
  inherits, and on which style sheets the parser cannot panic.
\<close>

section \<open>The winning declaration\<close>

lemma fold_updates:
  "fold (\<lambda>m w. w(g m \<mapsto> h m)) xs w0 p =
     (if filter (\<lambda>m. g m = p) xs = [] then w0 p
      else Some (h (last (filter (\<lambda>m. g m = p) xs))))"
  by (induction xs arbitrary: w0) auto

lemma last_insort_key:
  "sorted (map k zs) \<Longrightarrow> zs \<noteq> [] \<Longrightarrow>
   last (insort_key k y zs) = (if k (last zs) < k y then y else last zs)"
proof (induction zs)
  case (Cons z zs)
  show ?case
  proof (cases "zs = []")
    case False
    have z: "k z \<le> k (last zs)" using Cons.prems False by auto
    have "insort_key k y zs \<noteq> []" by (cases zs) auto
    with Cons False show ?thesis using order.trans [of "k y" "k z" "k (last zs)"] z by auto
  qed auto
qed simp

text \<open>The last element of a stable sort is the last one with the greatest key.\<close>

lemma last_sort_key:
  assumes "xs \<noteq> []"
  shows "\<exists>pre post. xs = pre @ last (sort_key k xs) # post \<and>
    (\<forall>x\<in>set pre. k x \<le> k (last (sort_key k xs))) \<and>
    (\<forall>x\<in>set post. k x < k (last (sort_key k xs)))"
  using assms
proof (induction xs)
  case (Cons y ys)
  show ?case
  proof (cases "ys = []")
    case True
    then show ?thesis by (intro exI [of _ "[]"]) simp
  next
    case False
    let ?m = "last (sort_key k ys)"
    have s: "sort_key k ys \<noteq> []" using False by (metis length_0_conv length_sort)
    from Cons.IH [OF False] obtain pre post where IH: "ys = pre @ ?m # post"
      "\<forall>x\<in>set pre. k x \<le> k ?m" "\<forall>x\<in>set post. k x < k ?m" by blast
    have l: "last (sort_key k (y # ys)) = (if k ?m < k y then y else ?m)"
      using last_insort_key [OF sorted_sort_key s, of y] by simp
    show ?thesis
    proof (cases "k ?m < k y")
      case True
      have "x \<in> set ys \<Longrightarrow> k x \<le> k ?m" for x
        using IH(2,3) by (subst (asm) IH(1)) (auto simp: less_imp_le)
      with True l show ?thesis
        by (intro exI [of _ "[]"] exI [of _ ys]) (auto intro: le_less_trans)
    next
      case False
      with IH l show ?thesis
        by (intro exI [of _ "y # pre"] exI [of _ post]) (auto simp: not_less)
    qed
  qed
qed simp

abbreviation prop_of :: "matched \<Rightarrow> rstring" where
  "prop_of m \<equiv> decl_property (m_declaration m)"

lemma collect_winners_eq:
  "collect_winners ms p =
     (let xs = filter (\<lambda>m. prop_of m = p) ms
      in if xs = [] then None else Some (decl_value (m_declaration (last (sort_key cascade_key xs)))))"
proof -
  have "sort_key cascade_key xs = [] \<longleftrightarrow> xs = []" for xs :: "matched list"
    by (metis length_0_conv length_sort)
  then show ?thesis
    by (simp add: collect_winners_def fold_updates filter_sort Let_def)
qed


section \<open>Styles along the tree\<close>

definition is_element :: "document \<Rightarrow> node_id \<Rightarrow> bool" where
  "is_element d n \<longleftrightarrow> (\<exists>tag attrs. data d n = Inr (Element tag attrs))"

text \<open>
  The style of a node given by its ancestors, nearest first: elements compute theirs from the
  style of the nearest element above, other nodes pass it through.
\<close>

fun chain_style ::
  "document \<Rightarrow> (origin \<times> css_rule list) list \<Rightarrow> node_id list \<Rightarrow> computed_style option" where
  "chain_style d sheets [] = None"
| "chain_style d sheets (n # as) =
     (if is_element d n
      then (case compute_style_for d n sheets (chain_style d sheets as) of
              Some (Inr st) \<Rightarrow> Some st
            | _ \<Rightarrow> None)
      else chain_style d sheets as)"

definition sheets_wf :: "(origin \<times> css_rule list) list \<Rightarrow> bool" where
  "sheets_wf sheets \<longleftrightarrow>
     (\<forall>(org, rules)\<in>set sheets. \<forall>r\<in>set rules. \<forall>sel\<in>set (rule_selectors r). wf_selector sel)"

definition inline_ok :: "document \<Rightarrow> node_id \<Rightarrow> bool" where
  "inline_ok d n \<longleftrightarrow> (\<exists>decls. inline_style_declarations d n = Inr decls)"

lemma best_specificity_total:
  assumes "wf_document d" "contains d n" "\<forall>s\<in>set sels. wf_selector s"
  shows "\<exists>b. best_specificity d n sels = Some (Inr b)"
  using assms(3)
proof (induction sels)
  case (Cons s ss)
  then obtain b where "best_specificity d n ss = Some (Inr b)" by auto
  with Cons(2) matches_selects [OF assms(1) _ assms(2)] show ?case by simp
qed simp

lemma match_rules_total:
  assumes "wf_document d" "contains d n" "\<forall>r\<in>set rs. \<forall>s\<in>set (rule_selectors r). wf_selector s"
  shows "\<exists>ms. match_rules d n org k rs = Some (Inr ms)"
  using assms(3)
proof (induction rs arbitrary: k)
  case (Cons r rs)
  then obtain ms where "match_rules d n org (k + 1) rs = Some (Inr ms)" by force
  moreover obtain b where "best_specificity d n (rule_selectors r) = Some (Inr b)"
    using best_specificity_total [OF assms(1,2)] Cons(2) by fastforce
  ultimately show ?case by simp
qed simp

lemma match_sheets_total:
  assumes "wf_document d" "contains d n" "sheets_wf sheets"
  shows "\<exists>ms. match_sheets d n sheets = Some (Inr ms)"
  using assms(3)
proof (induction sheets)
  case (Cons sh sheets)
  obtain org rules where sh: "sh = (org, rules)" by fastforce
  from Cons obtain ms where "match_sheets d n sheets = Some (Inr ms)" by (auto simp: sheets_wf_def)
  moreover obtain ms' where "match_rules d n org 0 rules = Some (Inr ms')"
    using match_rules_total [OF assms(1,2), of rules org 0] Cons(2) by (auto simp: sheets_wf_def sh)
  ultimately show ?case by (simp add: sh)
qed simp

lemma compute_style_total:
  assumes "wf_document d" "contains d n" "sheets_wf sheets" "inline_ok d n"
  shows "\<exists>st. compute_style_for d n sheets ps = Some (Inr st)"
  using match_sheets_total [OF assms(1-3)] assms(4)
  by (auto simp: compute_style_for_def inline_ok_def)

definition ancestors :: "document \<Rightarrow> node_id \<Rightarrow> node_id list" where
  "ancestors d n = (THE as. dom_forest.ancestor_chain d n as)"

lemma ancestors_eq: "dom_forest.ancestor_chain d n as \<Longrightarrow> ancestors d n = as"
  unfolding ancestors_def by (rule the_equality) (auto dest: dom_forest.ancestor_chain_unique)

lemma ancestors_chain:
  assumes "wf_document d" "contains d n"
  shows "dom_forest.ancestor_chain d n (ancestors d n)"
  using dom_forest.ancestor_chain_exists [OF assms] ancestors_eq by metis

text \<open>What the walk over a set of nodes adds to the styles.\<close>

definition styled ::
  "document \<Rightarrow> (origin \<times> css_rule list) list \<Rightarrow> node_id set \<Rightarrow> styles \<Rightarrow> styles" where
  "styled d sheets A styles =
     (\<lambda>n. if n \<in> A \<and> is_element d n then chain_style d sheets (n # ancestors d n) else styles n)"

lemma styled_styled: "styled d sheets A (styled d sheets B s) = styled d sheets (A \<union> B) s"
  by (auto simp: styled_def)

lemma styled_empty [simp]: "styled d sheets {} s = s"
  by (simp add: styled_def)

lemma cascade_walk_list:
  assumes "\<And>c s. c \<in> set ns \<Longrightarrow>
    cascade_walk d sheets (Inl (ps, c, s)) = Some (Inr (styled d sheets (A c) s))"
  shows "cascade_walk d sheets (Inr (ps, ns, s)) = Some (Inr (styled d sheets (\<Union>c\<in>set ns. A c) s))"
  using assms
proof (induction ns arbitrary: s)
  case Nil
  show ?case by (subst cascade_walk.simps) simp
next
  case (Cons c ns)
  then show ?case
    by (subst cascade_walk.simps) (simp add: styled_styled Un_commute)
qed

lemma ancestors_kid:
  assumes "wf_document d" "represents d kids" "c \<in> set (kids n)"
  shows "ancestors d c = n # ancestors d n"
proof -
  have c: "(c, n) \<in> parent_rel (nodes d)" using assms by (simp add: parent_rel_kids)
  note alive = parent_contains [OF assms(1) c]
  have "parent_of d c = Some n" using parent_alive(2) [OF alive(1)] c by blast
  then have "dom_forest.ancestor_chain d c (n # ancestors d n)"
    using ancestors_chain [OF assms(1) alive(2)] by simp
  then show ?thesis by (rule ancestors_eq)
qed

lemma contains_data: "contains d n \<Longrightarrow> \<exists>dat. data d n = Inr dat"
  by (auto simp: contains_def data_def node_at_def)

text \<open>One step of the walk: the node's own style, then its children under it.\<close>

lemma cascade_walk_step:
  assumes wf: "wf_document d" and R: "represents d kids" and n: "contains d n"
    and sh: "sheets_wf sheets" and inl: "inline_ok d n"
  shows "cascade_walk d sheets (Inl (chain_style d sheets (ancestors d n), n, s)) =
    cascade_walk d sheets
      (Inr (chain_style d sheets (n # ancestors d n), kids n, styled d sheets {n} s))"
proof -
  obtain dat where dat: "data d n = Inr dat" using contains_data [OF n] by blast
  obtain r where "nodes d n = Some r" using n by (auto simp: contains_def)
  then have ch: "children d n = Some (Inr (kids n))" using children_kids [OF R] by blast
  obtain st where st: "compute_style_for d n sheets (chain_style d sheets (ancestors d n)) = Some (Inr st)"
    using compute_style_total [OF wf n sh inl] by blast
  have other: ?thesis if "dat = Document \<or> (\<exists>t. dat = Text t)"
  proof -
    have "\<not> is_element d n" using that dat by (auto simp: is_element_def)
    then have "styled d sheets {n} s = s" "chain_style d sheets (n # ancestors d n) =
        chain_style d sheets (ancestors d n)"
      by (auto simp: styled_def)
    with that dat ch show ?thesis by (subst cascade_walk.simps) auto
  qed
  show ?thesis
  proof (cases dat)
    case (Element tag attrs)
    then have el: "is_element d n" using dat by (auto simp: is_element_def)
    then have "styled d sheets {n} s = s(n \<mapsto> st)"
      using st by (auto simp: styled_def)
    with el dat Element st ch show ?thesis by (subst cascade_walk.simps) simp
  qed (rule other, blast)+
qed

lemma cascade_walk_subtree:
  assumes wf: "wf_document d" and R: "represents d kids" and sh: "sheets_wf sheets"
  shows "contains d n \<Longrightarrow> \<forall>m\<in>subtree (nodes d) n. inline_ok d m \<Longrightarrow>
    cascade_walk d sheets (Inl (chain_style d sheets (ancestors d n), n, s)) =
      Some (Inr (styled d sheets (subtree (nodes d) n) s))"
proof (induction n arbitrary: s rule: wf_induct_rule [OF wf_parent_rel [OF R]])
  case (1 n)
  note un = subtree_unfold [OF R, of n]
  have kid: "cascade_walk d sheets (Inl (chain_style d sheets (n # ancestors d n), c, s')) =
      Some (Inr (styled d sheets (subtree (nodes d) c) s'))" if c: "c \<in> set (kids n)" for c s'
  proof -
    have rel: "(c, n) \<in> parent_rel (nodes d)" using c by (simp add: parent_rel_kids [OF R])
    have "\<forall>m\<in>subtree (nodes d) c. inline_ok d m" using "1.prems"(2) c un by blast
    with "1.IH" [OF rel parent_contains(1) [OF wf rel]] show ?thesis
      by (simp add: ancestors_kid [OF wf R c])
  qed
  have "inline_ok d n" using "1.prems"(2) by simp
  then have "cascade_walk d sheets (Inl (chain_style d sheets (ancestors d n), n, s)) =
      Some (Inr (styled d sheets (\<Union>c\<in>set (kids n). subtree (nodes d) c) (styled d sheets {n} s)))"
    using cascade_walk_step [OF wf R "1.prems"(1) sh] cascade_walk_list [OF kid] by simp
  then show ?case by (simp add: styled_styled un)
qed

lemma subtree_contains:
  assumes "wf_document d" "contains d r" "n \<in> subtree (nodes d) r"
  shows "contains d n"
proof -
  from assms(3) have "(n, r) \<in> (parent_rel (nodes d))\<^sup>*" by (simp add: subtree_def)
  then show ?thesis
    by (cases rule: converse_rtranclE) (use assms parent_contains(1) in auto)
qed

section \<open>ASCII style sheets do not panic\<close>

fun ascii_token :: "css_token \<Rightarrow> bool" where
  "ascii_token (Hash s) \<longleftrightarrow> list_all is_ascii s"
| "ascii_token _ \<longleftrightarrow> True"

lemma ascii_rest:
  assumes "moves t t'" "list_all is_ascii (rest t)"
  shows "list_all is_ascii (rest t')"
  using assms set_drop_subset by (fastforce simp: moves_def list_all_iff)

lemma next_token_ascii:
  assumes "next_token t = (tok, t')" "list_all is_ascii (rest t)"
  shows "ascii_token tok"
proof -
  obtain saw u where sb: "skip_blanks t False = (saw, u)" by fastforce
  then have "moves t u" using skip_blanks_moves [of t False] by simp
  then have "list_all is_ascii (rest (snd (advance u)))"
    using ascii_rest assms(2) moves_advance by blast
  then have hash: "ascii_token (fst (consume_hash u))"
    by (auto simp: consume_hash_def consume_while_eq list_all_iff dest: set_takeWhileD)
  have other: "ascii_token (fst (consume_string u))" "ascii_token (fst (consume_at_keyword u))"
    "ascii_token (fst (consume_numeric u))" "ascii_token (fst (consume_ident_like u))"
    by (simp_all add: consume_string_def consume_at_keyword_def consume_numeric_def
        consume_ident_like_def Let_def case_prod_unfold split: option.split)
  have "ascii_token (fst (next_token t))"
    using sb hash other by (simp add: next_token_def split: option.split)
  with assms(1) show ?thesis by simp
qed

lemma tokenize_loop_ascii: "list_all is_ascii (rest t) \<Longrightarrow> list_all ascii_token (tokenize_loop t)"
proof (induction "length (rest t)" arbitrary: t rule: less_induct)
  case less
  obtain tok t' where n: "next_token t = (tok, t')" by fastforce
  show ?case
  proof (cases "tok = Eof")
    case True
    with n show ?thesis by (simp add: tokenize_loop.simps [of t])
  next
    case False
    have "list_all is_ascii (rest t')"
      using ascii_rest [OF reads_moves [OF next_token_reads [OF n False]] less(2)] .
    with less(1) [OF css_stream.progress [OF n False]] next_token_ascii [OF n less(2)]
    show ?thesis by (simp add: tokenize_loop_Cons [OF n False])
  qed
qed

lemma hex_byte_ascii:
  assumes "list_all is_ascii s" "2 \<le> length s" "\<And>v. \<exists>c. k v (drop 2 s) = Inr c"
  shows "\<exists>c. hex_byte s k = Inr c"
  using assms split_at_byte_ascii [of s 2] by (auto simp: hex_byte_def list_all_iff split: option.split)

lemma list_all_drop: "list_all P xs \<Longrightarrow> list_all P (drop n xs)"
  using set_drop_subset [of n xs] by (auto simp: list_all_iff)

lemma parse_hex_color_ascii:
  assumes "list_all is_ascii s"
  shows "\<exists>c. parse_hex_color s = Inr c"
proof -
  have "byte_len s = length s" using byte_len_ascii assms by (simp add: list_all_iff)
  with assms show ?thesis
    by (auto simp: parse_hex_color_def intro!: hex_byte_ascii list_all_drop)
qed

lemma parse_value_ascii:
  assumes "list_all ascii_token ts"
  shows "\<exists>v. parse_value ts = Inr v"
proof (cases "\<exists>tok. filter (\<lambda>t. t \<noteq> Whitespace) ts = [tok]")
  case True
  then obtain tok where f: "filter (\<lambda>t. t \<noteq> Whitespace) ts = [tok]" by blast
  then have "tok \<in> set (filter (\<lambda>t. t \<noteq> Whitespace) ts)" by simp
  with assms have "ascii_token tok" by (simp add: list_all_iff)
  then show ?thesis
    using parse_hex_color_ascii
    by (cases tok) (force simp: parse_value_def f Let_def split: option.split)+
next
  case False
  then have "parse_value ts = Inr None" by (auto simp: parse_value_def split: list.split)
  then show ?thesis by blast
qed

lemma ascii_sublist:
  "list_all ascii_token ts \<Longrightarrow> set us \<subseteq> set ts \<Longrightarrow> list_all ascii_token us"
  by (auto simp: list_all_iff)

lemma set_trim_ws: "set (trim_ws ts) \<subseteq> set ts"
  by (auto simp: trim_ws_def dest!: set_dropWhileD)

lemma set_split_on: "us \<in> set (split_on p ts) \<Longrightarrow> set us \<subseteq> set ts"
proof (induction ts arbitrary: us)
  case (Cons t ts)
  then show ?case by (cases "split_on p ts") (fastforce split: if_splits)+
qed simp

lemma set_components: "us \<in> set (components ts) \<Longrightarrow> set us \<subseteq> set ts"
  using set_trim_ws set_split_on by (fastforce simp: components_def)

lemma parse_component_value_ascii:
  "list_all ascii_token ts \<Longrightarrow> \<exists>v. parse_component_value p ts = Inr v"
  using parse_value_ascii [of ts]
  by (auto simp: parse_component_value_def split: option.split)

lemma collect_values_ok:
  "(\<And>c. c \<in> set cs \<Longrightarrow> \<exists>v. f c = Inr v) \<Longrightarrow> \<exists>v. collect_values f cs = Inr v"
proof (induction cs)
  case (Cons c cs)
  then obtain v r where "f c = Inr v" "collect_values f cs = Inr r" by force
  then show ?case by (cases v) simp_all
qed simp

lemma expand_box_ascii:
  assumes "list_all ascii_token ts"
  shows "\<exists>v. expand_box_shorthand_property pre suf ts is_length = Inr v"
proof -
  let ?f = "\<lambda>c. if is_length then parse_component_value (side_property pre ''top'' suf) c else parse_value c"
  have "\<exists>v. ?f c = Inr v" if "c \<in> set (components ts)" for c
    using ascii_sublist [OF assms set_components [OF that]] parse_value_ascii parse_component_value_ascii
    by simp
  then obtain v where "collect_values ?f (components ts) = Inr v"
    using collect_values_ok [of "components ts" ?f] by blast
  then show ?thesis
    by (auto simp: expand_box_shorthand_property_def split: option.split)
qed

lemma border_loop_ascii:
  "\<forall>c\<in>set cs. list_all ascii_token c \<Longrightarrow> \<exists>q. border_loop cs p = Inr q"
proof (induction cs arbitrary: p)
  case (Cons c cs)
  then obtain v where "parse_value c = Inr v" using parse_value_ascii by force
  with Cons show ?case by (cases v) auto
qed simp

lemma expand_property_ascii:
  assumes "list_all ascii_token ts"
  shows "\<exists>v. expand_property p ts = Inr v"
proof -
  have "\<exists>q. border_loop (components ts) b = Inr q" for b
    using border_loop_ascii ascii_sublist [OF assms set_components] by blast
  then have "\<exists>v. expand_border ts = Inr v" unfolding expand_border_def by (metis res_bind_simps(2))
  moreover obtain v where "parse_component_value p ts = Inr v"
    using parse_component_value_ascii [OF assms] by blast
  ultimately show ?thesis
    using expand_box_ascii [OF assms]
    by (simp add: expand_property_def split: option.split)
qed

lemma set_split_important: "set (fst (split_important ts)) \<subseteq> set ts"
proof -
  have "set (trim_ws (rev before')) \<subseteq> set ts"
    if "rev ts = x # before" "rev (trim_ws (rev before)) = y # before'" for x y before before'
  proof -
    have "set before' \<subseteq> set (rev (trim_ws (rev before)))" by (simp add: that(2) subset_insertI)
    also have "\<dots> \<subseteq> set before" using set_trim_ws [of "rev before"] by simp
    also have "\<dots> \<subseteq> set (rev ts)" by (simp add: that(1) subset_insertI)
    finally show ?thesis using set_trim_ws [of "rev before'"] by simp
  qed
  then show ?thesis
    by (auto simp: split_important_def split: list.split css_token.split)
qed

lemma set_declaration_head:
  assumes "parse_declaration_head us = Some (p, v, imp)"
  shows "set v \<subseteq> set us"
proof -
  from assms obtain x y vs where t: "trim_ws us = x # y # vs" and v: "(v, imp) = split_important (trim_ws vs)"
    by (auto simp: parse_declaration_head_def split: list.splits css_token.splits)
  have "set v \<subseteq> set vs"
    using set_split_important [of "trim_ws vs"] set_trim_ws [of vs] v by (metis fst_conv order.trans)
  also have "\<dots> \<subseteq> set (trim_ws us)" by (auto simp: t)
  finally show ?thesis using set_trim_ws by blast
qed

lemma parse_declarations_ascii:
  assumes "list_all ascii_token ts"
  shows "\<exists>ds. parse_declarations ts = Inr ds"
proof -
  have head: "list_all ascii_token v"
    if "parse_declaration_head us = Some (p, v, imp)" "list_all ascii_token us" for us p v imp
    using ascii_sublist [OF that(2) set_declaration_head [OF that(1)]] .
  have "\<exists>ds. parse_declarations_loop uss = Inr ds" if "\<forall>us\<in>set uss. list_all ascii_token us" for uss
    using that
  proof (induction uss)
    case (Cons us uss)
    then obtain ds where ds: "parse_declarations_loop uss = Inr ds" by auto
    show ?case
    proof (cases "parse_declaration_head us")
      case (Some h)
      obtain p v imp where h: "h = (p, v, imp)" by (cases h) auto
      with head Some Cons(2) expand_property_ascii [of v p] ds show ?thesis by auto
    qed (simp add: ds)
  qed simp
  moreover have "\<forall>us\<in>set (split_on (\<lambda>t. t = Semicolon) ts). list_all ascii_token us"
    using ascii_sublist [OF assms set_split_on] by blast
  ultimately show ?thesis by (simp add: parse_declarations_def)
qed

lemma set_skip_at_rule: "set (skip_at_rule ts depth) \<subseteq> set ts"
  by (induction ts depth rule: skip_at_rule.induct) auto

definition rules_wf :: "css_rule list \<Rightarrow> bool" where
  "rules_wf rules \<longleftrightarrow> (\<forall>r\<in>set rules. \<forall>sel\<in>set (rule_selectors r). wf_selector sel)"

lemma parse_rules_ascii:
  "list_all ascii_token ts \<Longrightarrow> \<exists>rs. parse_rules ts = Inr rs \<and> rules_wf rs"
proof (induction "length ts" arbitrary: ts rule: less_induct)
  case less
  show ?case
  proof (cases ts)
    case Nil
    then show ?thesis by (simp add: parse_rules.simps rules_wf_def)
  next
    case (Cons t ts')
    have skip: "\<exists>rs. parse_rules us = Inr rs \<and> rules_wf rs"
      if "length us < length ts" "set us \<subseteq> set ts" for us
      using less that ascii_sublist by blast
    consider (ws) "t = Whitespace" | (at) "t \<noteq> Whitespace" "is_at_keyword t"
      | (block) "t \<noteq> Whitespace" "\<not> is_at_keyword t" by blast
    then show ?thesis
    proof cases
      case ws
      then show ?thesis
        using skip [of ts'] Cons by (subst parse_rules.simps) (simp add: subset_insertI)
    next
      case at
      have "length (skip_at_rule ts' 0) < length ts" "set (skip_at_rule ts' 0) \<subseteq> set ts"
        using length_skip_at_rule [of ts' 0] set_skip_at_rule [of ts' 0] Cons by auto
      with at Cons skip show ?thesis by (subst parse_rules.simps) simp
    next
      case block
      show ?thesis
      proof (cases "next_block ts")
        case None
        with block Cons show ?thesis by (subst parse_rules.simps) (simp add: rules_wf_def)
      next
        case (Some blk)
        obtain a b c where blk: "next_block ts = Some (a, b, c)" using Some by (cases blk) auto
        note ts = next_block_append [OF blk]
        obtain rs where rs: "parse_rules c = Inr rs" "rules_wf rs" using skip [of c] by (auto simp: ts)
        have "set b \<subseteq> set ts" by (subst ts) auto
        then obtain ds where ds: "parse_declarations b = Inr ds"
          using parse_declarations_ascii ascii_sublist [OF less(2)] by blast
        have "parse_rules ts =
          (if parse_selector_list a = [] then parse_rules c
           else Inr (\<lparr>rule_selectors = parse_selector_list a, rule_declarations = ds\<rparr> # rs))"
          using block Cons blk ds rs by (subst parse_rules.simps) (simp add: Let_def)
        then show ?thesis using rs parse_selector_list_wf [of _ a] by (auto simp: rules_wf_def)
      qed
    qed
  qed
qed

section \<open>Comparing keys\<close>


section \<open>Inline declarations\<close>

lemma inline_key: "\<not> decl_important decl \<Longrightarrow> cascade_key (inline_matched decl) = (False, 1, (- 1, 0, 0), - 1)"
  by (simp add: cascade_key_def inline_matched_def)

lemma selector_key_below_inline:
  assumes "\<not> decl_important (m_declaration m)" "fst (m_specificity m) < - 1"
  shows "cascade_key m < (False, 1, (- 1, 0, 0), - 1)"
  using assms by (cases m; cases "m_origin m") (auto simp: cascade_key_def less_prod_def)

lemma last_sort_key_tail:
  assumes "ys \<noteq> []" "\<And>x. x \<in> set xs \<Longrightarrow> k x < c" "\<And>y. y \<in> set ys \<Longrightarrow> k y = c"
  shows "last (sort_key k (xs @ ys)) = last ys"
proof -
  let ?m = "last (sort_key k (xs @ ys))"
  obtain pre post where s: "xs @ ys = pre @ ?m # post" "\<forall>x\<in>set post. k x < k ?m" "\<forall>x\<in>set pre. k x \<le> k ?m"
    using last_sort_key [of "xs @ ys" k] assms(1) by blast
  have "k (last ys) \<le> k ?m"
  proof -
    have "last ys \<in> set (pre @ ?m # post)" using assms(1) s(1) by (metis Un_iff last_in_set set_append)
    then show ?thesis using s(2,3) by (auto simp: less_imp_le)
  qed
  then have c: "k ?m = c"
  proof -
    have "?m \<in> set xs \<or> ?m \<in> set ys" by (metis Un_iff in_set_conv_decomp s(1) set_append)
    then show ?thesis using \<open>k (last ys) \<le> k ?m\<close> assms by fastforce
  qed
  have "post = []"
  proof (rule ccontr)
    assume "post \<noteq> []"
    then have "last ys = last post" using s(1) assms(1) by (metis last_ConsR last_appendR list.distinct(1))
    then show False using s(2) c assms(1,3) \<open>post \<noteq> []\<close> by (metis last_in_set less_irrefl)
  qed
  then show ?thesis using s(1) assms(1) by (metis last_appendR last_snoc)
qed

section \<open>Properties\<close>


text \<open>
  C12. An inline \<open>style\<close> declaration without \<open>!important\<close> beats every declaration of a style sheet
  that is not important either, whatever the specificity of its selector below the saturated
  one; among inline declarations of one property the last wins.
\<close>

theorem inline_style_wins:
  assumes "decl \<in> set inl" "decl_property decl = p"
    and "\<And>decl. decl \<in> set inl \<Longrightarrow> decl_property decl = p \<Longrightarrow> \<not> decl_important decl"
    and "\<And>m. m \<in> set ms \<Longrightarrow> prop_of m = p \<Longrightarrow>
      \<not> decl_important (m_declaration m) \<and> fst (m_specificity m) < - 1"
  shows "collect_winners (ms @ map inline_matched inl) p =
    Some (decl_value (last (filter (\<lambda>decl. decl_property decl = p) inl)))"
proof -
  let ?xs = "filter (\<lambda>m. prop_of m = p) ms"
  let ?ds = "filter (\<lambda>decl. decl_property decl = p) inl"
  let ?ys = "map inline_matched ?ds"
  have ne: "?ds \<noteq> []" using assms(1,2) by (auto simp: filter_empty_conv)
  have f: "filter (\<lambda>m. prop_of m = p) (ms @ map inline_matched inl) = ?xs @ ?ys"
    by (simp add: filter_map comp_def inline_matched_def)
  have "last (sort_key cascade_key (?xs @ ?ys)) = last ?ys"
  proof (rule last_sort_key_tail)
    show "?ys \<noteq> []" using ne by simp
    show "cascade_key x < (False, 1, (- 1, 0, 0), - 1)" if "x \<in> set ?xs" for x
      using that assms(4) selector_key_below_inline by simp
    show "cascade_key y = (False, 1, (- 1, 0, 0), - 1)" if "y \<in> set ?ys" for y
      using that assms(3) inline_key by auto
  qed
  then show ?thesis
    unfolding collect_winners_eq f using ne by (simp add: last_map inline_matched_def)
qed

text \<open>
  C10. On a well-formed document with style sheets whose selectors are well formed and inline
  styles that parse, \<open>cascade\<close> returns. The result has a style for exactly the elements below
  the root, and the style of each is the one computed from the style of the nearest element
  above it.
\<close>

theorem cascade_styles_every_element:
  assumes "wf_document d" "doc_root d = Some r" "contains d r" "parent_of d r = None"
    and "sheets_wf sheets" "\<forall>n\<in>subtree (nodes d) r. inline_ok d n"
  shows "\<exists>styles. cascade d sheets = Some (Inr styles) \<and>
    (\<forall>n. styles n =
       (if n \<in> subtree (nodes d) r \<and> is_element d n
        then chain_style d sheets (n # ancestors d n) else None)) \<and>
    (\<forall>n\<in>subtree (nodes d) r. is_element d n \<longrightarrow> styles n \<noteq> None)"
proof -
  obtain kids where R: "represents d kids" using assms(1) by (auto simp: wf_document_def)
  have "ancestors d r = []" using assms(4) by (intro ancestors_eq) simp
  with cascade_walk_subtree [OF assms(1) R assms(5,3,6), of Map.empty]
  have c: "cascade d sheets = Some (Inr (styled d sheets (subtree (nodes d) r) Map.empty))"
    using assms(2) by (simp add: cascade_def root_def cascade_subtree_def)
  have "chain_style d sheets (n # ancestors d n) \<noteq> None"
    if "n \<in> subtree (nodes d) r" "is_element d n" for n
    using compute_style_total [OF assms(1) subtree_contains [OF assms(1,3) that(1)] assms(5)] assms(6) that
    by (auto split: option.split sum.split) (metis Inr_not_Inl option.distinct(1) option.inject)+
  with c show ?thesis by (intro exI) (auto simp: styled_def)
qed

text \<open>
  C15. A style sheet of ASCII characters is parsed without a panic, whatever it contains, and
  every selector of the result can be matched.
\<close>

theorem ascii_stylesheet_parses:
  assumes "list_all is_ascii s"
  shows "\<exists>rules. parse s = Inr rules \<and> rules_wf rules"
proof -
  have "list_all ascii_token (tokenize s)"
    using tokenize_loop_ascii [of "new_tokenizer s"] assms
    by (simp add: tokenize_def new_tokenizer_def rest_def)
  then show ?thesis unfolding parse_def by (rule parse_rules_ascii)
qed


end
