(* ===== verification/Css_Selector_Syntax.thy ===== *)
theory Css_Selector_Syntax
  imports Css_Matching
begin

text \<open>
  Selector text and selectors: printing a selector and parsing the text through the tokenizer
  gives the selector back.
\<close>

section \<open>Printing\<close>

fun print_simple :: "simple_selector \<Rightarrow> rstring" where
  "print_simple Universal = [ch CHR ''*'']"
| "print_simple (Type t) = t"
| "print_simple (Class c) = ch CHR ''.'' # c"
| "print_simple (Id i) = ch CHR ''#'' # i"
| "print_simple (AttrPresence a) = ch CHR ''['' # a @ [ch CHR '']'']"
| "print_simple (AttrEquals a v) =
     ch CHR ''['' # a @ ch CHR ''='' # (ch CHR 0x22 # escape (ch CHR 0x22) v @ [ch CHR 0x22]) @
     [ch CHR '']'']"

definition print_compound :: "compound \<Rightarrow> rstring" where
  "print_compound c = concat (map print_simple (simple_selectors c))"

fun print_combinator :: "combinator \<Rightarrow> rstring" where
  "print_combinator Descendant = [32]"
| "print_combinator Child = [ch CHR ''>'']"

fun print_tail :: "combinator list \<Rightarrow> compound list \<Rightarrow> rstring" where
  "print_tail (k # ks) (c # cs) = print_combinator k @ print_compound c @ print_tail ks cs"
| "print_tail _ _ = []"

definition print_selector :: "complex_selector \<Rightarrow> rstring" where
  "print_selector sel =
     (case compounds sel of
        [] \<Rightarrow> []
      | c # cs \<Rightarrow> print_compound c @ print_tail (combinators sel) cs)"

definition is_name :: "rstring \<Rightarrow> bool" where
  "is_name w \<longleftrightarrow> name_start w \<and> list_all is_ident_continue w"

text \<open>
  Names are identifiers, the case-insensitive ones in lower case. A type selector is the
  first of its compound: after another name it would be read as part of it.
\<close>

fun printable_simple :: "simple_selector \<Rightarrow> bool" where
  "printable_simple Universal \<longleftrightarrow> True"
| "printable_simple (Type t) \<longleftrightarrow> is_name t \<and> to_ascii_lowercase t = t"
| "printable_simple (Class c) \<longleftrightarrow> is_name c"
| "printable_simple (Id i) \<longleftrightarrow> list_all is_ident_continue i"
| "printable_simple (AttrPresence a) \<longleftrightarrow> is_name a \<and> to_ascii_lowercase a = a"
| "printable_simple (AttrEquals a v) \<longleftrightarrow> is_name a \<and> to_ascii_lowercase a = a"

fun is_type :: "simple_selector \<Rightarrow> bool" where
  "is_type (Type _) \<longleftrightarrow> True"
| "is_type _ \<longleftrightarrow> False"

definition printable_compound :: "compound \<Rightarrow> bool" where
  "printable_compound c \<longleftrightarrow>
     simple_selectors c \<noteq> [] \<and> list_all printable_simple (simple_selectors c) \<and>
     list_all (\<lambda>s. \<not> is_type s) (tl (simple_selectors c))"

definition printable_selector :: "complex_selector \<Rightarrow> bool" where
  "printable_selector sel \<longleftrightarrow> wf_selector sel \<and> list_all printable_compound (compounds sel)"

section \<open>The tokens of a printed selector\<close>

fun simple_tokens :: "simple_selector \<Rightarrow> css_token list" where
  "simple_tokens Universal = [Delim (ch CHR ''*'')]"
| "simple_tokens (Type t) = [Ident t]"
| "simple_tokens (Class c) = [Delim (ch CHR ''.''), Ident c]"
| "simple_tokens (Id i) = [Hash i]"
| "simple_tokens (AttrPresence a) = [LeftBracket, Ident a, RightBracket]"
| "simple_tokens (AttrEquals a v) =
     [LeftBracket, Ident a, Delim (ch CHR ''=''), QuotedString v, RightBracket]"

definition compound_tokens :: "compound \<Rightarrow> css_token list" where
  "compound_tokens c = concat (map simple_tokens (simple_selectors c))"

fun combinator_token :: "combinator \<Rightarrow> css_token" where
  "combinator_token Descendant = Whitespace"
| "combinator_token Child = Delim (ch CHR ''>'')"

fun tail_tokens :: "combinator list \<Rightarrow> compound list \<Rightarrow> css_token list" where
  "tail_tokens (k # ks) (c # cs) = combinator_token k # compound_tokens c @ tail_tokens ks cs"
| "tail_tokens _ _ = []"

lemma lexes_ident: "is_name w \<Longrightarrow> ends_name r \<Longrightarrow> lexes r ts \<Longrightarrow> lexes (w @ r) (Ident w # ts)"
  by (auto simp: is_name_def intro: lexes.tok spells.ident)

lemma lexes_delim: "is_delim c r \<Longrightarrow> lexes r ts \<Longrightarrow> lexes (c # r) (Delim c # ts)"
  using lexes.tok [OF spells.delim] by force

lemma lexes_punct: "(c, tok) \<in> set punctuation \<Longrightarrow> lexes r ts \<Longrightarrow> lexes (c # r) (tok # ts)"
  using lexes.tok [OF spells.punct] by force

lemma lexes_hash:
  "list_all is_ident_continue w \<Longrightarrow> ends_name r \<Longrightarrow> lexes r ts \<Longrightarrow>
   lexes (ch CHR ''#'' # w @ r) (Hash w # ts)"
  using lexes.tok [OF spells.hash] by force

lemma lexes_string:
  "lexes r ts \<Longrightarrow>
   lexes (ch CHR 0x22 # escape (ch CHR 0x22) s @ ch CHR 0x22 # r) (QuotedString s # ts)"
  using lexes.tok [OF spells.str, of "ch CHR 0x22" r ts s] by simp

lemma delims: "is_delim (ch CHR ''*'') r" "is_delim (ch CHR ''='') r" "is_delim (ch CHR ''>'') r"
  by (auto simp: is_delim_def punctuation_def is_whitespace_def is_ident_start_def char_class_defs)

lemma brackets:
  "(ch CHR ''['', LeftBracket) \<in> set punctuation" "(ch CHR '']'', RightBracket) \<in> set punctuation"
  by (simp_all add: punctuation_def)

lemmas lex_intros =
  lexes_ident lexes_delim lexes_hash [simplified] lexes_string [simplified]
  lexes_punct [OF brackets(1), simplified] lexes_punct [OF brackets(2), simplified] delims [simplified]

lemma ends_name_simps [simp]:
  "ends_name []" "ends_name (c # r) \<longleftrightarrow> \<not> is_ident_continue c"
  by (simp_all add: ends_name_def next_is_def)

lemma is_ident_continue_punct:
  "\<not> is_ident_continue (ch CHR ''*'')" "\<not> is_ident_continue (ch CHR ''.'')"
  "\<not> is_ident_continue (ch CHR ''#'')" "\<not> is_ident_continue (ch CHR ''['')"
  "\<not> is_ident_continue (ch CHR '']'')" "\<not> is_ident_continue (ch CHR ''='')"
  "\<not> is_ident_continue (ch CHR ''>'')" "\<not> is_ident_continue 32"
  by (simp_all add: is_ident_continue_def char_class_defs)

lemma delim_dot:
  assumes "is_name w"
  shows "is_delim (ch CHR ''.'') (w @ r)"
proof -
  obtain c cs where w: "w = c # cs" "is_ident_start c"
    using assms by (cases w) (auto simp: is_name_def name_start_def)
  have dot: "\<not> is_whitespace (ch CHR ''.'')" "\<not> is_ascii_digit (ch CHR ''.'')"
    "\<not> is_ident_start (ch CHR ''.'')" "ch CHR ''.'' \<notin> fst ` set punctuation"
    by (simp_all add: is_whitespace_def is_ident_start_def char_class_defs punctuation_def)
  show ?thesis
    using dot is_ident_start_not(1) [OF w(2)] by (simp add: is_delim_def w(1) next_is_def)
qed

lemma lexes_simple:
  assumes "printable_simple s" "ends_name r" "lexes r ts"
  shows "lexes (print_simple s @ r) (simple_tokens s @ ts)"
  using assms is_ident_continue_punct delim_dot [simplified]
  by (cases s) (auto intro!: lex_intros)

lemma simple_starts:
  assumes "printable_simple s" "\<not> is_type s"
  shows "ends_name (print_simple s @ r)"
  using assms is_ident_continue_punct by (cases s) auto

lemma lexes_simples:
  assumes "list_all printable_simple ss" "list_all (\<lambda>s. \<not> is_type s) (tl ss)" "ends_name r" "lexes r ts"
  shows "lexes (concat (map print_simple ss) @ r) (concat (map simple_tokens ss) @ ts)"
  using assms(1,2)
proof (induction ss)
  case (Cons s ss)
  then have IH: "lexes (concat (map print_simple ss) @ r) (concat (map simple_tokens ss) @ ts)"
    by (cases ss) auto
  have "ends_name (concat (map print_simple ss) @ r)"
    using Cons(2,3) assms(3) simple_starts by (cases ss) auto
  with Cons(2) IH lexes_simple [of s] show ?case by simp
qed (use assms in simp)

lemma lexes_compound:
  "printable_compound c \<Longrightarrow> ends_name r \<Longrightarrow> lexes r ts \<Longrightarrow>
   lexes (print_compound c @ r) (compound_tokens c @ ts)"
  by (simp add: print_compound_def compound_tokens_def printable_compound_def lexes_simples)

lemma compound_not_blank:
  assumes "printable_compound c"
  shows "\<not> blank_ahead (print_compound c @ r)"
proof -
  from assms obtain s ss where ss: "simple_selectors c = s # ss" and s: "printable_simple s"
    by (cases "simple_selectors c") (auto simp: printable_compound_def)
  have name: "\<exists>x xs. w = x # xs \<and> \<not> is_whitespace x \<and> x \<noteq> ch CHR ''/''" if "is_name w" for w
    using that is_ident_start_not(2) by (cases w) (auto simp: is_name_def name_start_def)
  have "\<exists>x xs. print_simple s = x # xs \<and> \<not> is_whitespace x \<and> x \<noteq> ch CHR ''/''"
    using s name by (cases s) (simp_all add: is_whitespace_def)
  then obtain x xs where "print_simple s = x # xs" "\<not> is_whitespace x" "x \<noteq> ch CHR ''/''"
    by blast
  then show ?thesis by (simp add: print_compound_def ss blank_ahead_Cons)
qed

lemma lexes_tail:
  "length ks = length cs \<Longrightarrow> list_all printable_compound cs \<Longrightarrow>
   lexes (print_tail ks cs) (tail_tokens ks cs) \<and> ends_name (print_tail ks cs)"
proof (induction ks cs rule: print_tail.induct)
  case (1 k ks c cs)
  then have IH: "lexes (print_tail ks cs) (tail_tokens ks cs)" "ends_name (print_tail ks cs)" by auto
  have pc: "printable_compound c" using 1(3) by simp
  have l: "lexes (print_compound c @ print_tail ks cs) (compound_tokens c @ tail_tokens ks cs)"
    using pc IH by (simp add: lexes_compound)
  show ?case
  proof (cases k)
    case Descendant
    have "lexes (32 # [] @ print_compound c @ print_tail ks cs)
        (Whitespace # compound_tokens c @ tail_tokens ks cs)"
      by (rule lexes.blank [OF _ blanks.none compound_not_blank [OF pc] l]) (simp add: is_whitespace_def)
    with Descendant show ?thesis using is_ident_continue_punct by simp
  next
    case Child
    with l show ?thesis using is_ident_continue_punct delims(3) by (simp add: lexes_delim)
  qed
qed (auto intro: lexes.finish)

lemma tokenize_print_selector:
  assumes "printable_selector sel" "compounds sel = c # cs"
  shows "tokenize (print_selector sel) = compound_tokens c @ tail_tokens (combinators sel) cs"
proof -
  have t: "lexes (print_tail (combinators sel) cs) (tail_tokens (combinators sel) cs)"
    "ends_name (print_tail (combinators sel) cs)"
    using lexes_tail [of "combinators sel" cs] assms
    by (auto simp: printable_selector_def wf_selector_def)
  have "lexes (print_selector sel) (compound_tokens c @ tail_tokens (combinators sel) cs)"
    using t assms lexes_compound [of c]
    by (auto simp: print_selector_def printable_selector_def)
  then show ?thesis
    using tokenize_loop_lexes [of _ _ "new_tokenizer (print_selector sel)"]
    by (simp add: tokenize_def new_tokenizer_def rest_def)
qed

section \<open>Parsing the tokens\<close>

lemma parse_simple_tokens:
  assumes "printable_simple s"
  shows "parse_simple_selectors_loop (simple_tokens s @ ts) acc =
    parse_simple_selectors_loop ts (acc @ [s])"
  using assms by (cases s) auto

lemma parse_simples:
  "list_all printable_simple ss \<Longrightarrow>
   parse_simple_selectors_loop (concat (map simple_tokens ss)) acc = Some (acc @ ss)"
  by (induction ss arbitrary: acc) (simp_all add: parse_simple_tokens)

lemma simple_tokens_nonempty [simp]: "simple_tokens s \<noteq> []"
  by (cases s) simp_all

lemma parse_compound_tokens:
  assumes "printable_compound c"
  shows "map_option (\<lambda>ss. \<lparr>simple_selectors = ss\<rparr>) (parse_simple_selectors (compound_tokens c)) = Some c"
  using assms parse_simples [of "simple_selectors c" "[]"]
  by (auto simp: printable_compound_def parse_simple_selectors_def compound_tokens_def neq_Nil_conv)

text \<open>Tokens of a compound are neither blanks nor combinators nor commas.\<close>

definition inner_token :: "css_token \<Rightarrow> bool" where
  "inner_token t \<longleftrightarrow> t \<noteq> Whitespace \<and> t \<noteq> Delim (ch CHR ''>'') \<and> t \<noteq> Comma"

lemma compound_tokens_inner: "list_all inner_token (compound_tokens c)"
proof -
  have "list_all inner_token (simple_tokens s)" for s
    by (cases s) (simp_all add: inner_token_def)
  then show ?thesis by (auto simp: compound_tokens_def list_all_iff)
qed

lemma compound_tokens_nonempty: "printable_compound c \<Longrightarrow> compound_tokens c \<noteq> []"
  by (cases "simple_selectors c") (auto simp: printable_compound_def compound_tokens_def)

lemma fold_split_inner:
  assumes "list_all inner_token ts" "\<not> pending_whitespace st"
  shows "fold split_step ts st = st\<lparr>open_tokens := open_tokens st @ ts\<rparr>"
  using assms
proof (induction ts arbitrary: st)
  case (Cons t ts)
  then have "split_step t st = st\<lparr>open_tokens := open_tokens st @ [t]\<rparr>"
    by (simp add: split_step_def inner_token_def Let_def)
  with Cons show ?case by simp
qed simp

lemma fold_split_compound:
  assumes "printable_compound c" "\<not> pending_whitespace st" "open_tokens st \<noteq> []"
  shows "fold split_step (combinator_token k # compound_tokens c) st =
    \<lparr>closed = closed st @ [open_tokens st], open_tokens = compound_tokens c,
     split_combinators = split_combinators st @ [k], pending_whitespace = False\<rparr>"
proof (cases k)
  case Descendant
  obtain t ts where t: "compound_tokens c = t # ts"
    using compound_tokens_nonempty [OF assms(1)] by (cases "compound_tokens c") auto
  have i: "inner_token t" "list_all inner_token ts" using compound_tokens_inner [of c] by (auto simp: t)
  have "fold split_step [combinator_token k, t] st =
    \<lparr>closed = closed st @ [open_tokens st], open_tokens = [t],
     split_combinators = split_combinators st @ [k], pending_whitespace = False\<rparr>"
    using Descendant i assms(3) by (cases st) (simp add: split_step_def inner_token_def push_combinator_def)
  then show ?thesis using fold_split_inner [OF i(2)] by (simp add: t)
next
  case Child
  then have "split_step (combinator_token k) st =
    \<lparr>closed = closed st @ [open_tokens st], open_tokens = [],
     split_combinators = split_combinators st @ [k], pending_whitespace = False\<rparr>"
    by (cases st) (simp add: split_step_def push_combinator_def)
  then show ?thesis using fold_split_inner [OF compound_tokens_inner] by simp
qed

lemma fold_split_tail:
  assumes "length ks = length cs" "list_all printable_compound cs"
    "\<not> pending_whitespace st" "open_tokens st \<noteq> []"
  shows "let st' = fold split_step (tail_tokens ks cs) st
    in closed st' @ [open_tokens st'] = closed st @ open_tokens st # map compound_tokens cs \<and>
       split_combinators st' = split_combinators st @ ks"
  using assms
proof (induction ks cs arbitrary: st rule: tail_tokens.induct)
  case (1 k ks c cs)
  then have c: "printable_compound c" by simp
  let ?st = "\<lparr>closed = closed st @ [open_tokens st], open_tokens = compound_tokens c,
     split_combinators = split_combinators st @ [k], pending_whitespace = False\<rparr>"
  have "fold split_step (tail_tokens (k # ks) (c # cs)) st = fold split_step (tail_tokens ks cs) ?st"
    using fold_split_compound [OF c 1(4,5), of k] by simp
  with 1(1) [of ?st] 1(2,3) compound_tokens_nonempty [OF c] show ?case by (simp add: Let_def)
qed (auto simp: Let_def)

lemma split_on_none: "list_all (\<lambda>x. \<not> p x) xs \<Longrightarrow> split_on p xs = [xs]"
  by (induction xs) auto

lemma trim_whitespace_id:
  assumes "ts \<noteq> []" "hd ts \<noteq> Whitespace" "last ts \<noteq> Whitespace"
  shows "trim_whitespace ts = ts"
proof -
  have "dropWhile (\<lambda>t. t = Whitespace) ts = ts" using assms by (cases ts) auto
  moreover have "dropWhile (\<lambda>t. t = Whitespace) (rev ts) = rev ts"
    using assms by (cases "rev ts") (auto simp: last_rev hd_rev dest: arg_cong [of _ _ hd])
  ultimately show ?thesis by (simp add: trim_whitespace_def)
qed

lemma tail_tokens_last:
  "length ks = length cs \<Longrightarrow> list_all printable_compound cs \<Longrightarrow> ts \<noteq> [] \<Longrightarrow> last ts \<noteq> Whitespace \<Longrightarrow>
   last (ts @ tail_tokens ks cs) \<noteq> Whitespace \<and>
   list_all (\<lambda>t. t \<noteq> Comma) (tail_tokens ks cs)"
proof (induction ks cs arbitrary: ts rule: tail_tokens.induct)
  case (1 k ks c cs)
  have c: "compound_tokens c \<noteq> []" "list_all inner_token (compound_tokens c)"
    using 1(3) compound_tokens_nonempty compound_tokens_inner by auto
  then have "last (compound_tokens c) \<noteq> Whitespace"
    by (auto simp: list_all_iff inner_token_def)
  with 1(1) [of "compound_tokens c"] 1(2,3) c show ?case
    by (cases k) (auto simp: list_all_iff inner_token_def)
qed auto

lemma parse_selector_tokens:
  assumes "printable_selector sel" "compounds sel = c # cs"
  shows "parse_selector_list (compound_tokens c @ tail_tokens (combinators sel) cs) = [sel]"
proof -
  let ?ts = "compound_tokens c @ tail_tokens (combinators sel) cs"
  have c: "printable_compound c" and cs: "list_all printable_compound cs"
    and len: "length (combinators sel) = length cs"
    using assms by (auto simp: printable_selector_def wf_selector_def)
  note ne = compound_tokens_nonempty [OF c] and inner = compound_tokens_inner [of c]
  have h: "hd (compound_tokens c) \<noteq> Whitespace" "last (compound_tokens c) \<noteq> Whitespace"
    using ne inner by (auto simp: list_all_iff inner_token_def)
  note l = tail_tokens_last [OF len cs ne h(2)]
  have trim: "trim_whitespace ?ts = ?ts" using trim_whitespace_id [of ?ts] l h ne by simp
  let ?st0 = "\<lparr>closed = [], open_tokens = compound_tokens c, split_combinators = [],
     pending_whitespace = False\<rparr>"
  have "split_selector ?ts = fold split_step (tail_tokens (combinators sel) cs) ?st0"
    using fold_split_inner [OF inner] by (simp add: split_selector_def)
  with fold_split_tail [OF len cs, of ?st0] ne
  have st: "closed (split_selector ?ts) @ [open_tokens (split_selector ?ts)] =
      map compound_tokens (compounds sel)"
    "split_combinators (split_selector ?ts) = combinators sel"
    by (simp_all add: Let_def assms(2))
  have "collect_option (map (\<lambda>toks. map_option (\<lambda>ss. \<lparr>simple_selectors = ss\<rparr>)
      (parse_simple_selectors toks)) (map compound_tokens xs)) = Some xs"
    if "list_all printable_compound xs" for xs
    using that by (induction xs) (simp_all add: parse_compound_tokens)
  from this [of "compounds sel"] assms have "parse_complex_selector ?ts = Some sel"
    unfolding parse_complex_selector_def trim Let_def st
    using ne by (simp add: printable_selector_def)
  moreover have "split_on (\<lambda>t. t = Comma) ?ts = [?ts]"
    using inner l by (intro split_on_none) (auto simp: list_all_iff inner_token_def)
  ultimately show ?thesis by (simp add: parse_selector_list_def List.map_filter_simps)
qed

section \<open>Properties\<close>

text \<open>
  C9. On a well-formed document, for a node of it and any selector with one combinator between
  neighbouring compounds, \<open>matches\<close> returns and decides the declarative meaning of the
  selector: there is an element for every compound, the last of them the node itself, each a
  child or a descendant of the one before as its combinator says. In particular the
  backtracking search misses no match.
\<close>

theorem matches_decides_selects:
  assumes "wf_document d" "wf_selector sel" "contains d n"
  shows "matches d n sel = Some (Inr (selects d sel n))"
  using assms by (rule matches_selects)

text \<open>
  C17. Whatever the tokens, every selector that \<open>parse_selector_list\<close> returns has exactly one
  combinator between neighbouring compounds, so matching it against any node of a well-formed
  document neither panics nor runs forever.
\<close>

theorem parsed_selectors_match_safely:
  assumes "sel \<in> set (parse_selector_list ts)" "wf_document d" "contains d n"
  shows "\<exists>b. matches d n sel = Some (Inr b)"
  using matches_selects [OF assms(2) parse_selector_list_wf [OF assms(1)] assms(3)] by blast

text \<open>
  C14. Printing a selector and parsing the text back gives the selector: names, classes,
  identifiers, attribute tests with quoted and escaped values, and both combinators survive the
  tokenizer and the selector parser.
\<close>

theorem parse_print_selector:
  assumes "printable_selector sel"
  shows "parse_selector_list (tokenize (print_selector sel)) = [sel]"
proof -
  obtain c cs where "compounds sel = c # cs"
    using assms by (cases "compounds sel") (auto simp: printable_selector_def wf_selector_def)
  with assms tokenize_print_selector parse_selector_tokens show ?thesis by simp
qed

end
