(* ===== verification/Dom_Examples.thy ===== *)
theory Dom_Examples
  imports Dom_Tree
begin

text \<open>
  A small document, built with the crate's own operations, on which the properties of
  theory \<open>Dom_Tree\<close> are applied.
\<close>

section \<open>A sample document\<close>

text \<open>A root, a paragraph with one text child, and a detached text node.\<close>

definition sample :: document where
  "sample =
     (let (p, d1) = create_node new_document (Element (chars ''p'') []);
          (t, d2) = create_node d1 (Text (chars ''hi''));
          (u, d3) = create_node d2 (Text (chars ''x''))
      in case append_child d3 0 p of
           Inr d4 \<Rightarrow> (case append_child d4 p t of Inr d5 \<Rightarrow> d5 | Inl _ \<Rightarrow> d4)
         | Inl _ \<Rightarrow> d3)"

lemmas dom_defs = new_document_def new_continuing_from_def create_node_def allocate_def
  fresh_record_def append_child_def insert_before_def detach_def update_node_def node_at_def
  parent_def contains_def next_node_id_def root_def first_child_def next_sibling_def data_def

lemma sample_eq:
  "sample = \<lparr>allocator = \<lparr>alloc_next = 4\<rparr>,
     nodes = [
       0 \<mapsto> \<lparr>r_data = Document, r_parent = None, r_first_child = Some 1, r_last_child = Some 1,
            r_next_sibling = None, r_prev_sibling = None\<rparr>,
       1 \<mapsto> \<lparr>r_data = Element (chars ''p'') [], r_parent = Some 0, r_first_child = Some 2,
            r_last_child = Some 2, r_next_sibling = None, r_prev_sibling = None\<rparr>,
       2 \<mapsto> \<lparr>r_data = Text (chars ''hi''), r_parent = Some 1, r_first_child = None,
            r_last_child = None, r_next_sibling = None, r_prev_sibling = None\<rparr>,
       3 \<mapsto> \<lparr>r_data = Text (chars ''x''), r_parent = None, r_first_child = None,
            r_last_child = None, r_next_sibling = None, r_prev_sibling = None\<rparr>],
     doc_root = Some 0\<rparr>"
  by (simp add: sample_def dom_defs fun_upd_twist)

lemma no_parent_no_ancestor:
  "nodes d p = Some r \<Longrightarrow> r_parent r = None \<Longrightarrow> (p, c) \<in> (parent_rel (nodes d))\<^sup>* \<longleftrightarrow> p = c"
  by (auto elim: converse_rtranclE simp: parent_rel_def)

lemma sample_represents: "represents sample ((\<lambda>_. [])(0 := [1], 1 := [2]))"
proof -
  have "parent_rel (nodes sample) = {(1, 0), (2, 1)}"
    by (auto simp: parent_rel_def sample_eq split: if_splits)
  then have "acyclic (parent_rel (nodes sample))"
    by (intro acyclicI_order [where f = unat]) auto
  then show ?thesis
    by (auto simp: represents_def sample_eq next_node_id_def node_ok_def split: if_splits)
qed

lemma sample_reachable: "dom_step\<^sup>*\<^sup>* new_document sample"
proof -
  let ?d1 = "snd (create_node new_document (Element (chars ''p'') []))"
  let ?d2 = "snd (create_node ?d1 (Text (chars ''hi'')))"
  let ?d3 = "snd (create_node ?d2 (Text (chars ''x'')))"
  obtain d4 where d4: "append_child ?d3 0 1 = Inr d4" "append_child d4 1 2 = Inr sample"
    "\<exists>r. nodes ?d3 0 = Some r \<and> r_parent r = None"
    "map_option r_parent (nodes d4 0) = Some None" "map_option r_parent (nodes d4 1) = Some (Some 0)"
    by (auto simp: sample_eq dom_defs fun_upd_twist)
  have "dom_step new_document ?d1" "dom_step ?d1 ?d2" "dom_step ?d2 ?d3"
    by (rule dom_step.create [OF _ prod.collapse [symmetric]]; simp add: dom_defs)+
  moreover have "dom_step ?d3 d4"
    using d4(1,3) no_parent_no_ancestor [of ?d3 0 _ 1] by (intro dom_step.append) auto
  moreover have "(1, 2) \<notin> (parent_rel (nodes d4))\<^sup>*"
    using d4(4,5) no_parent_no_ancestor [of d4 0 _ 2]
    by (auto elim!: converse_rtranclE [of 1] simp: parent_rel_def)
  then have "dom_step d4 sample" by (rule dom_step.append [OF d4(2)])
  ultimately show ?thesis
    by (meson converse_rtranclp_into_rtranclp rtranclp.rtrancl_refl)
qed

section \<open>The properties at the sample\<close>

theorem reachable_documents_well_formed_witness:
  "dom_step\<^sup>*\<^sup>* (new_continuing_from 0) sample \<and> wf_document sample"
  using reachable_documents_well_formed [of 0 sample] sample_reachable
  by (simp add: new_document_def)

theorem append_child_refines_witness:
  "\<exists>d'. append_child sample 1 3 = Inr d' \<and> represents d' ((\<lambda>_. [])(0 := [1], 1 := [2, 3]))"
proof -
  have "(1, 3) \<notin> (parent_rel (nodes sample))\<^sup>*"
    using no_parent_no_ancestor [of sample 0 _ 3]
    by (auto elim!: converse_rtranclE [of 1] simp: parent_rel_def sample_eq)
  with append_child_refines [OF sample_represents, of 1 3]
  show ?thesis by (auto simp: sample_eq dom_defs fun_upd_twist)
qed

theorem insert_before_refines_witness:
  "\<exists>d'. insert_before sample 1 3 (Some 2) = Inr d' \<and> represents d' ((\<lambda>_. [])(0 := [1], 1 := [3, 2]))"
proof -
  have "(1, 3) \<notin> (parent_rel (nodes sample))\<^sup>*"
    using no_parent_no_ancestor [of sample 0 _ 3]
    by (auto elim!: converse_rtranclE [of 1] simp: parent_rel_def sample_eq)
  with insert_before_refines [OF sample_represents, of 3 1 "[]" 2 "[]"]
  show ?thesis by (auto simp: sample_eq dom_defs)
qed

theorem detach_refines_witness:
  "\<exists>d'. detach sample 2 = Inr d' \<and>
     represents d' (\<lambda>n. remove1 2 (((\<lambda>_. [])(0 := [1], 1 := [2])) n)) \<and> parent d' 2 = Inr None"
  using detach_refines [OF sample_represents, of 2] by (auto simp: sample_eq dom_defs)

theorem remove_subtree_frees_exactly_the_subtree_witness:
  "\<exists>d'. remove_subtree sample 1 = Some (Inr d') \<and> contains d' 0 \<and> contains d' 3 \<and>
     \<not> contains d' 1 \<and> \<not> contains d' 2"
proof -
  have rel: "parent_rel (nodes sample) = {(1, 0), (2, 1)}"
    by (auto simp: parent_rel_def sample_eq split: if_splits)
  have "2 \<in> subtree (nodes sample) 1" by (auto simp: subtree_def rel)
  moreover have "0 \<notin> subtree (nodes sample) 1" "3 \<notin> subtree (nodes sample) 1"
    using no_parent_no_ancestor [of sample 0 _ 1] no_parent_no_ancestor [of sample 3 _ 1]
    by (simp_all add: subtree_def sample_eq)
  moreover have "contains sample 1" "contains sample 0" "contains sample 3"
    by (simp_all add: contains_def sample_eq)
  ultimately show ?thesis
    using remove_subtree_frees_exactly_the_subtree [OF sample_represents, of 1] by auto
qed

lemma sample_wf: "wf_document sample"
  using sample_represents by (auto simp: wf_document_def)

theorem node_ids_never_reused_witness:
  "\<exists>d d'. remove_subtree sample 1 = Some (Inr d) \<and>
     dom_step d d' \<and> contains d' 4 \<and> \<not> contains d' 2"
proof -
  obtain r where r: "nodes sample 1 = Some r" by (auto simp: sample_eq)
  from remove_subtree_spec [OF sample_represents r] obtain d kids where
    d: "remove_subtree sample 1 = Some (Inr d)" "represents d kids" "allocator d = allocator sample"
    "\<forall>x. map_option r_data (nodes d x) =
       (if x \<in> subtree (nodes sample) 1 then None else map_option r_data (nodes sample x))"
    by blast
  have nx: "next_node_id d = 4" using d(3) by (simp add: next_node_id_def sample_eq)
  have "(2, 1) \<in> parent_rel (nodes sample)" by (auto simp: parent_rel_def sample_eq)
  then have two: "\<not> contains d 2"
    using spec [OF d(4), of 2] by (simp add: contains_def subtree_def r_into_rtrancl)
  obtain i d' where c: "create_node d Document = (i, d')" by fastforce
  have step: "dom_step d d'" by (rule dom_step.create [OF _ c]) (simp add: nx)
  have "contains d' 4"
    using c nx by (auto simp: create_node_def allocate_def contains_def next_node_id_def)
  moreover have "\<not> contains d' 2"
    using node_ids_never_reused [of d d' 2] d(2) step two nx by (auto simp: wf_document_def)
  ultimately show ?thesis using d(1) step by blast
qed

theorem continued_document_shares_no_id_witness:
  "contains sample 3 \<and> \<not> contains (new_continuing_from (next_node_id sample)) 3"
  using continued_document_shares_no_id [OF sample_wf, of 3 "new_continuing_from (next_node_id sample)"]
  by (simp add: sample_eq next_node_id_def contains_def)

lemma tree_atI:
  "nodes d i = Some r \<Longrightarrow> r_data r = dat \<Longrightarrow> children d i = Some (Inr cs) \<Longrightarrow>
   list_all2 (tree_at d) cs ts \<Longrightarrow> tree_at d i (DNode dat ts)"
  using tree_at.intros by blast

theorem dump_canonical_witness:
  "\<exists>out. dump sample = Some (Inr out)"
proof -
  note ch = children_kids [OF sample_represents]
  obtain r0 r1 r2 where sn: "nodes sample 0 = Some r0" "nodes sample 1 = Some r1" "nodes sample 2 = Some r2"
    and sd [simp]: "r_data r0 = Document" "r_data r1 = Element (chars ''p'') []" "r_data r2 = Text (chars ''hi'')"
    by (auto simp: sample_eq)
  have leaf: "tree_at sample 2 (DNode (Text (chars ''hi'')) [])"
    by (rule tree_atI [OF sn(3) _ ch [OF sn(3)]]) simp_all
  have p: "tree_at sample 1 (DNode (Element (chars ''p'') []) [DNode (Text (chars ''hi'')) []])"
    by (rule tree_atI [OF sn(2) _ ch [OF sn(2)]]) (use leaf in simp_all)
  have "tree_at sample 0 (DNode Document [DNode (Element (chars ''p'') []) [DNode (Text (chars ''hi'')) []]])"
    by (rule tree_atI [OF sn(1) _ ch [OF sn(1)]]) (use p in simp_all)
  moreover have "root sample = Inr 0" by (simp add: root_def sample_eq)
  moreover have "same_shape (DNode (Element (chars ''p'') []) [DNode (Text (chars ''hi'')) []])
      (DNode (Element (chars ''p'') []) [DNode (Text (chars ''hi'')) []])"
    by (intro same_shape.intros list_all2_all_nthI) (auto intro!: same_shape.intros)
  ultimately show ?thesis
    using dump_canonical [OF sample_wf _ _ sample_wf] by fastforce
qed

end
