(* ===== verification/Css_Examples.thy ===== *)
theory Css_Examples
  imports Css_Styles Css_Selector_Syntax Dom_Examples
begin

text \<open>The properties of the CSS theories at concrete style sheets and the sample document.\<close>

section \<open>Tokens and selectors\<close>

theorem tokenize_lexes_witness:
  "lexes (chars ''a:12px'') [Ident (chars ''a''), Colon, Dimension (Finite 12) (chars ''px'')] \<and>
   tokenize (chars ''a:12px'') = [Ident (chars ''a''), Colon, Dimension (Finite 12) (chars ''px'')]"
proof -
  have p: "parse_f64 ([] @ chars ''12'' @ []) = Some (Finite 12)" by code_simp
  have "numeral_text [] (chars ''12'') []" by (simp add: numeral_text_def is_ascii_digit_def)
  from spells.dimension [OF this p, of "chars ''px''" "[]"]
  have "spells (Dimension (Finite 12) (chars ''px'')) (chars ''12px'') []"
    by (simp add: is_ident_continue_def is_ident_start_def char_class_defs next_is_def
        to_lower_def ends_name_def)
  from lexes.tok [OF this lexes.finish]
  have "lexes (chars ''12px'') [Dimension (Finite 12) (chars ''px'')]" by simp
  from lexes_punct [OF _ this, of "ch CHR '':''" Colon]
  have "lexes (chars '':12px'') [Colon, Dimension (Finite 12) (chars ''px'')]"
    by (simp add: punctuation_def)
  from lexes_ident [OF _ _ this, of "chars ''a''"]
  have l: "lexes (chars ''a:12px'') [Ident (chars ''a''), Colon, Dimension (Finite 12) (chars ''px'')]"
    by (simp add: is_name_def name_start_def is_whitespace_def is_ident_start_def
        is_ident_continue_def char_class_defs)
  with tokenize_lexes [OF l] show ?thesis by simp
qed

definition p_selector :: complex_selector where
  "p_selector = \<lparr>compounds = [\<lparr>simple_selectors = [Type (chars ''p'')]\<rparr>], combinators = []\<rparr>"

definition article_link :: complex_selector where
  "article_link =
     \<lparr>compounds = [\<lparr>simple_selectors = [Type (chars ''article''), Class (chars ''x'')]\<rparr>,
                   \<lparr>simple_selectors = [Universal]\<rparr>,
                   \<lparr>simple_selectors = [Type (chars ''a''), AttrEquals (chars ''href'') (chars ''#'')]\<rparr>],
      combinators = [Descendant, Child]\<rparr>"

lemma sample_contains: "contains sample 0" "contains sample 1"
  by (simp_all add: contains_def sample_eq)

theorem matches_decides_selects_witness:
  "wf_document sample \<and> wf_selector p_selector \<and> contains sample 1 \<and>
   matches sample 1 p_selector = Some (Inr (selects sample p_selector 1))"
proof -
  have "wf_selector p_selector" by (simp add: wf_selector_def p_selector_def)
  with matches_decides_selects [OF sample_wf this sample_contains(2)] sample_wf sample_contains(2)
  show ?thesis by simp
qed

theorem parsed_selectors_match_safely_witness:
  "p_selector \<in> set (parse_selector_list [Ident (chars ''p'')]) \<and>
   (\<exists>b. matches sample 1 p_selector = Some (Inr b))"
proof -
  have p: "p_selector \<in> set (parse_selector_list [Ident (chars ''p'')])" by code_simp
  with parsed_selectors_match_safely [OF p sample_wf sample_contains(2)] show ?thesis by simp
qed

theorem parse_print_selector_witness:
  "print_selector article_link = chars ''article.x *>a[href='' @ [34] @ chars ''#'' @ [34] @ chars '']'' \<and>
   printable_selector article_link \<and>
   parse_selector_list (tokenize (print_selector article_link)) = [article_link]"
proof -
  have p: "printable_selector article_link" by code_simp
  have "print_selector article_link =
      chars ''article.x *>a[href='' @ [34] @ chars ''#'' @ [34] @ chars '']''" by code_simp
  with p parse_print_selector [OF p] show ?thesis by simp
qed

text \<open>The keyword \<open>transparent\<close> is parsed as the colour \<open>black\<close> is: with full alpha.\<close>

lemma transparent_is_opaque_black:
  "parse_value [Ident (chars ''transparent'')] = Inr (Some (Color (Rgba 0 0 0 255))) \<and>
   parse_value [Ident (chars ''transparent'')] = parse_value [Ident (chars ''black'')]"
  by code_simp

section \<open>The cascade\<close>

definition red_rule :: "bool \<Rightarrow> origin \<Rightarrow> specificity \<Rightarrow> matched" where
  "red_rule imp org spec =
     \<lparr>m_origin = org, m_specificity = spec, m_source_order = 0,
      m_declaration = \<lparr>decl_property = chars ''color'', decl_value = Keyword (chars ''red''),
                        decl_important = imp\<rparr>\<rparr>"


theorem inline_style_wins_witness:
  "collect_winners ([red_rule False Author (7, 0, 0)] @
     map inline_matched [\<lparr>decl_property = chars ''color'', decl_value = Keyword (chars ''blue''),
                          decl_important = False\<rparr>]) (chars ''color'') = Some (Keyword (chars ''blue''))"
proof -
  let ?blue = "\<lparr>decl_property = chars ''color'', decl_value = Keyword (chars ''blue''),
     decl_important = False\<rparr>"
  have "(7 :: u32) < - 1" by code_simp
  with inline_style_wins [of ?blue "[?blue]" "chars ''color''" "[red_rule False Author (7, 0, 0)]"]
  show ?thesis by (simp add: red_rule_def)
qed

lemma sample_subtree: "subtree (nodes sample) 0 = {0, 1, 2}"
  using subtree_unfold [OF sample_represents, of 0] subtree_unfold [OF sample_represents, of 1]
    subtree_unfold [OF sample_represents, of 2] by auto

theorem cascade_styles_every_element_witness:
  "\<exists>styles. cascade sample [] = Some (Inr styles) \<and> styles 1 \<noteq> None \<and> styles 2 = None"
proof -
  have "\<forall>n\<in>subtree (nodes sample) 0. inline_ok sample n"
    unfolding sample_subtree
    by (auto simp: inline_ok_def inline_style_declarations_def data_def node_at_def sample_eq)
  moreover have "doc_root sample = Some 0" "parent_of sample 0 = None" "sheets_wf []"
    by (simp_all add: sample_eq parent_of_def parent_def node_at_def sheets_wf_def)
  ultimately obtain styles where s: "cascade sample [] = Some (Inr styles)"
    "\<forall>n. styles n =
       (if n \<in> subtree (nodes sample) 0 \<and> is_element sample n
        then chain_style sample [] (n # ancestors sample n) else None)"
    "\<forall>n\<in>subtree (nodes sample) 0. is_element sample n \<longrightarrow> styles n \<noteq> None"
    using cascade_styles_every_element [OF sample_wf _ sample_contains(1)] by blast
  have "is_element sample 1" "\<not> is_element sample 2"
    by (simp_all add: is_element_def data_def node_at_def sample_eq)
  with s show ?thesis by (auto simp: sample_subtree)
qed

theorem ascii_stylesheet_parses_witness:
  "\<exists>rules. parse (chars ''p{color:#12345}'') = Inr rules \<and> rules_wf rules"
  using ascii_stylesheet_parses [of "chars ''p{color:#12345}''"] by (simp add: is_ascii_def)

end
