(* ===== verification/Html_Tokenizer.thy ===== *)
theory Html_Tokenizer
  imports Token_Stream "HOL-Library.Code_Target_Nat"
begin

text \<open>
  The HTML tokenizer of \<open>core/html/src/tokenizer.rs\<close>. The state is the record of
  \<open>struct Tokenizer\<close>, an extension of the character cursor. Each arm of the \<open>match\<close> on
  \<open>self.state\<close> in \<open>next_token\<close> is a definition that returns \<open>Some tok\<close> where the arm returns
  a token and \<open>None\<close> where it goes round the loop. \<open>self.advance().unwrap()\<close> may panic; a
  panic is the value \<open>Inl\<close>.
\<close>

section \<open>Data\<close>

datatype content_model = Data | Rcdata | Rawtext | ScriptData

datatype html_token =
    Doctype
  | Comment
  | StartTag rstring "(rstring \<times> rstring) list" bool
  | EndTag rstring
  | Character rstring
  | Eof

datatype tok_state =
    Data
  | TagOpen
  | EndTagOpen
  | TagName
  | BeforeAttributeName
  | AttributeName
  | AfterAttributeName
  | BeforeAttributeValue
  | AttributeValueDoubleQuoted
  | AttributeValueSingleQuoted
  | AttributeValueUnquoted
  | AfterAttributeValueQuoted
  | SelfClosingStartTag

definition NAMED_REFERENCES :: "(rstring \<times> rstring) list" where
  "NAMED_REFERENCES =
     [(chars ''amp;'', chars ''&''),
      (chars ''lt;'', chars ''<''),
      (chars ''gt;'', chars ''>''),
      (chars ''quot;'', [0x22]),
      (chars ''apos;'', [0x27]),
      (chars ''nbsp;'', [0xA0])]"

definition is_html_space :: "scalar \<Rightarrow> bool" where
  "is_html_space c \<longleftrightarrow> c = 0x20 \<or> c = 0x09 \<or> c = 0x0A \<or> c = 0x0C \<or> c = 0x0D"

definition windows_1252 :: "(nat \<times> nat) list" where
  "windows_1252 =
     [(0x80, 0x20AC), (0x82, 0x201A), (0x83, 0x0192), (0x84, 0x201E), (0x85, 0x2026),
      (0x86, 0x2020), (0x87, 0x2021), (0x88, 0x02C6), (0x89, 0x2030), (0x8A, 0x0160),
      (0x8B, 0x2039), (0x8C, 0x0152), (0x8E, 0x017D), (0x91, 0x2018), (0x92, 0x2019),
      (0x93, 0x201C), (0x94, 0x201D), (0x95, 0x2022), (0x96, 0x2013), (0x97, 0x2014),
      (0x98, 0x02DC), (0x99, 0x2122), (0x9A, 0x0161), (0x9B, 0x203A), (0x9C, 0x0153),
      (0x9E, 0x017E), (0x9F, 0x0178)]"

definition resolve_numeric_character_reference :: "nat \<Rightarrow> scalar" where
  "resolve_numeric_character_reference code =
     (if code = 0 \<or> 0x10FFFF < code \<or> 0xD800 \<le> code \<and> code \<le> 0xDFFF then 0xFFFD
      else
        let remapped = map_of windows_1252 code
        in case char_from_u32 (case remapped of Some r \<Rightarrow> r | None \<Rightarrow> code) of
             Some c \<Rightarrow> c
           | None \<Rightarrow> 0xFFFD)"

record html_tokenizer = cursor +
  state :: tok_state
  content_model :: content_model
  last_start_tag_name :: "rstring option"
  tag_name :: rstring
  tag_is_end :: bool
  tag_self_closing :: bool
  tag_attrs :: "(rstring \<times> rstring) list"
  attr_name :: rstring
  attr_value :: rstring
  text_buffer :: rstring

definition new_html_tokenizer :: "rstring \<Rightarrow> html_tokenizer" where
  "new_html_tokenizer input =
     (let normalized = str_replace [0x0D] [0x0A] (str_replace [0x0D, 0x0A] [0x0A] input)
      in \<lparr>c_input = normalized, c_pos = 0, state = tok_state.Data,
          content_model = content_model.Data, last_start_tag_name = None, tag_name = [],
          tag_is_end = False, tag_self_closing = False, tag_attrs = [], attr_name = [],
          attr_value = [], text_buffer = []\<rparr>)"

definition set_content_model :: "html_tokenizer \<Rightarrow> content_model \<Rightarrow> html_tokenizer" where
  "set_content_model t model = t\<lparr>content_model := model, state := tok_state.Data\<rparr>"

text \<open>The loop of \<open>next_token\<close> goes round with \<open>None\<close> and returns with \<open>Some tok\<close>.\<close>

type_synonym tok_step = "html_token option \<times> html_tokenizer"

datatype tokenizer_panic = Unwrap_On_None

abbreviation eat :: "html_tokenizer \<Rightarrow> html_tokenizer" where
  "eat t \<equiv> snd (advance t)"

definition push_text :: "rstring \<Rightarrow> html_tokenizer \<Rightarrow> html_tokenizer" where
  "push_text s t = t\<lparr>text_buffer := text_buffer t @ s\<rparr>"

definition push_value :: "rstring \<Rightarrow> html_tokenizer \<Rightarrow> html_tokenizer" where
  "push_value s t = t\<lparr>attr_value := attr_value t @ s\<rparr>"

definition flush_text_or_eof :: "html_tokenizer \<Rightarrow> html_token \<times> html_tokenizer" where
  "flush_text_or_eof t =
     (if text_buffer t = [] then (Eof, t)
      else (Character (text_buffer t), t\<lparr>text_buffer := []\<rparr>))"

definition commit_pending_attr :: "html_tokenizer \<Rightarrow> html_tokenizer" where
  "commit_pending_attr t =
     (let t' =
        (if attr_name t \<noteq> [] then
           (if list_ex (\<lambda>(n, _). n = attr_name t) (tag_attrs t) then t
            else t\<lparr>tag_attrs := tag_attrs t @ [(attr_name t, attr_value t)]\<rparr>)
         else t)
      in t'\<lparr>attr_name := [], attr_value := []\<rparr>)"

definition emit_tag :: "html_tokenizer \<Rightarrow> html_token \<times> html_tokenizer" where
  "emit_tag t =
     (let t = (commit_pending_attr t)\<lparr>state := tok_state.Data\<rparr>;
          name = tag_name t;
          t = t\<lparr>tag_name := []\<rparr>
      in if tag_is_end t then (EndTag name, t)
         else (StartTag name (tag_attrs t) (tag_self_closing t),
               t\<lparr>tag_attrs := [], last_start_tag_name := Some name\<rparr>))"

section \<open>Character references\<close>

definition consume_character_reference :: "html_tokenizer \<Rightarrow> rstring \<times> html_tokenizer" where
  "consume_character_reference t =
     (if peek t = Some (ch CHR ''#'') then
        let hex = peek_at t 1 \<in> {Some (ch CHR ''x''), Some (ch CHR ''X'')};
            digits_start = skip (1 + (if hex then 1 else 0)) t;
            (digits, end) =
              consume_while (if hex then is_ascii_hexdigit else is_ascii_digit) digits_start []
        in if digits = [] then (chars ''&'', t)
           else
             let t' = (if peek end = Some (ch CHR '';'') then eat end else end);
                 code = (case from_str_radix (2 ^ 32) (if hex then 16 else 10) digits of
                           Some n \<Rightarrow> n
                         | None \<Rightarrow> 0xFFFD)
             in ([resolve_numeric_character_reference code], t')
      else
        case find (\<lambda>(name, value). matches_ahead t name) NAMED_REFERENCES of
          Some (name, value) \<Rightarrow> (value, skip (length name) t)
        | None \<Rightarrow> (chars ''&'', t))"

section \<open>Comments and doctypes\<close>

function consume_comment_loop :: "html_tokenizer \<Rightarrow> html_tokenizer" where
  "consume_comment_loop t =
     (if matches_ahead t (chars ''-->'') then skip 3 t
      else if matches_ahead t (chars ''--!>'') then skip 4 t
      else if peek t = None then t
      else consume_comment_loop (eat t))"
  by pat_completeness auto
termination
  by (relation "measure (\<lambda>t. length (rest t))") (auto intro: advance_shrinks)

declare consume_comment_loop.simps [simp del]

definition consume_comment :: "html_tokenizer \<Rightarrow> html_token \<times> html_tokenizer" where
  "consume_comment t =
     (if matches_ahead t (chars ''>'') then (Comment, (skip 1 t)\<lparr>state := tok_state.Data\<rparr>)
      else if matches_ahead t (chars ''->'') then (Comment, (skip 2 t)\<lparr>state := tok_state.Data\<rparr>)
      else (Comment, (consume_comment_loop t)\<lparr>state := tok_state.Data\<rparr>))"

definition consume_bogus_comment :: "html_tokenizer \<Rightarrow> html_token \<times> html_tokenizer" where
  "consume_bogus_comment t =
     (let t' = snd (consume_while (\<lambda>c. c \<noteq> ch CHR ''>'') t [])
      in (Comment, (eat t')\<lparr>state := tok_state.Data\<rparr>))"

definition consume_doctype :: "html_tokenizer \<Rightarrow> html_token \<times> html_tokenizer" where
  "consume_doctype t =
     (let t' = snd (consume_while (\<lambda>c. c \<noteq> ch CHR ''>'') t [])
      in (Doctype, (eat t')\<lparr>state := tok_state.Data\<rparr>))"

section \<open>Raw text and script data\<close>

definition ends_tag_name :: "scalar option \<Rightarrow> bool" where
  "ends_tag_name p =
     (case p of
        Some c \<Rightarrow> is_html_space c \<or> c = ch CHR ''/'' \<or> c = ch CHR ''>''
      | None \<Rightarrow> False)"

definition matches_appropriate_end_tag_ahead :: "html_tokenizer \<Rightarrow> bool" where
  "matches_appropriate_end_tag_ahead t =
     (case last_start_tag_name t of
        None \<Rightarrow> False
      | Some name \<Rightarrow>
          peek_at t 0 = Some (ch CHR ''<'') \<and> peek_at t 1 = Some (ch CHR ''/'') \<and>
          matches_ahead_ignore_case (skip 2 t) name \<and>
          ends_tag_name (peek_at t (2 + length name)))"

function end_tag_loop :: "scalar option \<Rightarrow> html_tokenizer \<Rightarrow> html_tokenizer" where
  "end_tag_loop quote t =
     (case advance t of
        (None, t') \<Rightarrow> t'
      | (Some c, t') \<Rightarrow>
          (case quote of
             Some q \<Rightarrow> if c = q then end_tag_loop None t' else end_tag_loop quote t'
           | None \<Rightarrow>
               if c = 0x22 \<or> c = 0x27 then end_tag_loop (Some c) t'
               else if c = ch CHR ''>'' then t'
               else end_tag_loop None t'))"
  by pat_completeness auto
termination
  by (relation "measure (\<lambda>(quote, t). length (rest t))") (auto simp: advance_def peek_eq_iff split: if_splits)

declare end_tag_loop.simps [simp del]

definition consume_end_tag_simple :: "html_tokenizer \<Rightarrow> html_token \<times> html_tokenizer" where
  "consume_end_tag_simple t =
     (let name = (case last_start_tag_name t of Some n \<Rightarrow> n | None \<Rightarrow> [])
      in (EndTag name, (end_tag_loop None (skip (2 + length name) t))\<lparr>state := tok_state.Data\<rparr>))"

definition replace_null :: "scalar \<Rightarrow> scalar" where
  "replace_null c = (if c = 0 then 0xFFFD else c)"

lemma rest_updates [simp]:
  "rest (push_text s t) = rest t" "rest (push_value s t) = rest t"
  "rest (t\<lparr>state := st\<rparr>) = rest t" "rest (t\<lparr>text_buffer := b\<rparr>) = rest t"
  "rest (t\<lparr>tag_name := b\<rparr>) = rest t" "rest (t\<lparr>attr_name := b\<rparr>) = rest t"
  "rest (t\<lparr>attr_value := b\<rparr>) = rest t" "rest (t\<lparr>tag_attrs := a\<rparr>) = rest t"
  "rest (t\<lparr>tag_is_end := e\<rparr>) = rest t" "rest (t\<lparr>tag_self_closing := e\<rparr>) = rest t"
  "rest (t\<lparr>last_start_tag_name := l\<rparr>) = rest t" "rest (t\<lparr>content_model := m\<rparr>) = rest t"
  "rest (commit_pending_attr t) = rest t"
  by (simp_all add: rest_def push_text_def push_value_def commit_pending_attr_def Let_def)

text \<open>What moving the cursor and filling the buffers leave alone.\<close>

lemma skip_keeps [simp]:
  fixes t :: html_tokenizer
  shows "state (skip n t) = state t" "content_model (skip n t) = content_model t"
  "last_start_tag_name (skip n t) = last_start_tag_name t" "tag_name (skip n t) = tag_name t"
  "tag_is_end (skip n t) = tag_is_end t" "tag_self_closing (skip n t) = tag_self_closing t"
  "tag_attrs (skip n t) = tag_attrs t" "attr_name (skip n t) = attr_name t"
  "attr_value (skip n t) = attr_value t" "text_buffer (skip n t) = text_buffer t"
  by (simp_all add: skip_def)

lemma push_text_keeps [simp]:
  "state (push_text s t) = state t" "content_model (push_text s t) = content_model t"
  "last_start_tag_name (push_text s t) = last_start_tag_name t"
  "tag_name (push_text s t) = tag_name t" "tag_attrs (push_text s t) = tag_attrs t"
  "attr_name (push_text s t) = attr_name t" "text_buffer (push_text s t) = text_buffer t @ s"
  by (simp_all add: push_text_def)

lemma push_value_keeps [simp]:
  "state (push_value s t) = state t" "content_model (push_value s t) = content_model t"
  "last_start_tag_name (push_value s t) = last_start_tag_name t"
  "tag_name (push_value s t) = tag_name t" "tag_attrs (push_value s t) = tag_attrs t"
  "attr_name (push_value s t) = attr_name t" "text_buffer (push_value s t) = text_buffer t"
  by (simp_all add: push_value_def)

lemma matches_ahead_length: "matches_ahead t s \<Longrightarrow> length s \<le> length (rest t)"
  by (metis length_append matches_aheadD le_add1)

lemma moves_character_reference: "moves t (snd (consume_character_reference t))"
proof (cases "peek t = Some (ch CHR ''#'')")
  case True
  let ?hex = "peek_at t 1 \<in> {Some (ch CHR ''x''), Some (ch CHR ''X'')}"
  let ?start = "skip (1 + (if ?hex then 1 else 0)) t"
  obtain digits u where r: "consume_while (if ?hex then is_ascii_hexdigit else is_ascii_digit)
      ?start [] = (digits, u)"
    by fastforce
  have "moves t u" if "digits \<noteq> []"
  proof -
    have "takeWhile (if ?hex then is_ascii_hexdigit else is_ascii_digit) (rest ?start) \<noteq> []"
      using r that by (simp add: consume_while_eq)
    then have "rest ?start \<noteq> []" by auto
    then have "moves t ?start" by (intro moves_skip) (simp split: if_splits)
    moreover have "moves ?start u"
      using moves_consume_while [of ?start "if ?hex then is_ascii_hexdigit else is_ascii_digit" "[]"]
      by (simp only: r snd_conv)
    ultimately show ?thesis by (rule moves_trans)
  qed
  moreover have "moves t (eat u)" if "moves t u"
    using that moves_advance [of u] by (rule moves_trans)
  ultimately show ?thesis
    using True r by (simp add: consume_character_reference_def Let_def del: One_nat_def)
next
  case False
  have "moves t (skip (length n) t)"
    if "find (\<lambda>(name, value). matches_ahead t name) NAMED_REFERENCES = Some (n, v)" for n v
    using that matches_ahead_length [of t n] by (auto simp: find_Some_iff intro!: moves_skip)
  with False show ?thesis
    by (auto simp: consume_character_reference_def split: option.splits)
qed

lemma character_reference_shrinks:
  assumes "peek t \<noteq> None"
  shows "length (rest (snd (consume_character_reference (eat t)))) < length (rest t)"
  using moves_length [OF moves_character_reference [of "eat t"]] advance_shrinks [OF assms] by simp

function consume_rawtext_or_rcdata :: "bool \<Rightarrow> html_tokenizer \<Rightarrow> html_token \<times> html_tokenizer" where
  "consume_rawtext_or_rcdata rcdata t =
     (case peek t of
        None \<Rightarrow> flush_text_or_eof t
      | Some c \<Rightarrow>
          if c = ch CHR ''<'' \<and> matches_appropriate_end_tag_ahead t then
            (if text_buffer t \<noteq> [] then flush_text_or_eof t else consume_end_tag_simple t)
          else if c = ch CHR ''&'' \<and> rcdata then
            (let (s, t') = consume_character_reference (eat t)
             in consume_rawtext_or_rcdata rcdata (push_text s t'))
          else consume_rawtext_or_rcdata rcdata (push_text [replace_null c] (eat t)))"
  by pat_completeness auto
termination
proof (relation "measure (\<lambda>(rcdata, t). length (rest t))", goal_cases)
  case (2 rcdata t c x s t')
  then show ?case using character_reference_shrinks [of t] by (simp add: snd_def split: prod.splits)
qed (auto simp: advance_shrinks)

declare consume_rawtext_or_rcdata.simps [simp del]

definition matches_start_tag_like_ahead :: "html_tokenizer \<Rightarrow> rstring \<Rightarrow> bool" where
  "matches_start_tag_like_ahead t name \<longleftrightarrow>
     peek_at t 0 = Some (ch CHR ''<'') \<and> matches_ahead_ignore_case (skip 1 t) name \<and>
     ends_tag_name (peek_at t (1 + length name))"

text \<open>\<open>for _ in 0..n { let c = self.advance().unwrap(); self.text_buffer.push(c); }\<close>\<close>

fun push_chars :: "nat \<Rightarrow> html_tokenizer \<Rightarrow> tokenizer_panic + html_tokenizer" where
  "push_chars n t =
     (if n = 0 then Inr t
      else
        case advance t of
          (Some c, t') \<Rightarrow> push_chars (n - 1) (push_text [c] t')
        | (None, t') \<Rightarrow> Inl Unwrap_On_None)"

declare push_chars.simps [simp del]

datatype script_state = Plain | Escaped | DoubleEscaped

lemma push_chars_length:
  "push_chars n t = Inr t' \<Longrightarrow> length (rest t') + n = length (rest t)"
proof (induction n t arbitrary: t' rule: push_chars.induct)
  case (1 n t)
  show ?case
  proof (cases "n = 0 \<or> rest t = []")
    case True
    with 1(2) show ?thesis by (cases "n = 0") (simp_all add: push_chars.simps [of n] push_chars.simps [of 0] advance_simps)
  next
    case False
    then obtain c cs where r: "rest t = c # cs" by (cases "rest t") auto
    then have "advance t = (Some c, skip 1 t)" by (simp add: advance_simps)
    moreover from this False 1(2) have "push_chars (n - 1) (push_text [c] (skip 1 t)) = Inr t'"
      by (simp add: push_chars.simps [of n])
    ultimately show ?thesis using 1(1) False r by fastforce
  qed
qed

function consume_script_data_loop ::
  "script_state \<Rightarrow> html_tokenizer \<Rightarrow> tokenizer_panic + (html_token \<times> html_tokenizer)" where
  "consume_script_data_loop st t =
     (case peek t of
        None \<Rightarrow> Inr (flush_text_or_eof t)
      | Some c \<Rightarrow>
          (case st of
             Plain \<Rightarrow>
               if c = ch CHR ''<'' \<and> matches_appropriate_end_tag_ahead t then
                 Inr (if text_buffer t \<noteq> [] then flush_text_or_eof t else consume_end_tag_simple t)
               else if c = ch CHR ''<'' \<and> matches_ahead t (chars ''<!--'') then
                 consume_script_data_loop Escaped (skip 4 (push_text (chars ''<!--'') t))
               else consume_script_data_loop Plain (push_text [replace_null c] (eat t))
           | Escaped \<Rightarrow>
               if c = ch CHR ''<'' \<and> matches_appropriate_end_tag_ahead t then
                 Inr (if text_buffer t \<noteq> [] then flush_text_or_eof t else consume_end_tag_simple t)
               else if c = ch CHR ''<'' \<and> matches_start_tag_like_ahead t (chars ''script'') then
                 (case push_chars (length ''<script'') t of
                    Inl p \<Rightarrow> Inl p
                  | Inr t' \<Rightarrow> consume_script_data_loop DoubleEscaped t')
               else if c = ch CHR ''-'' \<and> matches_ahead t (chars ''-->'') then
                 consume_script_data_loop Plain (skip 3 (push_text (chars ''-->'') t))
               else consume_script_data_loop Escaped (push_text [replace_null c] (eat t))
           | DoubleEscaped \<Rightarrow>
               if c = ch CHR ''<'' \<and> matches_appropriate_end_tag_ahead t then
                 (case push_chars (length ''</script'') t of
                    Inl p \<Rightarrow> Inl p
                  | Inr t' \<Rightarrow> consume_script_data_loop Escaped t')
               else if c = ch CHR ''-'' \<and> matches_ahead t (chars ''-->'') then
                 consume_script_data_loop Plain (skip 3 (push_text (chars ''-->'') t))
               else consume_script_data_loop DoubleEscaped (push_text [replace_null c] (eat t))))"
  by pat_completeness auto
termination
  by (relation "measure (\<lambda>(st, t). length (rest t))")
     (auto simp: advance_simps peek_eq_iff dest!: push_chars_length)

declare consume_script_data_loop.simps [simp del]

definition consume_script_data ::
  "html_tokenizer \<Rightarrow> tokenizer_panic + (html_token \<times> html_tokenizer)" where
  "consume_script_data t = consume_script_data_loop Plain t"

section \<open>The states\<close>

definition data_state :: "html_tokenizer \<Rightarrow> tok_step" where
  "data_state t =
     (case peek t of
        None \<Rightarrow> map_prod Some id (flush_text_or_eof t)
      | Some c \<Rightarrow>
          if c = ch CHR ''<'' then
            (if text_buffer t \<noteq> [] then map_prod Some id (flush_text_or_eof t)
             else (None, (eat t)\<lparr>state := TagOpen\<rparr>))
          else if c = ch CHR ''&'' then
            (let (s, t') = consume_character_reference (eat t) in (None, push_text s t'))
          else (None, push_text [c] (eat t)))"

text \<open>Entering \<open>TagName\<close> with an empty tag: the common part of \<open>TagOpen\<close> and \<open>EndTagOpen\<close>.\<close>

definition begin_tag :: "bool \<Rightarrow> html_tokenizer \<Rightarrow> html_tokenizer" where
  "begin_tag is_end t =
     t\<lparr>tag_is_end := is_end, tag_name := [], tag_attrs := [], tag_self_closing := False,
       state := TagName\<rparr>"

definition tag_open_state :: "html_tokenizer \<Rightarrow> tok_step" where
  "tag_open_state t =
     (case peek t of
        None \<Rightarrow> (Some (Character (chars ''<'')), t\<lparr>state := tok_state.Data\<rparr>)
      | Some c \<Rightarrow>
          if is_ascii_alphabetic c then (None, begin_tag False t)
          else if c = ch CHR ''/'' then (None, (eat t)\<lparr>state := EndTagOpen\<rparr>)
          else if c = ch CHR ''!'' then
            (let t = eat t
             in map_prod Some id
                  (if matches_ahead t (chars ''--'') then consume_comment (skip 2 t)
                   else if matches_ahead_ignore_case t (chars ''DOCTYPE'') then consume_doctype (skip 7 t)
                   else consume_bogus_comment t))
          else if c = ch CHR ''?'' then map_prod Some id (consume_bogus_comment t)
          else (None, push_text (chars ''<'') (t\<lparr>state := tok_state.Data\<rparr>)))"

definition end_tag_open_state :: "html_tokenizer \<Rightarrow> tok_step" where
  "end_tag_open_state t =
     (case peek t of
        None \<Rightarrow> (Some (Character (chars ''</'')), t\<lparr>state := tok_state.Data\<rparr>)
      | Some c \<Rightarrow>
          if is_ascii_alphabetic c then (None, begin_tag True t)
          else if c = ch CHR ''>'' then (None, (eat t)\<lparr>state := tok_state.Data\<rparr>)
          else map_prod Some id (consume_bogus_comment t))"

text \<open>The arm of every state inside a tag at the end of the input drops the tag.\<close>

definition eof_in_tag :: "html_tokenizer \<Rightarrow> tok_step" where
  "eof_in_tag t = (Some Eof, t\<lparr>state := tok_state.Data\<rparr>)"

definition tag_name_state :: "html_tokenizer \<Rightarrow> tok_step" where
  "tag_name_state t =
     (case peek t of
        None \<Rightarrow> eof_in_tag t
      | Some c \<Rightarrow>
          if is_html_space c then (None, (eat t)\<lparr>state := BeforeAttributeName\<rparr>)
          else if c = ch CHR ''/'' then (None, (eat t)\<lparr>state := SelfClosingStartTag\<rparr>)
          else if c = ch CHR ''>'' then map_prod Some id (emit_tag (eat t))
          else (None, (eat t)\<lparr>tag_name := tag_name t @ [to_lower c]\<rparr>))"

definition before_attribute_name_state :: "html_tokenizer \<Rightarrow> tok_step" where
  "before_attribute_name_state t =
     (case peek t of
        None \<Rightarrow> eof_in_tag t
      | Some c \<Rightarrow>
          if is_html_space c then (None, eat t)
          else if c = ch CHR ''/'' then (None, (eat t)\<lparr>state := SelfClosingStartTag\<rparr>)
          else if c = ch CHR ''>'' then map_prod Some id (emit_tag (eat t))
          else (None, t\<lparr>attr_name := [], attr_value := [], state := AttributeName\<rparr>))"

definition attribute_name_state :: "html_tokenizer \<Rightarrow> tok_step" where
  "attribute_name_state t =
     (case peek t of
        None \<Rightarrow> eof_in_tag t
      | Some c \<Rightarrow>
          if is_html_space c then (None, (eat t)\<lparr>state := AfterAttributeName\<rparr>)
          else if c = ch CHR ''/'' then
            (None, (eat (commit_pending_attr t))\<lparr>state := SelfClosingStartTag\<rparr>)
          else if c = ch CHR ''='' then (None, (eat t)\<lparr>state := BeforeAttributeValue\<rparr>)
          else if c = ch CHR ''>'' then map_prod Some id (emit_tag (eat (commit_pending_attr t)))
          else (None, (eat t)\<lparr>attr_name := attr_name t @ [to_lower c]\<rparr>))"

definition after_attribute_name_state :: "html_tokenizer \<Rightarrow> tok_step" where
  "after_attribute_name_state t =
     (case peek t of
        None \<Rightarrow> eof_in_tag t
      | Some c \<Rightarrow>
          if is_html_space c then (None, eat t)
          else if c = ch CHR ''/'' then
            (None, (eat (commit_pending_attr t))\<lparr>state := SelfClosingStartTag\<rparr>)
          else if c = ch CHR ''='' then (None, (eat t)\<lparr>state := BeforeAttributeValue\<rparr>)
          else if c = ch CHR ''>'' then map_prod Some id (emit_tag (eat (commit_pending_attr t)))
          else (None, (commit_pending_attr t)\<lparr>attr_name := [], state := AttributeName\<rparr>))"

definition before_attribute_value_state :: "html_tokenizer \<Rightarrow> tok_step" where
  "before_attribute_value_state t =
     (case peek t of
        None \<Rightarrow> eof_in_tag t
      | Some c \<Rightarrow>
          if is_html_space c then (None, eat t)
          else if c = 0x22 then (None, (eat t)\<lparr>state := AttributeValueDoubleQuoted\<rparr>)
          else if c = 0x27 then (None, (eat t)\<lparr>state := AttributeValueSingleQuoted\<rparr>)
          else if c = ch CHR ''>'' then map_prod Some id (emit_tag (eat (commit_pending_attr t)))
          else (None, t\<lparr>state := AttributeValueUnquoted\<rparr>))"

text \<open>The arms of \<open>AttributeValueDoubleQuoted\<close> and \<open>AttributeValueSingleQuoted\<close> differ in the quote.\<close>

definition attribute_value_quoted_state :: "scalar \<Rightarrow> html_tokenizer \<Rightarrow> tok_step" where
  "attribute_value_quoted_state quote t =
     (case peek t of
        None \<Rightarrow> eof_in_tag t
      | Some c \<Rightarrow>
          if c = quote then
            (None, (eat (commit_pending_attr t))\<lparr>state := AfterAttributeValueQuoted\<rparr>)
          else if c = ch CHR ''&'' then
            (let (s, t') = consume_character_reference (eat t) in (None, push_value s t'))
          else (None, push_value [c] (eat t)))"

definition attribute_value_unquoted_state :: "html_tokenizer \<Rightarrow> tok_step" where
  "attribute_value_unquoted_state t =
     (case peek t of
        None \<Rightarrow> eof_in_tag t
      | Some c \<Rightarrow>
          if is_html_space c then
            (None, (eat (commit_pending_attr t))\<lparr>state := BeforeAttributeName\<rparr>)
          else if c = ch CHR ''&'' then
            (let (s, t') = consume_character_reference (eat t) in (None, push_value s t'))
          else if c = ch CHR ''>'' then map_prod Some id (emit_tag (eat (commit_pending_attr t)))
          else (None, push_value [c] (eat t)))"

definition after_attribute_value_quoted_state :: "html_tokenizer \<Rightarrow> tok_step" where
  "after_attribute_value_quoted_state t =
     (case peek t of
        None \<Rightarrow> eof_in_tag t
      | Some c \<Rightarrow>
          if is_html_space c then (None, (eat t)\<lparr>state := BeforeAttributeName\<rparr>)
          else if c = ch CHR ''/'' then (None, (eat t)\<lparr>state := SelfClosingStartTag\<rparr>)
          else if c = ch CHR ''>'' then map_prod Some id (emit_tag (eat t))
          else (None, t\<lparr>state := BeforeAttributeName\<rparr>))"

definition self_closing_start_tag_state :: "html_tokenizer \<Rightarrow> tok_step" where
  "self_closing_start_tag_state t =
     (case peek t of
        None \<Rightarrow> eof_in_tag t
      | Some c \<Rightarrow>
          if c = ch CHR ''>'' then map_prod Some id (emit_tag (eat (t\<lparr>tag_self_closing := True\<rparr>)))
          else (None, t\<lparr>state := BeforeAttributeName\<rparr>))"

text \<open>The body of the loop of \<open>next_token\<close>.\<close>

definition next_token_step :: "html_tokenizer \<Rightarrow> tokenizer_panic + tok_step" where
  "next_token_step t =
     (case state t of
        tok_state.Data \<Rightarrow>
          (case content_model t of
             Rcdata \<Rightarrow> Inr (map_prod Some id (consume_rawtext_or_rcdata True t))
           | Rawtext \<Rightarrow> Inr (map_prod Some id (consume_rawtext_or_rcdata False t))
           | ScriptData \<Rightarrow> map_sum id (map_prod Some id) (consume_script_data t)
           | content_model.Data \<Rightarrow> Inr (data_state t))
      | TagOpen \<Rightarrow> Inr (tag_open_state t)
      | EndTagOpen \<Rightarrow> Inr (end_tag_open_state t)
      | TagName \<Rightarrow> Inr (tag_name_state t)
      | BeforeAttributeName \<Rightarrow> Inr (before_attribute_name_state t)
      | AttributeName \<Rightarrow> Inr (attribute_name_state t)
      | AfterAttributeName \<Rightarrow> Inr (after_attribute_name_state t)
      | BeforeAttributeValue \<Rightarrow> Inr (before_attribute_value_state t)
      | AttributeValueDoubleQuoted \<Rightarrow> Inr (attribute_value_quoted_state 0x22 t)
      | AttributeValueSingleQuoted \<Rightarrow> Inr (attribute_value_quoted_state 0x27 t)
      | AttributeValueUnquoted \<Rightarrow> Inr (attribute_value_unquoted_state t)
      | AfterAttributeValueQuoted \<Rightarrow> Inr (after_attribute_value_quoted_state t)
      | SelfClosingStartTag \<Rightarrow> Inr (self_closing_start_tag_state t))"

lemmas state_defs = data_state_def tag_open_state_def end_tag_open_state_def
  tag_name_state_def before_attribute_name_state_def attribute_name_state_def
  after_attribute_name_state_def before_attribute_value_state_def
  attribute_value_quoted_state_def attribute_value_unquoted_state_def
  after_attribute_value_quoted_state_def self_closing_start_tag_state_def

text \<open>A round that returns no token reads a character, or moves to a state of smaller rank.\<close>

definition rank :: "tok_state \<Rightarrow> nat" where
  "rank s =
     (case s of
        tok_state.Data \<Rightarrow> 0 | TagName \<Rightarrow> 1 | AttributeName \<Rightarrow> 1 | AttributeValueUnquoted \<Rightarrow> 1
      | AttributeValueDoubleQuoted \<Rightarrow> 1 | AttributeValueSingleQuoted \<Rightarrow> 1
      | TagOpen \<Rightarrow> 2 | EndTagOpen \<Rightarrow> 2 | BeforeAttributeName \<Rightarrow> 2 | AfterAttributeName \<Rightarrow> 2
      | BeforeAttributeValue \<Rightarrow> 2 | AfterAttributeValueQuoted \<Rightarrow> 3 | SelfClosingStartTag \<Rightarrow> 3)"

lemma map_prod_Some [simp]: "map_prod Some id p = (r, t) \<longleftrightarrow> r = Some (fst p) \<and> t = snd p"
  by (cases p) auto

lemma map_sum_Some [simp]:
  "map_sum id (map_prod Some id) p = Inr (r, t) \<longleftrightarrow> (\<exists>tok. p = Inr (tok, t) \<and> r = Some tok)"
  "map_sum id (map_prod Some id) p = Inl e \<longleftrightarrow> p = Inl e"
  by (cases p; auto)+

lemma character_reference_length:
  "consume_character_reference t = (s, t') \<Longrightarrow> length (rest t') \<le> length (rest t)"
  using moves_length [OF moves_character_reference [of t]] by simp

lemma next_token_step_progress:
  assumes "next_token_step t = Inr (None, t')"
  shows "length (rest t') < length (rest t) \<or>
         length (rest t') = length (rest t) \<and> rank (state t') < rank (state t)"
  using assms
  by (cases "state t")
    (auto simp: next_token_step_def state_defs eof_in_tag_def rank_def begin_tag_def
      Let_def advance_simps peek_eq_iff dest!: character_reference_length
      split: option.splits if_splits prod.splits content_model.splits)

function next_html_token ::
  "html_tokenizer \<Rightarrow> tokenizer_panic + (html_token \<times> html_tokenizer)" where
  "next_html_token t =
     (case next_token_step t of
        Inl p \<Rightarrow> Inl p
      | Inr (Some tok, t') \<Rightarrow> Inr (tok, t')
      | Inr (None, t') \<Rightarrow> next_html_token t')"
  by pat_completeness auto
termination
  by (relation "measures [\<lambda>t. length (rest t), \<lambda>t. rank (state t)]")
     (auto dest: next_token_step_progress)

declare next_html_token.simps [simp del]

end
