(* ===== verification/Html_Tokens.thy ===== *)
theory Html_Tokens
  imports Html_Tokenizer
begin

text \<open>
  What the HTML tokenizer guarantees to the tree builder: it never panics as long as script
  content is only asked for after a \<open>script\<close> start tag, every token but the end mark makes
  progress, and tag and attribute names are normalised.
\<close>

section \<open>The invariant\<close>

definition no_upper :: "rstring \<Rightarrow> bool" where
  "no_upper s \<longleftrightarrow> (\<forall>c\<in>set s. \<not> is_ascii_uppercase c)"

definition wf_name :: "rstring \<Rightarrow> bool" where
  "wf_name s \<longleftrightarrow> s \<noteq> [] \<and> no_upper s"

definition wf_attrs :: "(rstring \<times> rstring) list \<Rightarrow> bool" where
  "wf_attrs attrs \<longleftrightarrow> distinct (map fst attrs) \<and> (\<forall>n\<in>fst ` set attrs. wf_name n)"

definition wf_token :: "html_token \<Rightarrow> bool" where
  "wf_token tok \<longleftrightarrow>
     (case tok of
        StartTag name attrs _ \<Rightarrow> wf_name name \<and> wf_attrs attrs
      | EndTag name \<Rightarrow> wf_name name
      | Character s \<Rightarrow> s \<noteq> []
      | _ \<Rightarrow> True)"

definition in_tag :: "tok_state \<Rightarrow> bool" where
  "in_tag s \<longleftrightarrow> s \<noteq> tok_state.Data \<and> s \<noteq> TagOpen \<and> s \<noteq> EndTagOpen"

definition tok_inv :: "html_tokenizer \<Rightarrow> bool" where
  "tok_inv t \<longleftrightarrow>
     (state t \<noteq> tok_state.Data \<longrightarrow> text_buffer t = [] \<and> content_model t = content_model.Data) \<and>
     (content_model t = ScriptData \<longrightarrow> last_start_tag_name t = Some (chars ''script'')) \<and>
     (\<forall>n. last_start_tag_name t = Some n \<longrightarrow> wf_name n) \<and>
     no_upper (tag_name t) \<and> no_upper (attr_name t) \<and> wf_attrs (tag_attrs t) \<and>
     (in_tag (state t) \<longrightarrow> tag_name t \<noteq> [] \<or>
        state t = TagName \<and> (\<exists>c. peek t = Some c \<and> is_ascii_alphabetic c))"

text \<open>Between two tokens the tokenizer is in its data state with nothing buffered.\<close>

definition tok_ready :: "html_tokenizer \<Rightarrow> bool" where
  "tok_ready t \<longleftrightarrow> tok_inv t \<and> state t = tok_state.Data \<and> text_buffer t = []"

definition pending :: "html_tokenizer \<Rightarrow> nat" where
  "pending t =
     2 * length (rest t) + (if state t = tok_state.Data \<and> text_buffer t = [] then 0 else 1)"

definition token_ok :: "html_tokenizer \<Rightarrow> html_token \<Rightarrow> html_tokenizer \<Rightarrow> bool" where
  "token_ok t tok t' \<longleftrightarrow>
     wf_token tok \<and> tok_ready t' \<and> pending t' \<le> pending t \<and> (tok \<noteq> Eof \<longrightarrow> pending t' < pending t) \<and>
     (\<forall>n attrs sc. tok = StartTag n attrs sc \<longrightarrow> last_start_tag_name t' = Some n)"

lemma no_upper_simps [simp]:
  "no_upper []" "no_upper (s @ [to_lower c]) \<longleftrightarrow> no_upper s"
  by (auto simp: no_upper_def to_lower_def is_ascii_uppercase_def)

lemma wf_attrs_simps [simp]:
  "wf_attrs []"
  "wf_attrs (attrs @ [(n, v)]) \<longleftrightarrow> wf_attrs attrs \<and> wf_name n \<and> n \<notin> fst ` set attrs"
  by (auto simp: wf_attrs_def)

section \<open>Text\<close>

lemma flush_token_ok:
  assumes "tok_inv t" "state t = tok_state.Data" "flush_text_or_eof t = (tok, t')"
  shows "token_ok t tok t'"
  using assms
  by (auto simp: token_ok_def flush_text_or_eof_def tok_ready_def tok_inv_def pending_def
      wf_token_def split: if_splits)

lemma tok_inv_data:
  assumes "tok_inv t" "state t = tok_state.Data" "state t' = state t"
    "content_model t' = content_model t" "last_start_tag_name t' = last_start_tag_name t"
    "tag_name t' = tag_name t" "attr_name t' = attr_name t" "tag_attrs t' = tag_attrs t"
  shows "tok_inv t'"
  using assms by (simp add: tok_inv_def in_tag_def)

lemma matches_ignore_case_iff:
  "matches_ahead_ignore_case t s \<longleftrightarrow>
     to_ascii_lowercase (take (length s) (rest t)) = to_ascii_lowercase s"
proof -
  have "list_all (\<lambda>(i, c). case (if i < length xs then Some (xs ! i) else None) of
            Some d \<Rightarrow> char_eq_ignore_ascii_case d c | None \<Rightarrow> False) (enumerate n s) \<longleftrightarrow>
        to_ascii_lowercase (take (length s) (drop n xs)) = to_ascii_lowercase s" for xs :: rstring and n
  proof (induction s arbitrary: n)
    case (Cons c s)
    show ?case
    proof (cases "n < length xs")
      case True
      then have "drop n xs = xs ! n # drop (Suc n) xs" by (simp add: Cons_nth_drop_Suc)
      with True Cons [of "Suc n"] show ?thesis by (simp add: char_eq_ignore_ascii_case_def)
    qed simp
  qed simp
  from this [of "rest t" 0] show ?thesis
    by (simp add: matches_ahead_ignore_case_def peek_at_rest)
qed

lemma matches_ignore_case_length:
  "matches_ahead_ignore_case t s \<Longrightarrow> length s \<le> length (rest t)"
  by (metis matches_ignore_case_iff length_take length_to_ascii_lowercase min.cobounded1)

lemma moves_end_tag_loop: "moves t (end_tag_loop quote t)"
proof (induction quote t rule: end_tag_loop.induct)
  case (1 quote t)
  show ?case
  proof (cases "rest t")
    case Nil
    then show ?thesis by (simp add: end_tag_loop.simps [of quote t] advance_simps)
  next
    case (Cons c cs)
    then have a: "advance t = (Some c, skip 1 t)" by (simp add: advance_simps)
    have m: "moves t (skip 1 t)" using Cons by (intro moves_skip) simp
    from 1 [OF a [symmetric] refl] m a show ?thesis
      by (cases quote) (auto simp: end_tag_loop.simps [of _ t] intro: moves_trans)
  qed
qed

lemma push_chars_eq:
  "n \<le> length (rest t) \<Longrightarrow> push_chars n t = Inr (push_text (take n (rest t)) (skip n t))"
proof (induction n arbitrary: t)
  case 0
  then show ?case by (simp add: push_chars.simps [of 0] push_text_def)
next
  case (Suc n)
  then obtain c cs where r: "rest t = c # cs" by (cases "rest t") auto
  then have "push_chars (Suc n) t = push_chars n (push_text [c] (skip 1 t))"
    by (simp add: push_chars.simps [of "Suc n"] advance_simps)
  also have "\<dots> = Inr (push_text (take n cs) (skip n (push_text [c] (skip 1 t))))"
    using Suc r by (subst Suc.IH) simp_all
  also have "skip n (push_text [c] (skip 1 t)) = push_text [c] (skip (Suc n) t)"
    by (simp add: push_text_def skip_def)
  finally show ?case using r by (simp add: push_text_def)
qed

lemma appropriate_end_tag_ahead:
  assumes "matches_appropriate_end_tag_ahead t"
  obtains n where "last_start_tag_name t = Some n" "2 + length n < length (rest t)"
    "take 2 (rest t) = chars ''</''"
proof -
  from assms obtain n where n: "last_start_tag_name t = Some n"
      "peek_at t 0 = Some (ch CHR ''<'')" "peek_at t 1 = Some (ch CHR ''/'')"
      "ends_tag_name (peek_at t (2 + length n))"
    by (auto simp: matches_appropriate_end_tag_ahead_def split: option.splits)
  from n(4) have l: "2 + length n < length (rest t)"
    by (auto simp: ends_tag_name_def peek_at_rest split: option.splits if_splits)
  moreover from n(2,3) l have "take 2 (rest t) = chars ''</''"
    by (cases "rest t"; cases "tl (rest t)") (auto simp: peek_at_Some_iff)
  ultimately show ?thesis using that n(1) by blast
qed

lemma end_tag_token_ok:
  assumes "tok_inv t" "state t = tok_state.Data" "text_buffer t = []"
    "matches_appropriate_end_tag_ahead t" "consume_end_tag_simple t = (tok, t')"
  shows "token_ok t tok t'"
proof -
  obtain n where n: "last_start_tag_name t = Some n" "2 + length n < length (rest t)"
    using appropriate_end_tag_ahead [OF assms(4)] by metis
  obtain k where k: "end_tag_loop None (skip (2 + length n) t) = skip k t" "2 + length n \<le> k"
    using moves_end_tag_loop [of "skip (2 + length n) t" None] by (auto simp: moves_def)
  have t': "tok = EndTag n" "t' = (skip k t)\<lparr>state := tok_state.Data\<rparr>"
    using assms(5) n k by (auto simp: consume_end_tag_simple_def)
  have "tok_inv t'" using assms(1) by (rule tok_inv_data) (simp_all add: t' assms(2))
  moreover have "wf_name n" using assms(1) n by (simp add: tok_inv_def)
  ultimately show ?thesis
    using assms(2,3) n k(2) by (simp add: token_ok_def t' wf_token_def tok_ready_def pending_def)
qed

text \<open>Reading on in the data state.\<close>

lemma read_pending: "length (rest u) < length (rest t) \<Longrightarrow> pending u < pending t"
  by (simp add: pending_def)

lemma token_ok_after:
  "pending u \<le> pending t \<Longrightarrow> token_ok u tok t' \<Longrightarrow> token_ok t tok t'"
  by (auto simp: token_ok_def)

lemma token_ok_read:
  "length (rest u) < length (rest t) \<Longrightarrow> token_ok u tok t' \<Longrightarrow> token_ok t tok t'"
  using token_ok_after read_pending less_imp_le by blast

lemma character_reference_skip:
  assumes "consume_character_reference t = (s, t')"
  obtains k where "k \<le> length (rest t)" "t' = skip k t"
  using moves_character_reference [of t] assms by (auto simp: moves_def)

lemma rawtext_token_ok:
  assumes "tok_inv t" "state t = tok_state.Data" "consume_rawtext_or_rcdata rcdata t = (tok, t')"
  shows "token_ok t tok t'"
  using assms
proof (induction rcdata t rule: consume_rawtext_or_rcdata.induct)
  case (1 rcdata t)
  show ?case
  proof (cases "rest t")
    case Nil
    with 1(3-) show ?thesis
      by (simp add: consume_rawtext_or_rcdata.simps [of _ t] flush_token_ok)
  next
    case (Cons c cs)
    then have p: "peek t = Some c" and a: "eat t = skip 1 t" by (simp_all add: advance_simps)
    consider (close) "c = ch CHR ''<'' \<and> matches_appropriate_end_tag_ahead t"
      | (reference) s u where "\<not> (c = ch CHR ''<'' \<and> matches_appropriate_end_tag_ahead t)"
          "c = ch CHR ''&'' \<and> rcdata" "consume_character_reference (eat t) = (s, u)"
      | (other) "\<not> (c = ch CHR ''<'' \<and> matches_appropriate_end_tag_ahead t)"
          "\<not> (c = ch CHR ''&'' \<and> rcdata)"
      by (metis surj_pair)
    then show ?thesis
    proof cases
      case close
      with 1(3-) p show ?thesis
        by (auto simp: consume_rawtext_or_rcdata.simps [of _ t] split: if_splits
            intro: flush_token_ok end_tag_token_ok)
    next
      case reference
      obtain k where k: "u = skip k (skip 1 t)"
        using character_reference_skip [OF reference(3)] a by metis
      from reference p 1(5) have "consume_rawtext_or_rcdata rcdata (push_text s u) = (tok, t')"
        by (simp add: consume_rawtext_or_rcdata.simps [of _ t])
      with 1(1) [OF p reference(1,2) refl reference(3) [symmetric]] 1(3,4)
      have "token_ok (push_text s u) tok t'"
        using tok_inv_data [OF 1(3,4), of "push_text s u"] by (simp add: k)
      then show ?thesis by (rule token_ok_read [rotated]) (simp add: k Cons)
    next
      case other
      let ?u = "push_text [replace_null c] (skip 1 t)"
      from other p 1(5) have "consume_rawtext_or_rcdata rcdata ?u = (tok, t')"
        by (auto simp: consume_rawtext_or_rcdata.simps [of _ t] a simp del: skip_simps One_nat_def)
      with 1(2) [OF p other] 1(3,4) have "token_ok ?u tok t'"
        using tok_inv_data [OF 1(3,4), of ?u] by (simp add: a)
      then show ?thesis by (rule token_ok_read [rotated]) (simp add: Cons)
    qed
  qed
qed

lemma start_tag_like_length:
  "matches_start_tag_like_ahead t name \<Longrightarrow> length name < length (rest t)"
  by (auto simp: matches_start_tag_like_ahead_def ends_tag_name_def peek_at_rest
      split: option.splits if_splits)

lemma skip_push_text: "skip k (push_text s t) = push_text s (skip k t)"
  by (simp add: push_text_def skip_def)

lemma script_data_token_ok:
  assumes "tok_inv t" "state t = tok_state.Data" "last_start_tag_name t = Some (chars ''script'')"
  shows "\<exists>tok t'. consume_script_data_loop st t = Inr (tok, t') \<and> token_ok t tok t'"
  using assms
proof (induction "length (rest t)" arbitrary: t st rule: less_induct)
  case less
  let ?R = "\<lambda>st u. \<exists>tok t'. consume_script_data_loop st u = Inr (tok, t') \<and> token_ok t tok t'"
  note loop = consume_script_data_loop.simps [of _ t]
  have flush: "token_ok t (fst (flush_text_or_eof t)) (snd (flush_text_or_eof t))"
    using flush_token_ok [OF less(2,3)] by (metis prod.collapse)
  show ?case
  proof (cases "rest t")
    case Nil
    with flush show ?thesis by (cases "flush_text_or_eof t") (auto simp: loop)
  next
    case (Cons c cs)
    then have p: "peek t = Some c" and a: "eat t = skip 1 t" by (simp_all add: advance_simps)
    have IH: "?R st' (push_text s (skip k t))" if "0 < k" for st' s k
    proof -
      let ?u = "push_text s (skip k t)"
      have l: "length (rest ?u) < length (rest t)" using Cons that by simp
      have "tok_inv ?u" using less(2,3) by (rule tok_inv_data) simp_all
      with less(1) [OF l] less(3,4) obtain tok t'
        where "consume_script_data_loop st' ?u = Inr (tok, t')" "token_ok ?u tok t'"
        by (metis push_text_keeps(1,3) skip_keeps(1,3))
      with token_ok_read [OF l] show ?thesis by blast
    qed
    have close: "\<exists>tok t'. (if text_buffer t \<noteq> [] then flush_text_or_eof t
        else consume_end_tag_simple t) = (tok, t') \<and> token_ok t tok t'" (is "?C")
      if "matches_appropriate_end_tag_ahead t"
      using flush end_tag_token_ok [OF less(2,3) _ that]
      by (cases "flush_text_or_eof t"; cases "consume_end_tag_simple t") auto
    have eight: "push_chars (length ''</script'') t =
        Inr (push_text (take (length ''</script'') (rest t)) (skip (length ''</script'') t))"
      if "matches_appropriate_end_tag_ahead t"
    proof -
      from appropriate_end_tag_ahead [OF that] obtain n
        where "last_start_tag_name t = Some n" "2 + length n < length (rest t)" .
      with less(4) show ?thesis by (intro push_chars_eq) simp
    qed
    have seven: "push_chars (length ''<script'') t =
        Inr (push_text (take (length ''<script'') (rest t)) (skip (length ''<script'') t))"
      if "matches_start_tag_like_ahead t (chars ''script'')"
      using start_tag_like_length [OF that] by (intro push_chars_eq) simp
    show ?thesis
    proof (cases "c = ch CHR ''<'' \<and> matches_appropriate_end_tag_ahead t")
      case True
      with close eight IH show ?thesis by (cases st) (simp_all add: loop p)
    next
      case False
      with seven show ?thesis
        by (cases st) (simp_all add: loop p a skip_push_text IH, blast+)
    qed
  qed
qed

section \<open>Tags\<close>

text \<open>Inside a tag whose name has been started.\<close>

definition tag_inv :: "html_tokenizer \<Rightarrow> bool" where
  "tag_inv t \<longleftrightarrow>
     text_buffer t = [] \<and> content_model t = content_model.Data \<and>
     (\<forall>n. last_start_tag_name t = Some n \<longrightarrow> wf_name n) \<and>
     wf_name (tag_name t) \<and> no_upper (attr_name t) \<and> wf_attrs (tag_attrs t)"

lemma tag_inv_tok_inv: "tag_inv t \<Longrightarrow> tok_inv t"
  by (auto simp: tag_inv_def tok_inv_def wf_name_def)

lemma tok_inv_tag_inv:
  "tok_inv t \<Longrightarrow> in_tag (state t) \<Longrightarrow>
   state t \<noteq> TagName \<or> (\<forall>c. peek t = Some c \<longrightarrow> \<not> is_ascii_alphabetic c) \<Longrightarrow> tag_inv t"
  by (auto simp: tag_inv_def tok_inv_def wf_name_def in_tag_def)

lemma tag_inv_keeps [simp]:
  "tag_inv (skip k t) = tag_inv t" "tag_inv (push_value s t) = tag_inv t"
  "tag_inv (t\<lparr>state := st\<rparr>) = tag_inv t" "tag_inv (t\<lparr>tag_self_closing := b\<rparr>) = tag_inv t"
  "tag_inv (t\<lparr>attr_value := v\<rparr>) = tag_inv t"
  by (simp_all add: tag_inv_def)

lemma tag_inv_names [simp]:
  "tag_inv t \<Longrightarrow> tag_inv (t\<lparr>attr_name := []\<rparr>)"
  "tag_inv t \<Longrightarrow> tag_inv ((skip k t)\<lparr>attr_name := attr_name t @ [to_lower c]\<rparr>)"
  "tag_inv t \<Longrightarrow> tag_inv ((skip k t)\<lparr>tag_name := tag_name t @ [to_lower c]\<rparr>)"
  by (simp_all add: tag_inv_def wf_name_def)

lemma commit_keeps [simp]:
  "state (commit_pending_attr t) = state t" "text_buffer (commit_pending_attr t) = text_buffer t"
  "content_model (commit_pending_attr t) = content_model t"
  "last_start_tag_name (commit_pending_attr t) = last_start_tag_name t"
  "tag_name (commit_pending_attr t) = tag_name t" "attr_name (commit_pending_attr t) = []"
  "tag_is_end (commit_pending_attr t) = tag_is_end t"
  "tag_self_closing (commit_pending_attr t) = tag_self_closing t"
  by (simp_all add: commit_pending_attr_def Let_def)

lemma tag_inv_commit [simp]: "tag_inv t \<Longrightarrow> tag_inv (commit_pending_attr t)"
  by (auto simp: tag_inv_def commit_pending_attr_def wf_name_def list_ex_iff Let_def)

lemma emit_tag_ok:
  assumes "tag_inv t" "emit_tag t = (tok, t')"
  shows "wf_token tok \<and> tok_ready t' \<and> rest t' = rest t \<and>
    (\<forall>n attrs sc. tok = StartTag n attrs sc \<longrightarrow> last_start_tag_name t' = Some n)"
proof -
  note tag_inv_commit [OF assms(1)]
  then show ?thesis
    using assms(2)
    by (auto simp: emit_tag_def Let_def tok_ready_def tok_inv_def tag_inv_def wf_token_def in_tag_def
        split: if_splits)
qed

lemma emit_tag_token_ok:
  assumes "tag_inv u" "length (rest u) < length (rest t)"
  shows "token_ok t (fst (emit_tag u)) (snd (emit_tag u))"
  using emit_tag_ok [OF assms(1)] assms(2)
  by (cases "emit_tag u") (simp add: token_ok_def tok_ready_def pending_def)

definition step_ok :: "html_tokenizer \<Rightarrow> tok_step \<Rightarrow> bool" where
  "step_ok t r \<longleftrightarrow>
     (case r of
        (Some tok, t') \<Rightarrow> token_ok t tok t'
      | (None, t') \<Rightarrow> tok_inv t' \<and> pending t' \<le> pending t)"

lemma step_ok_return: "token_ok t (fst p) (snd p) \<Longrightarrow> step_ok t (map_prod Some id p)"
  by (cases p) (simp add: step_ok_def)

lemma eof_in_tag_ok: "tag_inv t \<Longrightarrow> step_ok t (eof_in_tag t)"
  by (simp add: step_ok_def eof_in_tag_def token_ok_def tok_ready_def wf_token_def
      tag_inv_tok_inv pending_def tag_inv_def)

lemma step_ok_go:
  "tag_inv u \<Longrightarrow> length (rest u) < length (rest t) \<or> state t \<noteq> tok_state.Data \<and> rest u = rest t \<Longrightarrow>
   step_ok t (None, u)"
  by (auto simp: step_ok_def tag_inv_tok_inv pending_def)

lemma eat_updates [simp]:
  "rest t = c # cs \<Longrightarrow> eat t = skip 1 t"
  "rest t = c # cs \<Longrightarrow> eat (commit_pending_attr t) = skip 1 (commit_pending_attr t)"
  by (simp_all add: advance_simps)

lemma attribute_reference_ok:
  assumes "tag_inv t" "rest t = c # cs"
  shows "step_ok t (case consume_character_reference (skip 1 t) of (s, t') \<Rightarrow> (None, push_value s t'))"
proof -
  obtain s u where r: "consume_character_reference (skip 1 t) = (s, u)" by fastforce
  from character_reference_skip [OF this] obtain k where "u = skip k (skip 1 t)" by metis
  with r assms show ?thesis by (auto intro!: step_ok_go)
qed

section \<open>The states\<close>

lemma in_tag_step_ok:
  assumes "tok_inv t" "in_tag (state t)" "state t \<noteq> TagName" "next_token_step t = Inr r"
  shows "step_ok t r"
proof -
  have inv: "tag_inv t" using assms by (intro tok_inv_tag_inv) auto
  show ?thesis
  proof (cases "rest t")
    case Nil
    then show ?thesis
      using inv assms(2,3,4) eof_in_tag_ok [OF inv]
      by (cases "state t")
        (simp_all add: next_token_step_def state_defs in_tag_def)
  next
    case (Cons c cs)
    then show ?thesis
      using inv assms(2,3,4) attribute_reference_ok [OF inv Cons]
      by (cases "state t")
        (auto simp: next_token_step_def state_defs in_tag_def Let_def
          intro!: step_ok_go step_ok_return emit_tag_token_ok simp del: One_nat_def split: if_splits)
  qed
qed

lemma not_alphabetic:
  "is_ascii_alphabetic c \<Longrightarrow> \<not> is_html_space c \<and> c \<noteq> ch CHR ''/'' \<and> c \<noteq> ch CHR ''>''"
  by (auto simp: char_class_defs is_html_space_def)

lemma tag_name_step_ok:
  assumes "tok_inv t" "state t = TagName"
  shows "step_ok t (tag_name_state t)"
proof (cases "\<exists>c. peek t = Some c \<and> is_ascii_alphabetic c")
  case True
  then obtain c cs where c: "rest t = c # cs" "is_ascii_alphabetic c" by (auto simp: peek_eq_iff)
  then have "tag_name_state t = (None, (skip 1 t)\<lparr>tag_name := tag_name t @ [to_lower c]\<rparr>)"
    using not_alphabetic [OF c(2)] by (simp add: tag_name_state_def)
  moreover have "tag_inv ((skip 1 t)\<lparr>tag_name := tag_name t @ [to_lower c]\<rparr>)"
    using assms by (simp add: tag_inv_def tok_inv_def wf_name_def)
  ultimately show ?thesis using c by (auto intro!: step_ok_go)
next
  case False
  with assms have inv: "tag_inv t" by (intro tok_inv_tag_inv) (auto simp: in_tag_def)
  show ?thesis
    using inv eof_in_tag_ok [OF inv]
    by (cases "rest t")
      (auto simp: tag_name_state_def intro!: step_ok_go step_ok_return emit_tag_token_ok
        simp del: One_nat_def split: if_splits)
qed

text \<open>Comments and doctypes, after \<open><!\<close>, \<open><?\<close> or \<open></\<close>.\<close>

lemma comment_loop_skip: "\<exists>k. consume_comment_loop t = skip k t"
proof (induction t rule: consume_comment_loop.induct)
  case (1 t)
  show ?case
  proof (cases "rest t")
    case Nil
    then show ?thesis
      by (auto simp: consume_comment_loop.simps [of t] matches_ahead_iff intro: exI [of _ 0])
  next
    case (Cons c cs)
    with 1 show ?thesis by (auto simp: consume_comment_loop.simps [of t])
  qed
qed

lemma bogus_comment_skip:
  "\<exists>k. consume_bogus_comment t = (Comment, (skip k t)\<lparr>state := tok_state.Data\<rparr>)"
  "\<exists>k. consume_doctype t = (Doctype, (skip k t)\<lparr>state := tok_state.Data\<rparr>)"
proof -
  let ?u = "snd (consume_while (\<lambda>c. c \<noteq> ch CHR ''>'') t [])"
  obtain m where "?u = skip m t" using consume_while_eq by (metis snd_conv)
  moreover obtain n where "eat ?u = skip n ?u" using moves_advance [of ?u] by (auto simp: moves_def)
  ultimately have "eat ?u = skip (m + n) t" by simp
  then show "\<exists>k. consume_bogus_comment t = (Comment, (skip k t)\<lparr>state := tok_state.Data\<rparr>)"
    "\<exists>k. consume_doctype t = (Doctype, (skip k t)\<lparr>state := tok_state.Data\<rparr>)"
    by (auto simp: consume_bogus_comment_def consume_doctype_def)
qed

lemma comment_skip: "\<exists>k. consume_comment t = (Comment, (skip k t)\<lparr>state := tok_state.Data\<rparr>)"
  using comment_loop_skip [of t] by (auto simp: consume_comment_def)

lemma dropped_token_ok:
  assumes "tok_inv t" "state t \<noteq> tok_state.Data" "wf_token tok \<and> (\<forall>n attrs sc. tok \<noteq> StartTag n attrs sc)"
  shows "token_ok t tok ((skip k t)\<lparr>state := tok_state.Data\<rparr>)"
  using assms by (auto simp: token_ok_def tok_ready_def tok_inv_def in_tag_def pending_def)

lemma dropped_step_ok:
  assumes "tok_inv t" "state t \<noteq> tok_state.Data" "wf_token tok \<and> (\<forall>n attrs sc. tok \<noteq> StartTag n attrs sc)"
    "\<exists>k. p = (tok, (skip k (skip m t))\<lparr>state := tok_state.Data\<rparr>)"
  shows "step_ok t (map_prod Some id p)"
  using assms(4) dropped_token_ok [OF assms(1-3)] by (auto intro!: step_ok_return)

lemma begin_tag_ok:
  assumes "tok_inv t" "state t = TagOpen \<or> state t = EndTagOpen" "peek t = Some c" "is_ascii_alphabetic c"
  shows "step_ok t (None, begin_tag e t)"
proof -
  have "peek (begin_tag e t) = peek t" "rest (begin_tag e t) = rest t"
    by (simp_all add: begin_tag_def peek_def peek_at_def)
  with assms show ?thesis
    by (auto simp: step_ok_def tok_inv_def begin_tag_def pending_def in_tag_def)
qed

lemma tag_open_step_ok:
  assumes "tok_inv t" "state t = TagOpen"
  shows "step_ok t (tag_open_state t)"
proof (cases "rest t")
  case Nil
  then show ?thesis
    using dropped_token_ok [of t _ 0] assms
    by (simp add: tag_open_state_def step_ok_def wf_token_def)
next
  case (Cons c cs)
  have dropped: "step_ok t (map_prod Some id (consume_comment (skip m t)))"
    "step_ok t (map_prod Some id (consume_bogus_comment (skip m t)))"
    "step_ok t (map_prod Some id (consume_doctype (skip m t)))" for m
    using dropped_step_ok [OF assms(1) _ _ comment_skip]
      dropped_step_ok [OF assms(1) _ _ bogus_comment_skip(1)]
      dropped_step_ok [OF assms(1) _ _ bogus_comment_skip(2)] assms(2)
    by (simp_all add: wf_token_def)
  have other: "step_ok t (None, (skip 1 t)\<lparr>state := EndTagOpen\<rparr>)"
    "step_ok t (None, push_text [60] (t\<lparr>state := tok_state.Data\<rparr>))"
    using assms Cons by (auto simp: step_ok_def tok_inv_def pending_def in_tag_def)
  show ?thesis
    using assms(2) Cons other dropped dropped(2) [of 0] begin_tag_ok [OF assms(1) _ _, of c False]
    by (simp add: tag_open_state_def Let_def)
qed

lemma end_tag_open_step_ok:
  assumes "tok_inv t" "state t = EndTagOpen"
  shows "step_ok t (end_tag_open_state t)"
proof (cases "rest t")
  case Nil
  then show ?thesis
    using dropped_token_ok [of t _ 0] assms
    by (simp add: end_tag_open_state_def step_ok_def wf_token_def)
next
  case (Cons c cs)
  have "step_ok t (map_prod Some id (consume_bogus_comment t))"
    using dropped_step_ok [OF assms(1) _ _ bogus_comment_skip(1), of 0] assms(2)
    by (simp add: wf_token_def)
  moreover have "step_ok t (None, (skip 1 t)\<lparr>state := tok_state.Data\<rparr>)"
    using assms Cons by (auto simp: step_ok_def tok_inv_def pending_def in_tag_def)
  ultimately show ?thesis
    using assms(2) Cons begin_tag_ok [OF assms(1) _ _, of c True]
    by (auto simp: end_tag_open_state_def)
qed

lemma data_step_ok:
  assumes "tok_inv t" "state t = tok_state.Data" "content_model t = content_model.Data"
  shows "step_ok t (data_state t)"
proof -
  have flush: "step_ok t (map_prod Some id (flush_text_or_eof t))"
    using flush_token_ok [OF assms(1,2)] by (intro step_ok_return) (metis prod.collapse)
  show ?thesis
  proof (cases "rest t")
    case Nil
    with flush show ?thesis by (simp add: data_state_def)
  next
    case (Cons c cs)
    have read: "step_ok t (None, push_text s (skip (Suc k) t))" for s k
      using assms tok_inv_data [OF assms(1,2), of "push_text s (skip (Suc k) t)"] Cons
      by (simp add: step_ok_def read_pending less_imp_le)
    obtain s u where r: "consume_character_reference (skip 1 t) = (s, u)" by fastforce
    from character_reference_skip [OF this] obtain k where "u = skip (Suc k) t" by auto
    moreover have "step_ok t (None, (skip 1 t)\<lparr>state := TagOpen\<rparr>)" if "text_buffer t = []"
      using assms Cons that by (auto simp: step_ok_def tok_inv_def pending_def in_tag_def)
    ultimately show ?thesis
      using flush read [of _ 0] read [of s k] Cons r by (simp add: data_state_def)
  qed
qed

lemma next_token_step_ok:
  assumes "tok_inv t"
  shows "\<exists>r. next_token_step t = Inr r \<and> step_ok t r"
proof (cases "state t")
  case Data
  have raw: "step_ok t (map_prod Some id (consume_rawtext_or_rcdata b t))" for b
    using rawtext_token_ok [OF assms Data] by (intro step_ok_return) (metis prod.collapse)
  have "\<exists>r. map_sum id (map_prod Some id) (consume_script_data t) = Inr r \<and> step_ok t r"
    if "content_model t = ScriptData"
  proof -
    from that assms have "last_start_tag_name t = Some (chars ''script'')" by (simp add: tok_inv_def)
    from script_data_token_ok [OF assms Data this, of Plain] show ?thesis
      by (auto simp: consume_script_data_def step_ok_def)
  qed
  with raw data_step_ok [OF assms Data] Data show ?thesis
    by (cases "content_model t") (simp_all add: next_token_step_def)
next
  case TagName
  with tag_name_step_ok [OF assms] show ?thesis by (simp add: next_token_step_def)
next
  case TagOpen
  with tag_open_step_ok [OF assms] show ?thesis by (simp add: next_token_step_def)
next
  case EndTagOpen
  with end_tag_open_step_ok [OF assms] show ?thesis by (simp add: next_token_step_def)
qed (use in_tag_step_ok [OF assms] in \<open>simp_all add: next_token_step_def in_tag_def\<close>)

lemma next_html_token_ok:
  "tok_inv t \<Longrightarrow> \<exists>tok t'. next_html_token t = Inr (tok, t') \<and> token_ok t tok t'"
proof (induction t rule: next_html_token.induct)
  case (1 t)
  from next_token_step_ok [OF 1(2)] obtain r t'
    where r: "next_token_step t = Inr (r, t')" "step_ok t (r, t')" by auto
  show ?case
  proof (cases r)
    case None
    with 1(1) [OF r(1) refl None] r show ?thesis
      by (auto simp: next_html_token.simps [of t] step_ok_def intro: token_ok_after)
  next
    case (Some tok)
    with r show ?thesis by (simp add: next_html_token.simps [of t] step_ok_def)
  qed
qed

text \<open>
  The reader may switch the content model between two tokens; script data only after a
  \<open>script\<close> start tag.
\<close>

definition may_switch :: "html_token \<Rightarrow> html_tokenizer \<Rightarrow> html_tokenizer \<Rightarrow> bool" where
  "may_switch tok t t' \<longleftrightarrow>
     t' = t \<or>
     (\<exists>model. t' = set_content_model t model \<and>
        (model = ScriptData \<longrightarrow> (\<exists>attrs sc. tok = StartTag (chars ''script'') attrs sc)))"

lemma may_switch_ready:
  assumes "token_ok t tok t'" "may_switch tok t' u"
  shows "tok_ready u \<and> pending u = pending t'"
proof (cases "u = t'")
  case True
  with assms(1) show ?thesis by (simp add: token_ok_def)
next
  case False
  with assms(2) obtain model where u: "u = set_content_model t' model"
      "model = ScriptData \<longrightarrow> (\<exists>attrs sc. tok = StartTag (chars ''script'') attrs sc)"
    by (auto simp: may_switch_def)
  from assms(1) have ready: "tok_inv t'" "state t' = tok_state.Data" "text_buffer t' = []"
    and name: "model = ScriptData \<longrightarrow> last_start_tag_name t' = Some (chars ''script'')"
    using u(2) by (auto simp: token_ok_def tok_ready_def)
  then show ?thesis
    by (simp add: u(1) set_content_model_def tok_ready_def tok_inv_def in_tag_def pending_def)
qed

interpretation html_stream:
  steered_stream next_html_token Eof tok_ready may_switch "\<lambda>t. length (rest t)"
proof
  fix s tok s' u
  assume ready: "tok_ready s"
  then have "tok_inv s" by (simp add: tok_ready_def)
  from next_html_token_ok [OF this] show "\<exists>tok s'. next_html_token s = Inr (tok, s')" by blast
  assume "next_html_token s = Inr (tok, s')" "may_switch tok s' u"
  moreover from this(1) next_html_token_ok [OF \<open>tok_inv s\<close>] have ok: "token_ok s tok s'" by simp
  ultimately have u: "tok_ready u" "pending u = pending s'" using may_switch_ready by blast+
  with ok ready have "tok \<noteq> Eof \<longrightarrow> length (rest u) < length (rest s)"
    by (auto simp: token_ok_def pending_def tok_ready_def)
  with u show "tok_ready u \<and> (tok \<noteq> Eof \<longrightarrow> length (rest u) < length (rest s))" by blast
qed

lemma new_html_tokenizer_ready: "tok_ready (new_html_tokenizer s)"
  by (simp add: new_html_tokenizer_def Let_def tok_ready_def tok_inv_def in_tag_def)

lemma length_str_replace:
  "length new \<le> length pat \<Longrightarrow> length (str_replace pat new s) \<le> length s"
proof (induction pat new s rule: str_replace.induct)
  case (1 pat new s)
  show ?case
  proof (cases s)
    case Nil
    then show ?thesis by (simp add: str_replace.simps)
  next
    case (Cons c cs)
    show ?thesis
    proof (cases "pat \<noteq> [] \<and> take (length pat) s = pat")
      case True
      then have "length pat \<le> length s" by (metis length_take min.cobounded1)
      moreover have "length (str_replace pat new (drop (length pat) s)) \<le> length s - length pat"
        using 1 Cons True by simp
      ultimately show ?thesis
        using 1(3) True Cons by (subst str_replace.simps) simp
    next
      case False
      with 1 Cons show ?thesis by (subst str_replace.simps) auto
    qed
  qed
qed

lemma new_html_tokenizer_length: "length (rest (new_html_tokenizer s)) \<le> length s"
proof -
  have "length (str_replace [0x0D] [0x0A] (str_replace [0x0D, 0x0A] [0x0A] s)) \<le>
        length (str_replace [0x0D, 0x0A] [0x0A] s)"
    by (rule length_str_replace) simp
  also have "\<dots> \<le> length s" by (rule length_str_replace) simp
  finally show ?thesis by (simp add: new_html_tokenizer_def Let_def rest_def)
qed

text \<open>
  C19. In every session of the tokenizer with a reader that switches the content model as it
  likes, but to script data only after a \<open>script\<close> start tag: the tokenizer does not panic on
  the next token, it has produced at most one token per character of the input, and every
  token is well formed (non-empty lower-case names, distinct attributes, non-empty text).
\<close>

theorem html_tokenizer_sessions:
  assumes "html_stream.session (new_html_tokenizer s) toks t"
  shows "(\<exists>tok t'. next_html_token t = Inr (tok, t')) \<and> length toks \<le> length s \<and>
    (\<forall>tok\<in>set toks. wf_token tok)"
proof -
  have "wf_token tok" if "tok_ready u" "next_html_token u = Inr (tok, u')" for u tok u'
    using that next_html_token_ok [of u] by (auto simp: tok_ready_def token_ok_def)
  then have "\<forall>tok\<in>set toks. wf_token tok"
    using html_stream.session_tokens [OF assms new_html_tokenizer_ready, of wf_token] by blast
  moreover have "length toks \<le> length s"
    using html_stream.session_length [OF assms new_html_tokenizer_ready]
      new_html_tokenizer_length [of s] by simp
  ultimately show ?thesis
    using html_stream.session_not_stuck [OF assms new_html_tokenizer_ready] by blast
qed

end
