(* ===== verification/Html_Printing.thy ===== *)
theory Html_Printing
  imports Html_Tokens
begin

text \<open>
  Printing tokens as HTML text and reading them back. Text and attribute values are escaped
  with the character references the tokenizer knows.
\<close>

section \<open>Printing\<close>

definition escape_char :: "scalar \<Rightarrow> rstring" where
  "escape_char c =
     (if c = ch CHR ''&'' then chars ''&amp;''
      else if c = ch CHR ''<'' then chars ''&lt;''
      else if c = 0x22 then chars ''&quot;''
      else [c])"

definition escape :: "rstring \<Rightarrow> rstring" where
  "escape s = concat (map escape_char s)"

definition print_attr :: "rstring \<times> rstring \<Rightarrow> rstring" where
  "print_attr a = (case a of (n, v) \<Rightarrow> [0x20] @ n @ [ch CHR ''='', 0x22] @ escape v @ [0x22])"

fun print_token :: "html_token \<Rightarrow> rstring" where
  "print_token Doctype = chars ''<!DOCTYPE>''"
| "print_token Comment = chars ''<!---->''"
| "print_token (StartTag n attrs sc) =
     [ch CHR ''<''] @ n @ concat (map print_attr attrs) @ (if sc then chars ''/>'' else chars ''>'')"
| "print_token (EndTag n) = chars ''</'' @ n @ chars ''>''"
| "print_token (Character s) = escape s"
| "print_token Eof = []"

definition printable_tag :: "rstring \<Rightarrow> bool" where
  "printable_tag n \<longleftrightarrow>
     wf_name n \<and> is_ascii_alphabetic (hd n) \<and>
     (\<forall>c\<in>set n. \<not> is_html_space c \<and> c \<noteq> ch CHR ''/'' \<and> c \<noteq> ch CHR ''>'')"

definition printable_attr :: "rstring \<times> rstring \<Rightarrow> bool" where
  "printable_attr a \<longleftrightarrow>
     wf_name (fst a) \<and>
     (\<forall>c\<in>set (fst a). \<not> is_html_space c \<and> c \<noteq> ch CHR ''/'' \<and> c \<noteq> ch CHR ''='' \<and> c \<noteq> ch CHR ''>'') \<and>
     0x0D \<notin> set (snd a)"

fun printable :: "html_token \<Rightarrow> bool" where
  "printable (StartTag n attrs sc) \<longleftrightarrow>
     printable_tag n \<and> distinct (map fst attrs) \<and> list_all printable_attr attrs"
| "printable (EndTag n) \<longleftrightarrow> printable_tag n"
| "printable (Character s) \<longleftrightarrow> s \<noteq> [] \<and> 0x0D \<notin> set s"
| "printable Eof \<longleftrightarrow> False"
| "printable _ \<longleftrightarrow> True"

definition is_text :: "html_token \<Rightarrow> bool" where
  "is_text tok \<longleftrightarrow> (case tok of Character _ \<Rightarrow> True | _ \<Rightarrow> False)"

text \<open>The tokenizer joins adjacent runs of text, so no two of them are printed in a row.\<close>

definition printable_tokens :: "html_token list \<Rightarrow> bool" where
  "printable_tokens toks \<longleftrightarrow>
     list_all printable toks \<and> successively (\<lambda>a b. \<not> (is_text a \<and> is_text b)) toks"

text \<open>Reading all tokens of a text, in the data content model throughout.\<close>

partial_function (option) html_tokenize :: "html_tokenizer \<Rightarrow> html_token list option" where
  "html_tokenize t =
     (case next_html_token t of
        Inl p \<Rightarrow> None
      | Inr r \<Rightarrow>
          if fst r = Eof then Some []
          else Option.bind (html_tokenize (snd r)) (\<lambda>toks. Some (fst r # toks)))"

section \<open>Reading text and names\<close>

lemma next_continue:
  "next_token_step t = Inr (None, t') \<Longrightarrow> next_html_token t = next_html_token t'"
  by (simp add: next_html_token.simps [of t])

lemma next_return:
  "next_token_step t = Inr (Some tok, t') \<Longrightarrow> next_html_token t = Inr (tok, t')"
  by (simp add: next_html_token.simps [of t])

lemma escape_simps [simp]: "escape [] = []" "escape (c # s) = escape_char c @ escape s"
  by (simp_all add: escape_def)

lemma escaped_reference:
  assumes "escape_char c \<noteq> [c]" "rest t = tl (escape_char c) @ r"
  shows "hd (escape_char c) = ch CHR ''&'' \<and>
    consume_character_reference t = ([c], skip (length (tl (escape_char c))) t)"
  using assms by (auto simp: escape_char_def consume_character_reference_def NAMED_REFERENCES_def
      matches_ahead_iff split: if_splits)

lemma read_escaped_text:
  assumes "state t = tok_state.Data" "content_model t = content_model.Data" "rest t = escape s @ r"
  shows "next_html_token t = next_html_token (push_text s (skip (length (escape s)) t))"
  using assms
proof (induction s arbitrary: t)
  case Nil
  then show ?case by (simp add: push_text_def)
next
  case (Cons c s)
  let ?u = "push_text [c] (skip (length (escape_char c)) t)"
  have "next_token_step t = Inr (None, ?u)"
  proof (cases "escape_char c = [c]")
    case True
    then have "c \<noteq> ch CHR ''&'' \<and> c \<noteq> ch CHR ''<''" by (auto simp: escape_char_def split: if_splits)
    with True Cons(2-) show ?thesis by (simp add: next_token_step_def data_state_def)
  next
    case False
    have ne: "escape_char c \<noteq> []" by (simp add: escape_char_def)
    have "rest (skip 1 t) = tl (escape_char c) @ escape s @ r"
      using Cons(4) ne by (cases "escape_char c") simp_all
    from escaped_reference [OF False this] Cons(2-) ne show ?thesis
      by (cases "escape_char c") (simp_all add: next_token_step_def data_state_def)
  qed
  then have "next_html_token t = next_html_token ?u" by (rule next_continue)
  also have "\<dots> = next_html_token (push_text s (skip (length (escape s)) ?u))"
    using Cons(2-) by (intro Cons.IH) simp_all
  finally show ?case by (simp add: push_text_def skip_def ac_simps)
qed

lemma read_escaped_value:
  assumes "state t = AttributeValueDoubleQuoted" "rest t = escape s @ r"
  shows "next_html_token t = next_html_token (push_value s (skip (length (escape s)) t))"
  using assms
proof (induction s arbitrary: t)
  case Nil
  then show ?case by (simp add: push_value_def)
next
  case (Cons c s)
  let ?u = "push_value [c] (skip (length (escape_char c)) t)"
  have "next_token_step t = Inr (None, ?u)"
  proof (cases "escape_char c = [c]")
    case True
    then have "c \<noteq> ch CHR ''&'' \<and> c \<noteq> 0x22" by (auto simp: escape_char_def split: if_splits)
    with True Cons(2-) show ?thesis
      by (simp add: next_token_step_def attribute_value_quoted_state_def)
  next
    case False
    have ne: "escape_char c \<noteq> []" by (simp add: escape_char_def)
    have "rest (skip 1 t) = tl (escape_char c) @ escape s @ r"
      using Cons(3) ne by (cases "escape_char c") simp_all
    from escaped_reference [OF False this] Cons(2-) ne show ?thesis
      by (cases "escape_char c") (simp_all add: next_token_step_def attribute_value_quoted_state_def)
  qed
  then have "next_html_token t = next_html_token ?u" by (rule next_continue)
  also have "\<dots> = next_html_token (push_value s (skip (length (escape s)) ?u))"
    using Cons(2-) by (intro Cons.IH) simp_all
  finally show ?case by (simp add: push_value_def skip_def ac_simps)
qed

lemma to_lower_no_upper: "\<not> is_ascii_uppercase c \<Longrightarrow> to_lower c = c"
  by (simp add: to_lower_def)

lemma read_tag_name:
  assumes "state t = TagName" "rest t = n @ r" "no_upper n"
    "\<forall>c\<in>set n. \<not> is_html_space c \<and> c \<noteq> ch CHR ''/'' \<and> c \<noteq> ch CHR ''>''"
  shows "next_html_token t = next_html_token ((skip (length n) t)\<lparr>tag_name := tag_name t @ n\<rparr>)"
  using assms
proof (induction n arbitrary: t)
  case (Cons c n)
  let ?u = "(skip 1 t)\<lparr>tag_name := tag_name t @ [c]\<rparr>"
  have "next_token_step t = Inr (None, ?u)"
    using Cons(2-) by (simp add: next_token_step_def tag_name_state_def to_lower_no_upper no_upper_def)
  then have "next_html_token t = next_html_token ?u" by (rule next_continue)
  also have "\<dots> = next_html_token ((skip (length n) ?u)\<lparr>tag_name := tag_name ?u @ n\<rparr>)"
    using Cons(2-) by (intro Cons.IH) (simp_all add: no_upper_def)
  finally show ?case by (simp add: skip_def ac_simps)
qed simp

lemma read_attr_name:
  assumes "state t = AttributeName" "rest t = n @ r" "no_upper n"
    "\<forall>c\<in>set n. \<not> is_html_space c \<and> c \<noteq> ch CHR ''/'' \<and> c \<noteq> ch CHR ''='' \<and> c \<noteq> ch CHR ''>''"
  shows "next_html_token t = next_html_token ((skip (length n) t)\<lparr>attr_name := attr_name t @ n\<rparr>)"
  using assms
proof (induction n arbitrary: t)
  case (Cons c n)
  let ?u = "(skip 1 t)\<lparr>attr_name := attr_name t @ [c]\<rparr>"
  have "next_token_step t = Inr (None, ?u)"
    using Cons(2-) by (simp add: next_token_step_def attribute_name_state_def to_lower_no_upper no_upper_def)
  then have "next_html_token t = next_html_token ?u" by (rule next_continue)
  also have "\<dots> = next_html_token ((skip (length n) ?u)\<lparr>attr_name := attr_name ?u @ n\<rparr>)"
    using Cons(2-) by (intro Cons.IH) (simp_all add: no_upper_def)
  finally show ?case by (simp add: skip_def ac_simps)
qed simp

section \<open>Reading tags\<close>

text \<open>After the name or an attribute of a tag: a blank, \<open>/\<close> or \<open>>\<close> is handled alike.\<close>

definition between_attrs :: "html_tokenizer \<Rightarrow> bool" where
  "between_attrs t \<longleftrightarrow> (state t = TagName \<or> state t = AfterAttributeValueQuoted) \<and> attr_name t = []"

lemma read_attr:
  assumes "between_attrs t" "rest t = print_attr (n, v) @ r" "printable_attr (n, v)"
    "n \<notin> fst ` set (tag_attrs t)"
  obtains t' where "next_html_token t = next_html_token t'" "between_attrs t'" "rest t' = r"
    "tag_attrs t' = tag_attrs t @ [(n, v)]" "tag_name t' = tag_name t" "tag_is_end t' = tag_is_end t"
    "text_buffer t' = text_buffer t" "content_model t' = content_model t"
    "tag_self_closing t' = tag_self_closing t"
proof -
  let ?e = "length (escape v)"
  define t1 where "t1 = (skip 1 t)\<lparr>state := BeforeAttributeName\<rparr>"
  define t2 where "t2 = t1\<lparr>attr_name := [], attr_value := [], state := AttributeName\<rparr>"
  define t3 where "t3 = (skip (length n) t2)\<lparr>attr_name := n\<rparr>"
  define t4 where "t4 = (skip 1 t3)\<lparr>state := BeforeAttributeValue\<rparr>"
  define t5 where "t5 = (skip 1 t4)\<lparr>state := AttributeValueDoubleQuoted\<rparr>"
  define t6 where "t6 = push_value v (skip ?e t5)"
  define t7 where "t7 = (skip 1 (commit_pending_attr t6))\<lparr>state := AfterAttributeValueQuoted\<rparr>"
  have n: "n \<noteq> []" "no_upper n" and nc: "\<forall>c\<in>set n. \<not> is_html_space c \<and> c \<noteq> ch CHR ''/'' \<and>
      c \<noteq> ch CHR ''='' \<and> c \<noteq> ch CHR ''>''"
    using assms(3) by (auto simp: printable_attr_def wf_name_def)
  have r: "rest t = 0x20 # n @ [ch CHR ''='', 0x22] @ escape v @ [0x22] @ r"
    using assms(2) by (simp add: print_attr_def)
  have "next_token_step t = Inr (None, t1)"
    using assms(1) r by (auto simp: between_attrs_def next_token_step_def tag_name_state_def
        after_attribute_value_quoted_state_def is_html_space_def t1_def)
  moreover have "next_token_step t1 = Inr (None, t2)"
    using r n nc by (cases n) (auto simp: next_token_step_def before_attribute_name_state_def t1_def t2_def)
  moreover have "next_html_token t2 = next_html_token t3"
    unfolding t3_def using r n nc read_attr_name [of t2 n] by (simp add: t1_def t2_def)
  moreover have "next_token_step t3 = Inr (None, t4)"
    using r by (simp add: next_token_step_def attribute_name_state_def is_html_space_def t1_def t2_def t3_def t4_def)
  moreover have "next_token_step t4 = Inr (None, t5)"
    using r by (simp add: next_token_step_def before_attribute_value_state_def is_html_space_def
        t1_def t2_def t3_def t4_def t5_def)
  moreover have "next_html_token t5 = next_html_token t6"
    unfolding t6_def using r by (intro read_escaped_value) (simp_all add: t1_def t2_def t3_def t4_def t5_def)
  moreover have "next_token_step t6 = Inr (None, t7)"
    using r by (simp add: next_token_step_def attribute_value_quoted_state_def t1_def t2_def t3_def
        t4_def t5_def t6_def t7_def)
  ultimately have nx: "next_html_token t = next_html_token t7" by (simp add: next_continue)
  have new: "\<And>b. (n, b) \<notin> set (tag_attrs t)" using assms(4) by force
  have "between_attrs t7" "rest t7 = r" "tag_attrs t7 = tag_attrs t @ [(n, v)]"
    using r n assms(4) new
    by (auto simp: between_attrs_def t1_def t2_def t3_def t4_def t5_def t6_def t7_def
        commit_pending_attr_def list_ex_iff push_value_def Let_def)
  with nx show thesis
    by (rule that) (simp_all add: t1_def t2_def t3_def t4_def t5_def t6_def t7_def push_value_def)
qed

lemma read_attrs:
  assumes "between_attrs t" "rest t = concat (map print_attr attrs) @ r" "list_all printable_attr attrs"
    "distinct (map fst (tag_attrs t @ attrs))"
  shows "\<exists>t'. next_html_token t = next_html_token t' \<and> between_attrs t' \<and> rest t' = r \<and>
    tag_attrs t' = tag_attrs t @ attrs \<and> tag_name t' = tag_name t \<and> tag_is_end t' = tag_is_end t \<and>
    text_buffer t' = text_buffer t \<and> content_model t' = content_model t \<and>
    tag_self_closing t' = tag_self_closing t"
  using assms
proof (induction attrs arbitrary: t)
  case (Cons a attrs)
  obtain n v where a: "a = (n, v)" by fastforce
  have "rest t = print_attr (n, v) @ concat (map print_attr attrs) @ r" "printable_attr (n, v)"
    "n \<notin> fst ` set (tag_attrs t)"
    using Cons(3-) a by (auto simp: list_all_iff)
  from read_attr [OF Cons(2) this] obtain u where u: "next_html_token t = next_html_token u"
    "between_attrs u" "rest u = concat (map print_attr attrs) @ r"
    "tag_attrs u = tag_attrs t @ [(n, v)]" "tag_name u = tag_name t" "tag_is_end u = tag_is_end t"
    "text_buffer u = text_buffer t" "content_model u = content_model t"
    "tag_self_closing u = tag_self_closing t"
    by blast
  with Cons.IH [of u] Cons(4,5) a show ?case by auto
qed (auto intro!: exI)

lemma emit_tag_keeps:
  "state (snd (emit_tag t)) = tok_state.Data" "rest (snd (emit_tag t)) = rest t"
  "attr_name (snd (emit_tag t)) = []" "content_model (snd (emit_tag t)) = content_model t"
  "text_buffer (snd (emit_tag t)) = text_buffer t"
  by (simp_all add: emit_tag_def Let_def)

lemma close_tag:
  assumes "between_attrs t" "rest t = (if sc then chars ''/>'' else chars ''>'') @ r"
    "tag_self_closing t = False" "content_model t = content_model.Data" "text_buffer t = []"
  obtains t' where "next_html_token t =
      Inr (if tag_is_end t then EndTag (tag_name t) else StartTag (tag_name t) (tag_attrs t) sc, t')"
    "state t' = tok_state.Data" "rest t' = r" "attr_name t' = []"
    "content_model t' = content_model.Data" "text_buffer t' = []"
proof -
  define t1 where "t1 = (if sc then (skip 1 t)\<lparr>state := SelfClosingStartTag\<rparr> else t)"
  define t2 where "t2 = (if sc then skip 1 (t1\<lparr>tag_self_closing := True\<rparr>) else skip 1 t)"
  have slash: "is_html_space 47 = False" "is_html_space 62 = False" by (simp_all add: is_html_space_def)
  have "next_html_token t = next_html_token t1"
  proof (cases sc)
    case True
    then have "next_token_step t = Inr (None, t1)"
      using assms(1,2) by (auto simp: between_attrs_def next_token_step_def tag_name_state_def
          after_attribute_value_quoted_state_def slash t1_def)
    then show ?thesis by (rule next_continue)
  qed (simp add: t1_def)
  also have "\<dots> = Inr (emit_tag t2)"
  proof -
    have "next_token_step t1 = Inr (map_prod Some id (emit_tag t2))"
      using assms(1,2) by (cases sc) (auto simp: between_attrs_def next_token_step_def tag_name_state_def
          after_attribute_value_quoted_state_def self_closing_start_tag_state_def slash t1_def t2_def
          advance_simps)
    then show ?thesis by (cases "emit_tag t2") (simp add: next_return)
  qed
  also have "commit_pending_attr t2 = t2\<lparr>attr_name := [], attr_value := []\<rparr>"
    using assms(1) by (simp add: commit_pending_attr_def between_attrs_def t1_def t2_def)
  then have "fst (emit_tag t2) =
      (if tag_is_end t then EndTag (tag_name t) else StartTag (tag_name t) (tag_attrs t) sc)"
    using assms(3) by (simp add: emit_tag_def Let_def t1_def t2_def)
  then have "Inr (emit_tag t2) = Inr (if tag_is_end t then EndTag (tag_name t)
      else StartTag (tag_name t) (tag_attrs t) sc, snd (emit_tag t2))"
    by (metis prod.collapse)
  finally have nx: "next_html_token t = Inr (if tag_is_end t then EndTag (tag_name t)
      else StartTag (tag_name t) (tag_attrs t) sc, snd (emit_tag t2))" .
  show thesis
    by (rule that [OF nx]) (use assms in \<open>simp_all add: emit_tag_keeps t1_def t2_def split: if_split\<close>)
qed

text \<open>The tokenizer between two tokens, with \<open>r\<close> still to read.\<close>

definition reads_at :: "html_tokenizer \<Rightarrow> rstring \<Rightarrow> bool" where
  "reads_at t r \<longleftrightarrow>
     state t = tok_state.Data \<and> content_model t = content_model.Data \<and> text_buffer t = [] \<and>
     attr_name t = [] \<and> rest t = r"

lemma read_tag:
  assumes "state t = TagOpen \<or> state t = EndTagOpen" "attr_name t = []" "text_buffer t = []"
    "content_model t = content_model.Data" "printable_tag n"
    "list_all printable_attr attrs" "distinct (map fst attrs)"
    "rest t = n @ concat (map print_attr attrs) @ (if sc then chars ''/>'' else chars ''>'') @ r"
  shows "\<exists>t'. next_html_token t =
      Inr (if state t = EndTagOpen then EndTag n else StartTag n attrs sc, t') \<and> reads_at t' r"
proof -
  define t1 where "t1 = begin_tag (state t = EndTagOpen) t"
  define t2 where "t2 = (skip (length n) t1)\<lparr>tag_name := n\<rparr>"
  have n: "n \<noteq> []" "is_ascii_alphabetic (hd n)" "no_upper n"
    "\<forall>c\<in>set n. \<not> is_html_space c \<and> c \<noteq> ch CHR ''/'' \<and> c \<noteq> ch CHR ''>''"
    using assms(5) by (auto simp: printable_tag_def wf_name_def)
  have "next_token_step t = Inr (None, t1)"
    using assms(1,8) n(1,2) by (cases n) (auto simp: next_token_step_def tag_open_state_def
        end_tag_open_state_def t1_def)
  then have "next_html_token t = next_html_token t1" by (rule next_continue)
  also have "\<dots> = next_html_token t2"
    using assms(8) n read_tag_name [of t1 n] by (simp add: t1_def t2_def begin_tag_def)
  finally have nx: "next_html_token t = next_html_token t2" .
  have "between_attrs t2" "rest t2 = concat (map print_attr attrs) @ (if sc then chars ''/>'' else chars ''>'') @ r"
    "distinct (map fst (tag_attrs t2 @ attrs))"
    using assms by (simp_all add: between_attrs_def t1_def t2_def begin_tag_def)
  from read_attrs [OF this(1,2) assms(6) this(3)] obtain t3 where t3:
    "next_html_token t2 = next_html_token t3" "between_attrs t3"
    "rest t3 = (if sc then chars ''/>'' else chars ''>'') @ r" "tag_attrs t3 = attrs" "tag_name t3 = n"
    "tag_is_end t3 = (state t = EndTagOpen)" "text_buffer t3 = []" "content_model t3 = content_model.Data"
    "tag_self_closing t3 = False"
    using assms(3,4) by (auto simp: t1_def t2_def begin_tag_def)
  from close_tag [OF t3(2,3,9,8,7)] obtain t' where "next_html_token t3 =
      Inr (if tag_is_end t3 then EndTag (tag_name t3) else StartTag (tag_name t3) (tag_attrs t3) sc, t')"
    "reads_at t' r"
    by (auto simp: reads_at_def)
  with nx t3 show ?thesis by (auto split: if_splits)
qed

section \<open>Reading tokens\<close>

lemma open_tag:
  assumes "reads_at t (ch CHR ''<'' # r)"
  shows "next_html_token t = next_html_token ((skip 1 t)\<lparr>state := TagOpen\<rparr>)"
  using assms by (intro next_continue) (simp add: reads_at_def next_token_step_def data_state_def)

lemma open_end_tag:
  assumes "state t = TagOpen" "rest t = ch CHR ''/'' # r"
  shows "next_html_token t = next_html_token ((skip 1 t)\<lparr>state := EndTagOpen\<rparr>)"
  using assms
  by (intro next_continue) (simp add: next_token_step_def tag_open_state_def char_class_defs)

lemma read_markup:
  assumes "state t = TagOpen" "rest t = chars w @ r" "w = ''!DOCTYPE>'' \<and> tok = Doctype \<or> w = ''!---->'' \<and> tok = Comment"
  shows "next_html_token t = Inr (tok, (skip (length w) t)\<lparr>state := tok_state.Data\<rparr>)"
  using assms
  by (intro next_return)
    (auto simp: next_token_step_def tag_open_state_def char_class_defs Let_def matches_ahead_iff
      matches_ignore_case_iff consume_doctype_def consume_while_eq consume_comment_def
      consume_comment_loop.simps to_lower_def)

lemma read_text:
  assumes "reads_at t (escape s @ r)" "s \<noteq> []" "r = [] \<or> hd r = ch CHR ''<''"
  shows "\<exists>t'. next_html_token t = Inr (Character s, t') \<and> reads_at t' r"
proof -
  let ?u = "push_text s (skip (length (escape s)) t)"
  have "next_html_token t = next_html_token ?u"
    using assms(1) by (intro read_escaped_text) (simp_all add: reads_at_def)
  moreover have "next_token_step ?u = Inr (Some (Character s), ?u\<lparr>text_buffer := []\<rparr>)"
    using assms by (cases r) (auto simp: reads_at_def next_token_step_def data_state_def flush_text_or_eof_def)
  ultimately have "next_html_token t = Inr (Character s, ?u\<lparr>text_buffer := []\<rparr>)"
    by (simp add: next_return)
  moreover have "reads_at (?u\<lparr>text_buffer := []\<rparr>) r" using assms(1) by (simp add: reads_at_def)
  ultimately show ?thesis by blast
qed

lemma read_token:
  assumes "reads_at t (print_token tok @ r)" "printable tok"
    "is_text tok \<longrightarrow> r = [] \<or> hd r = ch CHR ''<''"
  shows "\<exists>t'. next_html_token t = Inr (tok, t') \<and> reads_at t' r"
proof (cases "is_text tok")
  case True
  with assms read_text show ?thesis by (cases tok) (auto simp: is_text_def)
next
  case False
  let ?u = "(skip 1 t)\<lparr>state := TagOpen\<rparr>"
  obtain w where w: "print_token tok @ r = ch CHR ''<'' # w"
    using False assms(2) by (cases tok) (auto simp: is_text_def)
  with assms(1) have nx: "next_html_token t = next_html_token ?u" using open_tag by simp
  have u: "rest ?u = w" "attr_name ?u = []" "text_buffer ?u = []" "content_model ?u = content_model.Data"
    using assms(1) w by (simp_all add: reads_at_def)
  show ?thesis
  proof (cases tok)
    case (StartTag n attrs sc)
    with read_tag [OF _ u(2-4), of n attrs sc r] u(1) w assms(2) nx show ?thesis
      by (cases sc) (simp_all add: list_all_iff)
  next
    case (EndTag n)
    let ?v = "(skip 1 ?u)\<lparr>state := EndTagOpen\<rparr>"
    have "next_html_token ?u = next_html_token ?v"
      using u(1) w EndTag by (intro open_end_tag [of ?u "n @ chars ''>'' @ r"]) simp_all
    moreover have "drop 1 (rest ?u) = n @ chars ''>'' @ r" unfolding u(1) using w EndTag by auto
    then have "rest ?v = n @ chars ''>'' @ r" by simp
    ultimately show ?thesis
      using read_tag [of ?v n "[]" False r] u(2-4) EndTag assms(2) nx by simp
  next
    case Doctype
    with read_markup [of ?u "''!DOCTYPE>''" r Doctype] assms(1) nx show ?thesis by (simp add: reads_at_def)
  next
    case Comment
    with read_markup [of ?u "''!---->''" r Comment] assms(1) nx show ?thesis by (simp add: reads_at_def)
  qed (use assms(2) False in \<open>auto simp: is_text_def\<close>)
qed

lemma markup_starts: "printable tok \<Longrightarrow> \<not> is_text tok \<Longrightarrow> \<exists>w. print_token tok = ch CHR ''<'' # w"
  by (cases tok) (auto simp: is_text_def)

lemma html_tokenize_print:
  assumes "printable_tokens toks" "reads_at t (concat (map print_token toks))"
  shows "html_tokenize t = Some toks"
  using assms
proof (induction toks arbitrary: t)
  case Nil
  then have "next_token_step t = Inr (Some Eof, t)"
    by (simp add: reads_at_def next_token_step_def data_state_def flush_text_or_eof_def)
  then have "next_html_token t = Inr (Eof, t)" by (rule next_return)
  then show ?case by (simp add: html_tokenize.simps [of t])
next
  case (Cons tok toks)
  have p: "printable tok" "printable_tokens toks"
    using Cons(2) by (cases toks; simp add: printable_tokens_def)+
  have "is_text tok \<longrightarrow> concat (map print_token toks) = [] \<or>
      hd (concat (map print_token toks)) = ch CHR ''<''"
    using Cons(2) markup_starts [of "hd toks"]
    by (cases toks) (auto simp: printable_tokens_def)
  with read_token [of t tok "concat (map print_token toks)"] Cons(3) p(1) obtain t'
    where "next_html_token t = Inr (tok, t')" "reads_at t' (concat (map print_token toks))"
    by (auto simp del: concat_eq_Nil_conv)
  with Cons.IH p show ?case by (subst html_tokenize.simps) auto
qed

lemma str_replace_none:
  "c \<notin> set s \<Longrightarrow> str_replace (c # pat) new s = s"
proof (induction s)
  case Nil
  then show ?case by (simp add: str_replace.simps)
next
  case (Cons d s)
  then show ?case by (subst str_replace.simps) simp
qed

lemma set_escape: "set (escape s) \<subseteq> set s \<union> set (chars ''&amp;lt;quot;'')"
  by (auto simp: escape_def escape_char_def split: if_splits)

lemma escape_no_return: "0x0D \<notin> set s \<Longrightarrow> 0x0D \<notin> set (escape s)"
  using set_escape [of s] by auto

lemma attr_no_return: "printable_attr a \<Longrightarrow> 0x0D \<notin> set (print_attr a)"
  using escape_no_return [of "snd a"]
  by (cases a) (auto simp: printable_attr_def print_attr_def is_html_space_def)

lemma printable_no_return: "printable tok \<Longrightarrow> 0x0D \<notin> set (print_token tok)"
proof (induction tok)
  case (StartTag n attrs sc)
  then have "\<forall>c\<in>set n. \<not> is_html_space c" "\<forall>a\<in>set attrs. 0x0D \<notin> set (print_attr a)"
    using attr_no_return by (auto simp: printable_tag_def list_all_iff)
  moreover have "is_html_space 0x0D" by (simp add: is_html_space_def)
  ultimately show ?case by auto
next
  case (EndTag n)
  then show ?case by (auto simp: printable_tag_def is_html_space_def)
next
  case (Character s)
  then show ?case using escape_no_return by simp
qed simp_all

text \<open>
  C20. Printing a sequence of tokens (names in lower case, distinct attributes, text and
  attribute values escaped, no two runs of text in a row) and tokenizing the text gives
  exactly these tokens back; the tokenizer terminates on it and does not panic.
\<close>

theorem html_tokenize_round_trip:
  assumes "printable_tokens toks"
  shows "html_tokenize (new_html_tokenizer (concat (map print_token toks))) = Some toks"
proof (rule html_tokenize_print [OF assms])
  let ?s = "concat (map print_token toks)"
  have "0x0D \<notin> set ?s"
    using assms printable_no_return by (auto simp: printable_tokens_def list_all_iff)
  then show "reads_at (new_html_tokenizer ?s) ?s"
    by (simp add: reads_at_def new_html_tokenizer_def str_replace_none rest_def Let_def)
qed

end
