(* ===== verification/Html_Examples.thy ===== *)
theory Html_Examples
  imports Html_Printing
begin

text \<open>Concrete inputs for the properties of the HTML tokenizer.\<close>

definition sample_page :: rstring where
  "sample_page = chars ''Hi<SCRIPT Src=a>1<2</script>''"

lemma sample_session:
  "\<exists>t. html_stream.session (new_html_tokenizer sample_page)
     [Character (chars ''Hi''), StartTag (chars ''script'') [(chars ''src'', chars ''a'')] False,
      Character (chars ''1<2''), EndTag (chars ''script'')] t"
proof -
  have "\<exists>t1 t2 t3 t4.
      next_html_token (new_html_tokenizer sample_page) = Inr (Character (chars ''Hi''), t1) \<and>
      next_html_token t1 =
        Inr (StartTag (chars ''script'') [(chars ''src'', chars ''a'')] False, t2) \<and>
      next_html_token (set_content_model t2 ScriptData) = Inr (Character (chars ''1<2''), t3) \<and>
      next_html_token t3 = Inr (EndTag (chars ''script''), t4)"
  proof -
    let ?pull = "\<lambda>t. snd (projr (next_html_token t))"
    let ?t1 = "?pull (new_html_tokenizer sample_page)"
    let ?t2 = "?pull ?t1"
    let ?t3 = "?pull (set_content_model ?t2 ScriptData)"
    let ?t4 = "?pull ?t3"
    have "next_html_token (new_html_tokenizer sample_page) = Inr (Character (chars ''Hi''), ?t1)"
      "next_html_token ?t1 =
        Inr (StartTag (chars ''script'') [(chars ''src'', chars ''a'')] False, ?t2)"
      "next_html_token (set_content_model ?t2 ScriptData) = Inr (Character (chars ''1<2''), ?t3)"
      "next_html_token ?t3 = Inr (EndTag (chars ''script''), ?t4)"
      by code_simp+
    then show ?thesis by blast
  qed
  then obtain t1 t2 t3 t4 where t:
      "next_html_token (new_html_tokenizer sample_page) = Inr (Character (chars ''Hi''), t1)"
      "next_html_token t1 =
        Inr (StartTag (chars ''script'') [(chars ''src'', chars ''a'')] False, t2)"
      "next_html_token (set_content_model t2 ScriptData) = Inr (Character (chars ''1<2''), t3)"
      "next_html_token t3 = Inr (EndTag (chars ''script''), t4)"
    by blast
  note pulled = html_stream.session.pulled
  from pulled [OF html_stream.session.start t(1), of t1]
  have "html_stream.session (new_html_tokenizer sample_page) [Character (chars ''Hi'')] t1"
    by (simp add: may_switch_def)
  from pulled [OF this t(2), of "set_content_model t2 ScriptData"]
  have "html_stream.session (new_html_tokenizer sample_page)
     [Character (chars ''Hi''), StartTag (chars ''script'') [(chars ''src'', chars ''a'')] False]
     (set_content_model t2 ScriptData)"
    by (auto simp: may_switch_def)
  from pulled [OF pulled [OF this t(3), of t3] t(4), of t4] show ?thesis
    by (auto simp: may_switch_def)
qed

theorem html_tokenizer_sessions_witness:
  "\<exists>toks t. html_stream.session (new_html_tokenizer sample_page) toks t \<and> length toks = 4 \<and>
     (\<exists>tok t'. next_html_token t = Inr (tok, t')) \<and> (\<forall>tok\<in>set toks. wf_token tok)"
proof -
  from sample_session obtain t where "html_stream.session (new_html_tokenizer sample_page)
     [Character (chars ''Hi''), StartTag (chars ''script'') [(chars ''src'', chars ''a'')] False,
      Character (chars ''1<2''), EndTag (chars ''script'')] t" ..
  with html_tokenizer_sessions [OF this] show ?thesis by fastforce
qed

definition sample_tokens :: "html_token list" where
  "sample_tokens =
     [Doctype, StartTag (chars ''p'') [(chars ''title'', chars ''a<&b''), (chars ''id'', [])] False,
      Character (chars ''x & <y>''), Comment, StartTag (chars ''br'') [] True, EndTag (chars ''p'')]"

theorem html_tokenize_round_trip_witness:
  "printable_tokens sample_tokens \<and>
   html_tokenize (new_html_tokenizer (concat (map print_token sample_tokens))) = Some sample_tokens"
proof -
  have "printable_tokens sample_tokens" by code_simp
  with html_tokenize_round_trip [OF this] show ?thesis by blast
qed

end
