(* ===== verification/Html_Tree_Builder.thy ===== *)
theory Html_Tree_Builder
  imports Html_Tokenizer Dom
begin

text \<open>
  The data of the HTML tree builder of \<open>core/html/src/tree_builder.rs\<close> and its primitives:
  insertion points, scope checks, the stack of open elements, the list of active formatting
  elements and the adoption agency. A method with \<open>&mut self\<close> returns the new builder.
  Panics of the document, of indexing, of \<open>unwrap\<close> and of \<open>unreachable!\<close> are values; the one
  walk that may not return on an arbitrary document (\<open>Document::children\<close>) gives \<open>None\<close>.
\<close>

section \<open>Element lists\<close>

definition VOID_ELEMENTS :: "rstring list" where
  "VOID_ELEMENTS = map chars [''br'', ''hr'', ''img'', ''input'', ''link'', ''meta'', ''col'']"

definition RCDATA_ELEMENTS :: "rstring list" where
  "RCDATA_ELEMENTS = map chars [''textarea'', ''title'']"

definition FORMATTING_ELEMENTS :: "rstring list" where
  "FORMATTING_ELEMENTS =
     map chars [''a'', ''b'', ''i'', ''em'', ''strong'', ''u'', ''small'', ''code'']"

definition HEADING_ELEMENTS :: "rstring list" where
  "HEADING_ELEMENTS = map chars [''h1'', ''h2'', ''h3'', ''h4'', ''h5'', ''h6'']"

definition P_CLOSING_ELEMENTS :: "rstring list" where
  "P_CLOSING_ELEMENTS =
     map chars [''div'', ''p'', ''ul'', ''ol'', ''li'', ''h1'', ''h2'', ''h3'', ''h4'', ''h5'', ''h6'',
       ''blockquote'', ''pre'', ''section'', ''article'', ''header'', ''footer'', ''nav'', ''main'',
       ''aside'', ''figure'', ''figcaption'', ''form'', ''table'', ''fieldset'']"

definition DEFAULT_SCOPE_BLOCKERS :: "rstring list" where
  "DEFAULT_SCOPE_BLOCKERS = map chars [''html'', ''table'', ''td'', ''th'', ''caption'']"

definition IMPLIED_END_TAGS :: "rstring list" where
  "IMPLIED_END_TAGS = map chars [''li'', ''option'', ''optgroup'', ''p'']"

definition SPECIAL_ELEMENTS :: "rstring list" where
  "SPECIAL_ELEMENTS =
     map chars [''article'', ''aside'', ''blockquote'', ''body'', ''br'', ''button'', ''caption'',
       ''col'', ''colgroup'', ''div'', ''fieldset'', ''figcaption'', ''figure'', ''footer'', ''form'',
       ''h1'', ''h2'', ''h3'', ''h4'', ''h5'', ''h6'', ''head'', ''header'', ''hr'', ''html'', ''img'',
       ''input'', ''li'', ''link'', ''main'', ''meta'', ''nav'', ''ol'', ''p'', ''pre'', ''script'',
       ''section'', ''select'', ''style'', ''table'', ''tbody'', ''td'', ''textarea'', ''tfoot'',
       ''th'', ''thead'', ''title'', ''tr'', ''ul'']"

section \<open>Data\<close>

datatype mode =
    Initial
  | BeforeHtml
  | BeforeHead
  | InHead
  | AfterHead
  | InBody
  | Text
  | InTable
  | InCaption
  | InColumnGroup
  | InTableBody
  | InRow
  | InCell
  | AfterBody
  | AfterAfterBody

datatype step_result = Done | Reprocess html_token

type_synonym attrs = "(rstring \<times> rstring) list"
type_synonym formatting_entry = "node_id \<times> rstring \<times> attrs"

datatype afe_entry = Marker | Formatting formatting_entry

record tree_builder =
  tokenizer :: html_tokenizer
  document :: document
  open_elements :: "node_id list"
  active_formatting :: "afe_entry list"
  mode :: mode
  original_mode :: mode
  head_element :: "node_id option"
  form_element :: "node_id option"
  foster_parenting :: bool
  just_saw_dropped_comment_or_doctype :: bool
  strip_leading_newline :: bool
  quirks_mode :: bool

datatype tb_panic =
    Dom_Panic panic
  | Tokenizer_Panic tokenizer_panic
  | Index_Out_Of_Bounds
  | Expected_Formatting_Entry
  | Unwrap_None

type_synonym 'a tb_res = "tb_panic + 'a"
type_synonym 'a tb_run = "(tb_panic + 'a) option"

definition in_dom :: "panic + 'a \<Rightarrow> 'a tb_res" where
  "in_dom r = map_sum Dom_Panic id r"

definition new_tree_builder :: "rstring \<Rightarrow> u64 \<Rightarrow> tree_builder" where
  "new_tree_builder input next_id =
     \<lparr>tokenizer = new_html_tokenizer input, document = new_continuing_from next_id,
      open_elements = [], active_formatting = [], mode = Initial, original_mode = InBody,
      head_element = None, form_element = None, foster_parenting = False,
      just_saw_dropped_comment_or_doctype = False, strip_leading_newline = False,
      quirks_mode = False\<rparr>"

section \<open>Searches whose test may panic\<close>

fun find_res :: "('a \<Rightarrow> 'e + bool) \<Rightarrow> 'a list \<Rightarrow> 'e + 'a option" where
  "find_res f [] = Inr None"
| "find_res f (x # xs) =
     res_bind (f x) (\<lambda>b. if b then Inr (Some x) else find_res f xs)"

fun position_res :: "('a \<Rightarrow> 'e + bool) \<Rightarrow> 'a list \<Rightarrow> 'e + nat option" where
  "position_res f [] = Inr None"
| "position_res f (x # xs) =
     res_bind (f x) (\<lambda>b. if b then Inr (Some 0)
       else res_bind (position_res f xs) (\<lambda>p. Inr (map_option Suc p)))"

text \<open>Popping a stack, given from its top: through the first hit, and while a test holds.\<close>

fun pop_through :: "('a \<Rightarrow> 'e + bool) \<Rightarrow> 'a list \<Rightarrow> 'e + 'a list" where
  "pop_through f [] = Inr []"
| "pop_through f (x # xs) = res_bind (f x) (\<lambda>b. if b then Inr xs else pop_through f xs)"

fun pop_while :: "('a \<Rightarrow> 'e + bool) \<Rightarrow> 'a list \<Rightarrow> 'e + 'a list" where
  "pop_while f [] = Inr []"
| "pop_while f (x # xs) = res_bind (f x) (\<lambda>b. if b then pop_while f xs else Inr (x # xs))"

definition position :: "('a \<Rightarrow> bool) \<Rightarrow> 'a list \<Rightarrow> nat option" where
  "position P xs = (let n = length (takeWhile (\<lambda>x. \<not> P x) xs) in if n < length xs then Some n else None)"

definition rposition :: "('a \<Rightarrow> bool) \<Rightarrow> 'a list \<Rightarrow> nat option" where
  "rposition P xs = map_option (\<lambda>p. length xs - 1 - p) (position P (rev xs))"

definition remove_at :: "nat \<Rightarrow> 'a list \<Rightarrow> 'a list" where
  "remove_at n xs = take n xs @ drop (Suc n) xs"

definition insert_at :: "nat \<Rightarrow> 'a \<Rightarrow> 'a list \<Rightarrow> 'a list" where
  "insert_at n x xs = take n xs @ x # drop n xs"

section \<open>Tree and stack primitives\<close>

definition current_node :: "tree_builder \<Rightarrow> node_id tb_res" where
  "current_node tb =
     (case last_opt None (open_elements tb) of
        Some i \<Rightarrow> Inr i
      | None \<Rightarrow> in_dom (root (document tb)))"

definition tag_of :: "tree_builder \<Rightarrow> node_id \<Rightarrow> rstring option tb_res" where
  "tag_of tb i =
     res_bind (in_dom (data (document tb) i))
       (\<lambda>dat. Inr (case dat of Element tag _ \<Rightarrow> Some tag | _ \<Rightarrow> None))"

definition has_tag :: "tree_builder \<Rightarrow> rstring list \<Rightarrow> node_id \<Rightarrow> bool tb_res" where
  "has_tag tb tags i =
     res_bind (tag_of tb i) (\<lambda>t. Inr (case t of Some t \<Rightarrow> t \<in> set tags | None \<Rightarrow> False))"

definition is_current :: "tree_builder \<Rightarrow> rstring \<Rightarrow> bool tb_res" where
  "is_current tb tag = res_bind (current_node tb) (\<lambda>i. has_tag tb [tag] i)"

definition is_special :: "tree_builder \<Rightarrow> node_id \<Rightarrow> bool tb_res" where
  "is_special tb i =
     res_bind (tag_of tb i)
       (\<lambda>t. Inr (case t of Some t \<Rightarrow> t \<in> set SPECIAL_ELEMENTS | None \<Rightarrow> True))"

definition is_table_context :: "tree_builder \<Rightarrow> node_id \<Rightarrow> bool tb_res" where
  "is_table_context tb i =
     has_tag tb (map chars [''table'', ''tbody'', ''thead'', ''tfoot'', ''tr'']) i"

definition current_node_needs_foster :: "tree_builder \<Rightarrow> bool tb_res" where
  "current_node_needs_foster tb = res_bind (current_node tb) (is_table_context tb)"

definition foster_parent_target :: "tree_builder \<Rightarrow> (node_id \<times> node_id option) tb_res" where
  "foster_parent_target tb =
     res_bind (find_res (has_tag tb [chars ''table'']) (rev (open_elements tb))) (\<lambda>table.
     case table of
       None \<Rightarrow> res_bind (current_node tb) (\<lambda>c. Inr (c, None))
     | Some table_id \<Rightarrow>
         res_bind (in_dom (parent (document tb) table_id)) (\<lambda>p.
         case p of
           Some par \<Rightarrow> Inr (par, Some table_id)
         | None \<Rightarrow> res_bind (current_node tb) (\<lambda>c. Inr (c, None))))"

text \<open>The condition of \<open>insert_node\<close> and \<open>insert_text\<close>; \<open>&&\<close> does not look at the stack needlessly.\<close>

definition uses_foster :: "tree_builder \<Rightarrow> bool tb_res" where
  "uses_foster tb = (if foster_parenting tb then current_node_needs_foster tb else Inr False)"

definition insert_node :: "tree_builder \<Rightarrow> node_id \<Rightarrow> tree_builder tb_res" where
  "insert_node tb i =
     res_bind (uses_foster tb) (\<lambda>foster.
     if foster then
       res_bind (foster_parent_target tb) (\<lambda>(par, reference).
       res_bind (in_dom (insert_before (document tb) par i reference)) (\<lambda>d.
       Inr (tb\<lparr>document := d\<rparr>)))
     else
       res_bind (current_node tb) (\<lambda>c.
       res_bind (in_dom (append_child (document tb) c i)) (\<lambda>d.
       Inr (tb\<lparr>document := d\<rparr>))))"

definition insert_element :: "tree_builder \<Rightarrow> rstring \<Rightarrow> attrs \<Rightarrow> (node_id \<times> tree_builder) tb_res" where
  "insert_element tb name as =
     (let (i, d) = create_node (document tb) (Element name as)
      in res_bind (insert_node (tb\<lparr>document := d\<rparr>) i) (\<lambda>tb.
         Inr (i, if name \<in> set VOID_ELEMENTS then tb
                 else tb\<lparr>open_elements := open_elements tb @ [i]\<rparr>)))"

definition insert_text :: "tree_builder \<Rightarrow> rstring \<Rightarrow> tree_builder tb_res" where
  "insert_text tb s =
     (if s = [] then Inr tb
      else
        res_bind (uses_foster tb) (\<lambda>foster.
        res_bind (if foster then foster_parent_target tb
                  else res_bind (current_node tb) (\<lambda>c. Inr (c, None))) (\<lambda>(par, reference).
        res_bind (if just_saw_dropped_comment_or_doctype tb then Inr None
                  else
                    case reference of
                      Some r \<Rightarrow> in_dom (prev_sibling (document tb) r)
                    | None \<Rightarrow> in_dom (last_child (document tb) par)) (\<lambda>preceding.
        res_bind (case preceding of
                    None \<Rightarrow> Inr None
                  | Some i \<Rightarrow>
                      res_bind (in_dom (data (document tb) i)) (\<lambda>dat.
                      Inr (case dat of node_data.Text existing \<Rightarrow> Some (i, existing) | _ \<Rightarrow> None))) (\<lambda>txt.
        case txt of
          Some (i, existing) \<Rightarrow>
            res_bind (in_dom (data_mut (document tb) i (\<lambda>_. node_data.Text (existing @ s)))) (\<lambda>d.
            Inr (tb\<lparr>document := d\<rparr>))
        | None \<Rightarrow>
            (let (i, d) = create_node (document tb) (node_data.Text s)
             in res_bind (in_dom (insert_before d par i reference)) (\<lambda>d.
                Inr (tb\<lparr>document := d\<rparr>))))))))"

section \<open>The list of active formatting elements\<close>

definition is_marker :: "afe_entry \<Rightarrow> bool" where
  "is_marker e = (case e of Marker \<Rightarrow> True | Formatting _ \<Rightarrow> False)"

definition is_entry_of :: "node_id \<Rightarrow> afe_entry \<Rightarrow> bool" where
  "is_entry_of i e = (case e of Marker \<Rightarrow> False | Formatting (j, _, _) \<Rightarrow> j = i)"

definition afe_scan_start :: "tree_builder \<Rightarrow> nat" where
  "afe_scan_start tb =
     (case rposition is_marker (active_formatting tb) of Some p \<Rightarrow> p + 1 | None \<Rightarrow> 0)"

definition insert_afe_marker :: "tree_builder \<Rightarrow> tree_builder" where
  "insert_afe_marker tb = tb\<lparr>active_formatting := active_formatting tb @ [Marker]\<rparr>"

definition attrs_equal :: "attrs \<Rightarrow> attrs \<Rightarrow> bool" where
  "attrs_equal a b \<longleftrightarrow> length a = length b \<and> list_all (\<lambda>pair. pair \<in> set b) a"

definition push_formatting :: "tree_builder \<Rightarrow> node_id \<Rightarrow> rstring \<Rightarrow> attrs \<Rightarrow> tree_builder" where
  "push_formatting tb i tag as =
     (let scan_start = afe_scan_start tb;
          matching =
            map fst (filter (\<lambda>(_, e). case e of
                Formatting (_, t, a) \<Rightarrow> t = tag \<and> attrs_equal a as
              | Marker \<Rightarrow> False) (enumerate scan_start (drop scan_start (active_formatting tb))));
          kept = (if 3 \<le> length matching then remove_at (hd matching) (active_formatting tb)
                  else active_formatting tb)
      in tb\<lparr>active_formatting := kept @ [Formatting (i, tag, as)]\<rparr>)"

definition consume_leading_newline_strip :: "tree_builder \<Rightarrow> rstring \<Rightarrow> rstring \<times> tree_builder" where
  "consume_leading_newline_strip tb s =
     (if \<not> strip_leading_newline tb then (s, tb)
      else (case s of c # s' \<Rightarrow> if c = 0x0A then s' else s | [] \<Rightarrow> s,
            tb\<lparr>strip_leading_newline := False\<rparr>))"

definition switch_to_text_mode :: "tree_builder \<Rightarrow> rstring \<Rightarrow> attrs \<Rightarrow> tree_builder tb_res" where
  "switch_to_text_mode tb name as =
     res_bind (insert_element tb name as) (\<lambda>(_, tb).
     let model = (if name \<in> set RCDATA_ELEMENTS then Rcdata
                  else if name = chars ''script'' then ScriptData
                  else Rawtext)
     in Inr (tb\<lparr>tokenizer := set_content_model (tokenizer tb) model,
                original_mode := mode tb, mode := mode.Text\<rparr>))"

section \<open>Scope checks\<close>

text \<open>A walk over the stack from its top; an element that is neither a hit nor a blocker is passed.\<close>

fun scope_walk ::
  "tree_builder \<Rightarrow> (node_id \<Rightarrow> rstring \<Rightarrow> bool) \<Rightarrow> (rstring \<Rightarrow> bool) \<Rightarrow> node_id list \<Rightarrow> bool tb_res" where
  "scope_walk tb hit blocker [] = Inr False"
| "scope_walk tb hit blocker (i # is) =
     res_bind (tag_of tb i) (\<lambda>t.
     case t of
       None \<Rightarrow> scope_walk tb hit blocker is
     | Some t \<Rightarrow>
         if hit i t then Inr True
         else if blocker t then Inr False
         else scope_walk tb hit blocker is)"

definition has_tag_in_scope :: "tree_builder \<Rightarrow> rstring \<Rightarrow> rstring list \<Rightarrow> bool tb_res" where
  "has_tag_in_scope tb tag extra_blockers =
     scope_walk tb (\<lambda>_ t. t = tag)
       (\<lambda>t. t \<in> set DEFAULT_SCOPE_BLOCKERS \<or> t \<in> set extra_blockers) (rev (open_elements tb))"

definition has_tag_in_table_scope :: "tree_builder \<Rightarrow> rstring \<Rightarrow> bool tb_res" where
  "has_tag_in_table_scope tb tag =
     scope_walk tb (\<lambda>_ t. t = tag) (\<lambda>t. t = chars ''html'' \<or> t = chars ''table'')
       (rev (open_elements tb))"

text \<open>\<open>has_node_in_scope\<close> compares the node before it looks at its tag.\<close>

fun node_scope_walk :: "tree_builder \<Rightarrow> node_id \<Rightarrow> node_id list \<Rightarrow> bool tb_res" where
  "node_scope_walk tb target [] = Inr False"
| "node_scope_walk tb target (i # is) =
     (if i = target then Inr True
      else
        res_bind (tag_of tb i) (\<lambda>t.
        case t of
          None \<Rightarrow> node_scope_walk tb target is
        | Some t \<Rightarrow>
            if t \<in> set DEFAULT_SCOPE_BLOCKERS then Inr False else node_scope_walk tb target is))"

definition has_node_in_scope :: "tree_builder \<Rightarrow> node_id \<Rightarrow> bool tb_res" where
  "has_node_in_scope tb target = node_scope_walk tb target (rev (open_elements tb))"

definition has_p_in_button_scope :: "tree_builder \<Rightarrow> bool tb_res" where
  "has_p_in_button_scope tb = has_tag_in_scope tb (chars ''p'') [chars ''button'']"

definition has_li_in_list_item_scope :: "tree_builder \<Rightarrow> bool tb_res" where
  "has_li_in_list_item_scope tb = has_tag_in_scope tb (chars ''li'') [chars ''ol'', chars ''ul'']"

definition has_any_heading_in_scope :: "tree_builder \<Rightarrow> bool tb_res" where
  "has_any_heading_in_scope tb =
     scope_walk tb (\<lambda>_ t. t \<in> set HEADING_ELEMENTS) (\<lambda>t. t \<in> set DEFAULT_SCOPE_BLOCKERS)
       (rev (open_elements tb))"

section \<open>Stack maintenance\<close>

text \<open>\<open>on_stack\<close> runs a pop over the stack, from its top.\<close>

definition on_stack :: "tree_builder \<Rightarrow> (node_id list \<Rightarrow> node_id list tb_res) \<Rightarrow> tree_builder tb_res" where
  "on_stack tb f =
     res_bind (f (rev (open_elements tb))) (\<lambda>st. Inr (tb\<lparr>open_elements := rev st\<rparr>))"

definition pop_element :: "tree_builder \<Rightarrow> tree_builder" where
  "pop_element tb = tb\<lparr>open_elements := butlast (open_elements tb)\<rparr>"

definition generate_implied_end_tags :: "tree_builder \<Rightarrow> rstring option \<Rightarrow> tree_builder tb_res" where
  "generate_implied_end_tags tb except =
     on_stack tb (pop_while (\<lambda>top. res_bind (tag_of tb top) (\<lambda>t.
       Inr (case t of Some t \<Rightarrow> t \<in> set IMPLIED_END_TAGS \<and> except \<noteq> Some t | None \<Rightarrow> False))))"

definition pop_until_and_including :: "tree_builder \<Rightarrow> rstring \<Rightarrow> tree_builder tb_res" where
  "pop_until_and_including tb tag = on_stack tb (pop_through (has_tag tb [tag]))"

definition close_p_element :: "tree_builder \<Rightarrow> tree_builder tb_res" where
  "close_p_element tb =
     res_bind (generate_implied_end_tags tb (Some (chars ''p''))) (\<lambda>tb.
     pop_until_and_including tb (chars ''p''))"

definition close_li_if_open :: "tree_builder \<Rightarrow> tree_builder tb_res" where
  "close_li_if_open tb =
     res_bind (has_li_in_list_item_scope tb) (\<lambda>b.
     if b then
       res_bind (generate_implied_end_tags tb (Some (chars ''li''))) (\<lambda>tb.
       pop_until_and_including tb (chars ''li''))
     else Inr tb)"

text \<open>The list is popped from its end, the marker included.\<close>

definition clear_afe_up_to_last_marker :: "tree_builder \<Rightarrow> tree_builder" where
  "clear_afe_up_to_last_marker tb =
     tb\<lparr>active_formatting :=
          rev (drop 1 (dropWhile (\<lambda>e. \<not> is_marker e) (rev (active_formatting tb))))\<rparr>"

definition close_current_cell :: "tree_builder \<Rightarrow> tree_builder tb_res" where
  "close_current_cell tb =
     res_bind (generate_implied_end_tags tb None) (\<lambda>tb.
     res_bind (on_stack tb (pop_through (has_tag tb [chars ''td'', chars ''th'']))) (\<lambda>tb.
     Inr ((clear_afe_up_to_last_marker tb)\<lparr>mode := InRow\<rparr>)))"

definition close_table_section :: "tree_builder \<Rightarrow> tree_builder tb_res" where
  "close_table_section tb =
     on_stack tb (pop_through (has_tag tb [chars ''tbody'', chars ''thead'', chars ''tfoot'']))"

text \<open>The loop of \<open>any_other_end_tag\<close> over the indices below \<open>n\<close>, downwards.\<close>

fun any_other_end_tag_loop :: "tree_builder \<Rightarrow> rstring \<Rightarrow> nat \<Rightarrow> tree_builder tb_res" where
  "any_other_end_tag_loop tb tag n =
     (if n = 0 then Inr tb
      else
        let i = open_elements tb ! (n - 1)
        in res_bind (tag_of tb i) (\<lambda>t.
           case t of
             None \<Rightarrow> any_other_end_tag_loop tb tag (n - 1)
           | Some t \<Rightarrow>
               if t = tag then
                 res_bind (generate_implied_end_tags tb (Some tag)) (\<lambda>tb.
                 Inr (tb\<lparr>open_elements := take (n - 1) (open_elements tb)\<rparr>))
               else
                 res_bind (is_special tb i) (\<lambda>special.
                 if special then Inr tb else any_other_end_tag_loop tb tag (n - 1))))"

declare any_other_end_tag_loop.simps [simp del]

definition any_other_end_tag :: "tree_builder \<Rightarrow> rstring \<Rightarrow> tree_builder tb_res" where
  "any_other_end_tag tb tag = any_other_end_tag_loop tb tag (length (open_elements tb))"

definition mode_for_tag :: "tree_builder \<Rightarrow> rstring \<Rightarrow> mode option" where
  "mode_for_tag tb t =
     (if t = chars ''td'' \<or> t = chars ''th'' then Some InCell
      else if t = chars ''tr'' then Some InRow
      else if t = chars ''tbody'' \<or> t = chars ''thead'' \<or> t = chars ''tfoot'' then Some InTableBody
      else if t = chars ''caption'' then Some InCaption
      else if t = chars ''colgroup'' then Some InColumnGroup
      else if t = chars ''table'' then Some InTable
      else if t = chars ''body'' then Some InBody
      else if t = chars ''html'' then Some (if head_element tb \<noteq> None then AfterHead else BeforeHead)
      else None)"

fun reset_insertion_mode_loop :: "tree_builder \<Rightarrow> node_id list \<Rightarrow> mode tb_res" where
  "reset_insertion_mode_loop tb [] = Inr InBody"
| "reset_insertion_mode_loop tb (i # is) =
     res_bind (tag_of tb i) (\<lambda>t.
     case Option.bind t (mode_for_tag tb) of
       Some m \<Rightarrow> Inr m
     | None \<Rightarrow> reset_insertion_mode_loop tb is)"

definition reset_insertion_mode :: "tree_builder \<Rightarrow> tree_builder tb_res" where
  "reset_insertion_mode tb =
     res_bind (reset_insertion_mode_loop tb (rev (open_elements tb))) (\<lambda>m. Inr (tb\<lparr>mode := m\<rparr>))"

section \<open>Reconstruction\<close>

definition is_open_or_marker :: "tree_builder \<Rightarrow> nat \<Rightarrow> bool" where
  "is_open_or_marker tb i =
     (case active_formatting tb ! i of
        Marker \<Rightarrow> True
      | Formatting (j, _, _) \<Rightarrow> j \<in> set (open_elements tb))"

fun reconstruct_first :: "tree_builder \<Rightarrow> nat \<Rightarrow> nat" where
  "reconstruct_first tb n =
     (if 0 < n \<and> \<not> is_open_or_marker tb (n - 1) then reconstruct_first tb (n - 1) else n)"

declare reconstruct_first.simps [simp del]

fun reconstruct_loop :: "tree_builder \<Rightarrow> nat list \<Rightarrow> tree_builder tb_res" where
  "reconstruct_loop tb [] = Inr tb"
| "reconstruct_loop tb (i # is) =
     (case active_formatting tb ! i of
        Marker \<Rightarrow> reconstruct_loop tb is
      | Formatting (_, tag, as) \<Rightarrow>
          res_bind (insert_element tb tag as) (\<lambda>(new_id, tb).
          reconstruct_loop
            (tb\<lparr>active_formatting := (active_formatting tb)[i := Formatting (new_id, tag, as)]\<rparr>) is))"

definition reconstruct_active_formatting_elements :: "tree_builder \<Rightarrow> tree_builder tb_res" where
  "reconstruct_active_formatting_elements tb =
     (if active_formatting tb = [] then Inr tb
      else
        let last = length (active_formatting tb) - 1
        in if is_open_or_marker tb last then Inr tb
           else reconstruct_loop tb [reconstruct_first tb last ..< last + 1])"

section \<open>The adoption agency\<close>

text \<open>Indexing panics out of bounds, \<open>unreachable!\<close> on a marker.\<close>

definition afe_formatting_at :: "tree_builder \<Rightarrow> nat \<Rightarrow> formatting_entry tb_res" where
  "afe_formatting_at tb pos =
     (if pos < length (active_formatting tb) then
        (case active_formatting tb ! pos of
           Formatting e \<Rightarrow> Inr e
         | Marker \<Rightarrow> Inl Expected_Formatting_Entry)
      else Inl Index_Out_Of_Bounds)"

definition afe_formatting_rposition :: "tree_builder \<Rightarrow> rstring \<Rightarrow> nat option" where
  "afe_formatting_rposition tb tag =
     (let scan_start = afe_scan_start tb
      in map_option (\<lambda>p. scan_start + p)
           (rposition (\<lambda>e. case e of Formatting (_, t, _) \<Rightarrow> t = tag | Marker \<Rightarrow> False)
              (drop scan_start (active_formatting tb))))"

datatype bookmark = AtFormattingElement | AfterNode node_id

text \<open>\<open>if let Some(p) = stack_pos_of(self, node_id) { self.open_elements.remove(p); }\<close>\<close>

definition drop_from_stack :: "tree_builder \<Rightarrow> node_id \<Rightarrow> tree_builder" where
  "drop_from_stack tb i =
     (case position (\<lambda>x. x = i) (open_elements tb) of
        Some p \<Rightarrow> tb\<lparr>open_elements := remove_at p (open_elements tb)\<rparr>
      | None \<Rightarrow> tb)"

text \<open>\<open>if self.document.parent(n).is_some() { self.document.detach(n); }\<close>\<close>

definition detach_if_attached :: "tree_builder \<Rightarrow> node_id \<Rightarrow> tree_builder tb_res" where
  "detach_if_attached tb i =
     res_bind (in_dom (parent (document tb) i)) (\<lambda>p.
     if p \<noteq> None then
       res_bind (in_dom (detach (document tb) i)) (\<lambda>d. Inr (tb\<lparr>document := d\<rparr>))
     else Inr tb)"

text \<open>The loop over the elements between the formatting element and the furthest block.\<close>

fun adoption_inner ::
  "node_id \<Rightarrow> node_id list \<Rightarrow> nat \<Rightarrow> bookmark \<Rightarrow> node_id \<Rightarrow> tree_builder \<Rightarrow>
   (bookmark \<times> node_id \<times> tree_builder) tb_res" where
  "adoption_inner furthest_block_id [] iterations bm last_node tb = Inr (bm, last_node, tb)"
| "adoption_inner furthest_block_id (node_id # ns) iterations bm last_node tb =
     (let iterations = iterations + 1
      in case position (is_entry_of node_id) (active_formatting tb) of
           None \<Rightarrow>
             adoption_inner furthest_block_id ns iterations bm last_node (drop_from_stack tb node_id)
         | Some af_pos \<Rightarrow>
             if 3 < iterations then
               adoption_inner furthest_block_id ns iterations bm last_node
                 (drop_from_stack
                    (tb\<lparr>active_formatting := remove_at af_pos (active_formatting tb)\<rparr>) node_id)
             else
               res_bind (afe_formatting_at tb af_pos) (\<lambda>(_, node_tag, node_attrs).
               let (new_node, d) = create_node (document tb) (Element node_tag node_attrs);
                   tb = tb\<lparr>document := d,
                     active_formatting :=
                       (active_formatting tb)[af_pos := Formatting (new_node, node_tag, node_attrs)]\<rparr>;
                   tb = (case position (\<lambda>x. x = node_id) (open_elements tb) of
                           Some p \<Rightarrow> tb\<lparr>open_elements := (open_elements tb)[p := new_node]\<rparr>
                         | None \<Rightarrow> tb);
                   bm = (if last_node = furthest_block_id then AfterNode new_node else bm)
               in res_bind (detach_if_attached tb last_node) (\<lambda>tb.
                  res_bind (in_dom (append_child (document tb) new_node last_node)) (\<lambda>d.
                  adoption_inner furthest_block_id ns iterations bm new_node (tb\<lparr>document := d\<rparr>)))))"

text \<open>Attaching the last node to the common ancestor, or in front of the table.\<close>

definition adoption_reparent :: "tree_builder \<Rightarrow> node_id \<Rightarrow> node_id \<Rightarrow> tree_builder tb_res" where
  "adoption_reparent tb common_ancestor last_node =
     res_bind (detach_if_attached tb last_node) (\<lambda>tb.
     res_bind (is_table_context tb common_ancestor) (\<lambda>tabular.
     res_bind (if tabular then
                 res_bind (foster_parent_target (tb\<lparr>foster_parenting := True\<rparr>))
                   (\<lambda>(par, reference). in_dom (insert_before (document tb) par last_node reference))
               else in_dom (append_child (document tb) common_ancestor last_node)) (\<lambda>d.
     Inr (tb\<lparr>document := d\<rparr>))))"

text \<open>\<open>for child in children { detach(child); append_child(new_fe, child); }\<close>\<close>

fun move_children :: "document \<Rightarrow> node_id \<Rightarrow> node_id list \<Rightarrow> document tb_res" where
  "move_children d new_fe [] = Inr d"
| "move_children d new_fe (c # cs) =
     res_bind (in_dom (detach d c)) (\<lambda>d.
     res_bind (in_dom (append_child d new_fe c)) (\<lambda>d.
     move_children d new_fe cs))"

text \<open>Replacing the entry of the formatting element by one of its clone, at the bookmark.\<close>

definition adoption_entry ::
  "tree_builder \<Rightarrow> bookmark \<Rightarrow> nat \<Rightarrow> node_id \<Rightarrow> formatting_entry \<Rightarrow> tree_builder tb_res" where
  "adoption_entry tb bm fe_pos fe_id entry =
     (let raw_insert_at =
            (case bm of
               AtFormattingElement \<Rightarrow> fe_pos
             | AfterNode i \<Rightarrow>
                 (case position (is_entry_of i) (active_formatting tb) of
                    Some p \<Rightarrow> p + 1
                  | None \<Rightarrow> fe_pos))
      in case position (is_entry_of fe_id) (active_formatting tb) of
           None \<Rightarrow> Inl Unwrap_None
         | Some fe_pos_now \<Rightarrow>
             let afe = remove_at fe_pos_now (active_formatting tb);
                 ins = (if fe_pos_now < raw_insert_at then raw_insert_at - 1 else raw_insert_at);
                 ins = min ins (length afe)
             in Inr (tb\<lparr>active_formatting := insert_at ins (Formatting entry) afe\<rparr>))"

text \<open>The stack: the formatting element goes, its clone comes right above the furthest block.\<close>

definition adoption_stack :: "tree_builder \<Rightarrow> node_id \<Rightarrow> node_id \<Rightarrow> node_id \<Rightarrow> tree_builder tb_res" where
  "adoption_stack tb fe_id furthest_block_id new_fe =
     (let st = filter (\<lambda>i. i \<noteq> fe_id) (open_elements tb)
      in case position (\<lambda>i. i = furthest_block_id) st of
           None \<Rightarrow> Inl Unwrap_None
         | Some p \<Rightarrow> Inr (tb\<lparr>open_elements := insert_at (p + 1) new_fe st\<rparr>))"

text \<open>The rest of a round, once there is a furthest block.\<close>

definition adopt ::
  "tree_builder \<Rightarrow> nat \<Rightarrow> node_id \<Rightarrow> nat \<Rightarrow> nat \<Rightarrow> tree_builder tb_run" where
  "adopt tb fe_pos fe_id fe_stack_pos furthest_block_pos =
     (if fe_stack_pos = 0 then Some (Inl Index_Out_Of_Bounds)
      else
        let furthest_block_id = open_elements tb ! furthest_block_pos;
            common_ancestor = open_elements tb ! (fe_stack_pos - 1);
            between = take (furthest_block_pos - (fe_stack_pos + 1))
                        (drop (fe_stack_pos + 1) (open_elements tb))
        in run_bind (Some (adoption_inner furthest_block_id (rev between) 0 AtFormattingElement
                      furthest_block_id tb)) (\<lambda>(bm, last_node, tb).
           run_bind (Some (adoption_reparent tb common_ancestor last_node)) (\<lambda>tb.
           run_bind (Some (afe_formatting_at tb fe_pos)) (\<lambda>(_, fe_tag, fe_attrs).
           let (new_fe, d) = create_node (document tb) (Element fe_tag fe_attrs)
           in run_bind (map_option in_dom (children d furthest_block_id)) (\<lambda>cs.
              run_bind (Some (move_children d new_fe cs)) (\<lambda>d.
              run_bind (Some (in_dom (append_child d furthest_block_id new_fe))) (\<lambda>d.
              run_bind (Some (adoption_entry (tb\<lparr>document := d\<rparr>) bm fe_pos fe_id
                                (new_fe, fe_tag, fe_attrs))) (\<lambda>tb.
              Some (adoption_stack tb fe_id furthest_block_id new_fe)))))))))"

text \<open>One round of the outer loop; \<open>True\<close> asks for another one.\<close>

definition adoption_round :: "tree_builder \<Rightarrow> rstring \<Rightarrow> (bool \<times> tree_builder) tb_run" where
  "adoption_round tb tag =
     (case afe_formatting_rposition tb tag of
        None \<Rightarrow> run_bind (Some (any_other_end_tag tb tag)) (\<lambda>tb. Some (Inr (False, tb)))
      | Some fe_pos \<Rightarrow>
          run_bind (Some (afe_formatting_at tb fe_pos)) (\<lambda>(fe_id, _, _).
          case position (\<lambda>i. i = fe_id) (open_elements tb) of
            None \<Rightarrow>
              Some (Inr (False, tb\<lparr>active_formatting := remove_at fe_pos (active_formatting tb)\<rparr>))
          | Some fe_stack_pos \<Rightarrow>
              run_bind (Some (has_node_in_scope tb fe_id)) (\<lambda>in_scope.
              if \<not> in_scope then Some (Inr (False, tb))
              else
                run_bind (Some (position_res (is_special tb)
                            (drop (fe_stack_pos + 1) (open_elements tb)))) (\<lambda>rel.
                case rel of
                  None \<Rightarrow>
                    Some (Inr (False,
                      tb\<lparr>open_elements := take fe_stack_pos (open_elements tb),
                         active_formatting := remove_at fe_pos (active_formatting tb)\<rparr>))
                | Some rel \<Rightarrow>
                    run_bind (adopt tb fe_pos fe_id fe_stack_pos (fe_stack_pos + 1 + rel)) (\<lambda>tb.
                    Some (Inr (True, tb)))))))"

fun adoption_loop :: "nat \<Rightarrow> tree_builder \<Rightarrow> rstring \<Rightarrow> tree_builder tb_run" where
  "adoption_loop n tb tag =
     (if n = 0 then Some (Inr tb)
      else
        run_bind (adoption_round tb tag) (\<lambda>(again, tb).
        if again then adoption_loop (n - 1) tb tag else Some (Inr tb)))"

declare adoption_loop.simps [simp del]

definition adoption_agency :: "tree_builder \<Rightarrow> rstring \<Rightarrow> tree_builder tb_run" where
  "adoption_agency tb tag =
     run_bind
       (case last_opt None (open_elements tb) of
          None \<Rightarrow> Some (Inr False)
        | Some current \<Rightarrow>
            run_bind (Some (has_tag tb [tag] current)) (\<lambda>b.
            Some (Inr (b \<and> \<not> list_ex (is_entry_of current) (active_formatting tb))))) (\<lambda>untracked.
     if untracked then Some (Inr (pop_element tb)) else adoption_loop 8 tb tag)"

section \<open>What the tests depend on\<close>

lemma tag_of_document: "document tb = document tb' \<Longrightarrow> tag_of tb = tag_of tb'"
  by (simp add: tag_of_def fun_eq_iff)

lemma scope_walk_document:
  assumes "document tb = document tb'"
  shows "scope_walk tb hit blocker is = scope_walk tb' hit blocker is"
  by (induction "is") (simp_all add: tag_of_document [OF assms] cong del: if_weak_cong option.case_cong_weak)

lemma has_tag_in_scope_document:
  assumes "document tb = document tb'" "open_elements tb = open_elements tb'"
  shows "has_tag_in_scope tb tag extra = has_tag_in_scope tb' tag extra"
  using assms(2) by (simp add: has_tag_in_scope_def scope_walk_document [OF assms(1)])

end
