(* ===== verification/Html_Insertion_Modes.thy ===== *)
theory Html_Insertion_Modes
  imports Html_Tree_Builder
begin

text \<open>
  The insertion modes of \<open>core/html/src/tree_builder.rs\<close>, one definition per \<open>step_\<close> method
  and per arm of \<open>start_tag_in_body\<close>, and the loops that drive them: \<open>process_token\<close> repeats
  \<open>step\<close> while it asks for the token to be processed again, \<open>run\<close> reads the tokens. Neither
  loop is known to end, so a run that does not return is the value \<open>None\<close>.
\<close>

type_synonym step_run = "(step_result \<times> tree_builder) tb_run"

definition finish :: "tree_builder \<Rightarrow> step_run" where
  "finish tb = Some (Inr (Done, tb))"

definition reprocess :: "html_token \<Rightarrow> tree_builder \<Rightarrow> step_run" where
  "reprocess tok tb = Some (Inr (Reprocess tok, tb))"

text \<open>Statements that may panic, one after the other.\<close>

definition seq_run :: "'a tb_res \<Rightarrow> ('a \<Rightarrow> 'b tb_run) \<Rightarrow> 'b tb_run" where
  "seq_run r f = run_bind (Some r) f"

definition one_of :: "rstring \<Rightarrow> string list \<Rightarrow> bool" where
  "one_of name tags = list_ex (\<lambda>t. name = chars t) tags"

definition is_blank :: "rstring \<Rightarrow> bool" where
  "is_blank s \<longleftrightarrow> trim s = []"

definition split_leading_whitespace :: "rstring \<Rightarrow> (rstring \<times> rstring) option" where
  "split_leading_whitespace s =
     (let r = trim_start s
      in if length r = length s then None else Some (take (length s - length r) s, r))"

definition strip_null_characters :: "rstring \<Rightarrow> rstring" where
  "strip_null_characters s = filter (\<lambda>c. c \<noteq> 0) s"

definition element_inserted :: "tree_builder \<Rightarrow> string \<Rightarrow> attrs \<Rightarrow> tree_builder tb_res" where
  "element_inserted tb name as = res_bind (insert_element tb (chars name) as) (\<lambda>(_, tb). Inr tb)"

definition close_p_in_button_scope :: "tree_builder \<Rightarrow> tree_builder tb_res" where
  "close_p_in_button_scope tb =
     res_bind (has_p_in_button_scope tb) (\<lambda>b. if b then close_p_element tb else Inr tb)"

section \<open>Start tags in body\<close>

definition merge_attributes :: "attrs \<Rightarrow> attrs \<Rightarrow> attrs" where
  "merge_attributes new old =
     fold (\<lambda>(k, v) acc. if list_ex (\<lambda>(ek, _). ek = k) acc then acc else acc @ [(k, v)]) new old"

definition start_html :: "tree_builder \<Rightarrow> attrs \<Rightarrow> step_run" where
  "start_html tb as =
     (case open_elements tb of
        [] \<Rightarrow> finish tb
      | html_id # _ \<Rightarrow>
          seq_run (in_dom (data_mut (document tb) html_id (\<lambda>dat.
            case dat of Element tag old \<Rightarrow> Element tag (merge_attributes as old) | _ \<Rightarrow> dat))) (\<lambda>d.
          finish (tb\<lparr>document := d\<rparr>)))"

definition start_body :: "tree_builder \<Rightarrow> attrs \<Rightarrow> step_run" where
  "start_body tb as =
     (case open_elements tb of
        _ # body_id # _ \<Rightarrow>
          seq_run (in_dom (data_mut (document tb) body_id (\<lambda>dat.
            case dat of
              Element tag old \<Rightarrow>
                if tag = chars ''body'' then Element tag (merge_attributes as old) else dat
            | _ \<Rightarrow> dat))) (\<lambda>d.
          finish (tb\<lparr>document := d\<rparr>))
      | _ \<Rightarrow> finish tb)"

definition start_table :: "tree_builder \<Rightarrow> attrs \<Rightarrow> step_run" where
  "start_table tb as =
     seq_run (if quirks_mode tb then Inr tb else close_p_in_button_scope tb) (\<lambda>tb.
     seq_run (element_inserted tb ''table'' as) (\<lambda>tb.
     finish (tb\<lparr>mode := InTable\<rparr>)))"

definition start_form :: "tree_builder \<Rightarrow> attrs \<Rightarrow> step_run" where
  "start_form tb as =
     (if form_element tb \<noteq> None then finish tb
      else
        seq_run (close_p_in_button_scope tb) (\<lambda>tb.
        seq_run (insert_element tb (chars ''form'') as) (\<lambda>(i, tb).
        finish (tb\<lparr>form_element := Some i\<rparr>))))"

definition start_li :: "tree_builder \<Rightarrow> attrs \<Rightarrow> step_run" where
  "start_li tb as =
     seq_run (close_li_if_open tb) (\<lambda>tb.
     seq_run (close_p_in_button_scope tb) (\<lambda>tb.
     seq_run (element_inserted tb ''li'' as) finish))"

definition close_button :: "tree_builder \<Rightarrow> tree_builder tb_res" where
  "close_button tb =
     res_bind (has_tag_in_scope tb (chars ''button'') []) (\<lambda>b.
     if b then
       res_bind (generate_implied_end_tags tb None) (\<lambda>tb.
       pop_until_and_including tb (chars ''button''))
     else Inr tb)"

definition start_button :: "tree_builder \<Rightarrow> attrs \<Rightarrow> step_run" where
  "start_button tb as =
     seq_run (close_button tb) (\<lambda>tb.
     seq_run (reconstruct_active_formatting_elements tb) (\<lambda>tb.
     seq_run (element_inserted tb ''button'' as) finish))"

definition start_formatting :: "tree_builder \<Rightarrow> rstring \<Rightarrow> attrs \<Rightarrow> step_run" where
  "start_formatting tb name as =
     seq_run (reconstruct_active_formatting_elements tb) (\<lambda>tb.
     seq_run (insert_element tb name as) (\<lambda>(i, tb).
     finish (push_formatting tb i name as)))"

definition forget_element :: "tree_builder \<Rightarrow> node_id \<Rightarrow> tree_builder" where
  "forget_element tb i =
     tb\<lparr>open_elements := filter (\<lambda>j. j \<noteq> i) (open_elements tb),
        active_formatting := filter (\<lambda>e. \<not> is_entry_of i e) (active_formatting tb)\<rparr>"

definition start_a :: "tree_builder \<Rightarrow> attrs \<Rightarrow> step_run" where
  "start_a tb as =
     run_bind
       (case afe_formatting_rposition tb (chars ''a'') of
          None \<Rightarrow> Some (Inr tb)
        | Some fe_pos \<Rightarrow>
            seq_run (afe_formatting_at tb fe_pos) (\<lambda>(existing_a, _, _).
            run_bind (adoption_agency tb (chars ''a'')) (\<lambda>tb.
            Some (Inr (forget_element tb existing_a))))) (\<lambda>tb.
     start_formatting tb (chars ''a'') as)"

definition start_text :: "tree_builder \<Rightarrow> rstring \<Rightarrow> attrs \<Rightarrow> step_run" where
  "start_text tb name as =
     seq_run (switch_to_text_mode tb name as) (\<lambda>tb.
     finish (if name = chars ''textarea'' then tb\<lparr>strip_leading_newline := True\<rparr> else tb))"

definition start_pre :: "tree_builder \<Rightarrow> attrs \<Rightarrow> step_run" where
  "start_pre tb as =
     seq_run (close_p_in_button_scope tb) (\<lambda>tb.
     seq_run (element_inserted tb ''pre'' as) (\<lambda>tb.
     finish (tb\<lparr>strip_leading_newline := True\<rparr>)))"

definition start_select :: "tree_builder \<Rightarrow> attrs \<Rightarrow> step_run" where
  "start_select tb as =
     seq_run (has_tag_in_scope tb (chars ''select'') []) (\<lambda>b.
     if b then seq_run (pop_until_and_including tb (chars ''select'')) finish
     else
       seq_run (reconstruct_active_formatting_elements tb) (\<lambda>tb.
       seq_run (element_inserted tb ''select'' as) finish))"

text \<open>The arms of \<open>option\<close> and \<open>optgroup\<close> differ in the tag the implied end tags spare.\<close>

definition start_option :: "tree_builder \<Rightarrow> string \<Rightarrow> rstring option \<Rightarrow> attrs \<Rightarrow> step_run" where
  "start_option tb name except as =
     seq_run (has_tag_in_scope tb (chars ''select'') []) (\<lambda>b.
     seq_run (if b then generate_implied_end_tags tb except
              else
                res_bind (is_current tb (chars ''option'')) (\<lambda>cur.
                Inr (if cur then pop_element tb else tb))) (\<lambda>tb.
     seq_run (reconstruct_active_formatting_elements tb) (\<lambda>tb.
     seq_run (element_inserted tb name as) finish)))"

definition start_hr :: "tree_builder \<Rightarrow> attrs \<Rightarrow> step_run" where
  "start_hr tb as =
     seq_run (close_p_in_button_scope tb) (\<lambda>tb.
     seq_run (has_tag_in_scope tb (chars ''select'') []) (\<lambda>b.
     seq_run (if b then generate_implied_end_tags tb None else Inr tb) (\<lambda>tb.
     seq_run (element_inserted tb ''hr'' as) finish)))"

definition start_input :: "tree_builder \<Rightarrow> attrs \<Rightarrow> step_run" where
  "start_input tb as =
     seq_run (has_tag_in_scope tb (chars ''select'') []) (\<lambda>b.
     seq_run (if b then pop_until_and_including tb (chars ''select'') else Inr tb) (\<lambda>tb.
     seq_run (reconstruct_active_formatting_elements tb) (\<lambda>tb.
     seq_run (element_inserted tb ''input'' as) finish)))"

definition start_heading :: "tree_builder \<Rightarrow> rstring \<Rightarrow> attrs \<Rightarrow> step_run" where
  "start_heading tb name as =
     seq_run (close_p_in_button_scope tb) (\<lambda>tb.
     seq_run (res_bind (current_node tb) (has_tag tb HEADING_ELEMENTS)) (\<lambda>b.
     seq_run (insert_element (if b then pop_element tb else tb) name as) (\<lambda>(_, tb).
     finish tb)))"

definition start_block :: "tree_builder \<Rightarrow> rstring \<Rightarrow> attrs \<Rightarrow> step_run" where
  "start_block tb name as =
     seq_run (close_p_in_button_scope tb) (\<lambda>tb.
     seq_run (insert_element tb name as) (\<lambda>(_, tb). finish tb))"

text \<open>The last two arms, for void elements and for all others, have the same body.\<close>

definition start_other :: "tree_builder \<Rightarrow> rstring \<Rightarrow> attrs \<Rightarrow> step_run" where
  "start_other tb name as =
     seq_run (reconstruct_active_formatting_elements tb) (\<lambda>tb.
     seq_run (insert_element tb name as) (\<lambda>(_, tb). finish tb))"

definition start_tag_in_body :: "tree_builder \<Rightarrow> rstring \<Rightarrow> attrs \<Rightarrow> step_run" where
  "start_tag_in_body tb name as =
     (if name = chars ''html'' then start_html tb as
      else if name = chars ''body'' then start_body tb as
      else if name = chars ''head'' then finish tb
      else if one_of name [''caption'', ''col'', ''colgroup'', ''tbody'', ''td'', ''tfoot'', ''th'',
                           ''thead'', ''tr''] then finish tb
      else if name = chars ''table'' then start_table tb as
      else if name = chars ''form'' then start_form tb as
      else if name = chars ''li'' then start_li tb as
      else if name = chars ''button'' then start_button tb as
      else if name = chars ''a'' then start_a tb as
      else if one_of name [''textarea'', ''script'', ''style'', ''title''] then start_text tb name as
      else if name = chars ''pre'' then start_pre tb as
      else if name = chars ''select'' then start_select tb as
      else if name = chars ''option'' then start_option tb ''option'' (Some (chars ''optgroup'')) as
      else if name = chars ''optgroup'' then start_option tb ''optgroup'' None as
      else if name = chars ''hr'' then start_hr tb as
      else if name = chars ''input'' then start_input tb as
      else if name \<in> set FORMATTING_ELEMENTS then start_formatting tb name as
      else if name \<in> set HEADING_ELEMENTS then start_heading tb name as
      else if name \<in> set P_CLOSING_ELEMENTS then start_block tb name as
      else start_other tb name as)"

section \<open>End tags in body\<close>

definition end_body :: "tree_builder \<Rightarrow> rstring \<Rightarrow> step_run" where
  "end_body tb name =
     seq_run (has_tag_in_scope tb (chars ''body'') []) (\<lambda>b.
     if \<not> b then finish tb
     else
       let tb = tb\<lparr>mode := AfterBody\<rparr>
       in if name = chars ''html'' then reprocess (EndTag name) tb else finish tb)"

definition end_p :: "tree_builder \<Rightarrow> step_run" where
  "end_p tb =
     seq_run (has_p_in_button_scope tb) (\<lambda>b.
     seq_run (if b then Inr tb else element_inserted tb ''p'' []) (\<lambda>tb.
     seq_run (close_p_element tb) finish))"

definition end_form :: "tree_builder \<Rightarrow> step_run" where
  "end_form tb =
     (case form_element tb of
        None \<Rightarrow> finish tb
      | Some form_id \<Rightarrow>
          let tb = tb\<lparr>form_element := None\<rparr>
          in seq_run (has_node_in_scope tb form_id) (\<lambda>b.
             if b then
               seq_run (generate_implied_end_tags tb None) (\<lambda>tb.
               finish (tb\<lparr>open_elements := filter (\<lambda>i. i \<noteq> form_id) (open_elements tb)\<rparr>))
             else finish tb))"

definition end_heading :: "tree_builder \<Rightarrow> step_run" where
  "end_heading tb =
     seq_run (has_any_heading_in_scope tb) (\<lambda>b.
     if b then
       seq_run (generate_implied_end_tags tb None) (\<lambda>tb.
       seq_run (on_stack tb (pop_through (has_tag tb HEADING_ELEMENTS))) finish)
     else finish tb)"

definition end_block :: "tree_builder \<Rightarrow> rstring \<Rightarrow> step_run" where
  "end_block tb name =
     seq_run (has_tag_in_scope tb name []) (\<lambda>b.
     if b then
       seq_run (generate_implied_end_tags tb None) (\<lambda>tb.
       seq_run (pop_until_and_including tb name) finish)
     else finish tb)"

definition end_br :: "tree_builder \<Rightarrow> step_run" where
  "end_br tb =
     seq_run (reconstruct_active_formatting_elements tb) (\<lambda>tb.
     seq_run (element_inserted tb ''br'' []) finish)"

definition end_tag_in_body :: "tree_builder \<Rightarrow> rstring \<Rightarrow> step_run" where
  "end_tag_in_body tb name =
     (if one_of name [''body'', ''html''] then end_body tb name
      else if name = chars ''br'' then end_br tb
      else if name = chars ''p'' then end_p tb
      else if name = chars ''li'' then seq_run (close_li_if_open tb) finish
      else if name = chars ''button'' then seq_run (close_button tb) finish
      else if name = chars ''form'' then end_form tb
      else if name \<in> set HEADING_ELEMENTS then end_heading tb
      else if name \<in> set FORMATTING_ELEMENTS then run_bind (adoption_agency tb name) finish
      else if name \<in> set P_CLOSING_ELEMENTS then end_block tb name
      else seq_run (any_other_end_tag tb name) finish)"

definition step_in_body :: "tree_builder \<Rightarrow> html_token \<Rightarrow> step_run" where
  "step_in_body tb tok =
     (case tok of
        Character s \<Rightarrow>
          let s = strip_null_characters s
          in seq_run (reconstruct_active_formatting_elements tb) (\<lambda>tb.
             let (s, tb) = consume_leading_newline_strip tb s
             in seq_run (insert_text tb s) finish)
      | StartTag name as _ \<Rightarrow> start_tag_in_body tb name as
      | EndTag name \<Rightarrow> end_tag_in_body tb name
      | _ \<Rightarrow> finish tb)"

section \<open>Before and in the head\<close>

text \<open>\<open>Inl\<close> is the result to return (\<open>Ok\<close> in the source), \<open>Inr\<close> the token to go on with.\<close>

definition split_off_dropped_whitespace :: "html_token \<Rightarrow> step_result + html_token" where
  "split_off_dropped_whitespace tok =
     (case tok of
        Character s \<Rightarrow>
          if is_blank s then Inl Done
          else
            (case split_leading_whitespace s of
               Some (_, r) \<Rightarrow> Inl (Reprocess (Character r))
             | None \<Rightarrow> Inr tok)
      | _ \<Rightarrow> Inr tok)"

definition step_initial :: "tree_builder \<Rightarrow> html_token \<Rightarrow> step_run" where
  "step_initial tb tok =
     (let other = reprocess tok (tb\<lparr>quirks_mode := True, mode := BeforeHtml\<rparr>)
      in case tok of
           Doctype \<Rightarrow> finish (tb\<lparr>mode := BeforeHtml\<rparr>)
         | Comment \<Rightarrow> finish tb
         | Character s \<Rightarrow> if is_blank s then finish tb else other
         | _ \<Rightarrow> other)"

text \<open>End tags that the modes before the body do not ignore.\<close>

definition reacts_to_end_tag :: "string list \<Rightarrow> rstring \<Rightarrow> bool" where
  "reacts_to_end_tag tags name = one_of name tags"

definition step_before_html :: "tree_builder \<Rightarrow> html_token \<Rightarrow> step_run" where
  "step_before_html tb tok =
     (case split_off_dropped_whitespace tok of
        Inl r \<Rightarrow> Some (Inr (r, tb))
      | Inr tok \<Rightarrow>
          let other =
            seq_run (element_inserted tb ''html'' []) (\<lambda>tb.
            reprocess tok (tb\<lparr>mode := BeforeHead\<rparr>))
          in case tok of
               Doctype \<Rightarrow> finish tb
             | Comment \<Rightarrow> finish tb
             | StartTag name as _ \<Rightarrow>
                 if name = chars ''html'' then
                   seq_run (element_inserted tb ''html'' as) (\<lambda>tb. finish (tb\<lparr>mode := BeforeHead\<rparr>))
                 else other
             | EndTag name \<Rightarrow>
                 if \<not> reacts_to_end_tag [''head'', ''body'', ''html'', ''br''] name then finish tb
                 else other
             | _ \<Rightarrow> other)"

definition open_head :: "tree_builder \<Rightarrow> attrs \<Rightarrow> tree_builder tb_res" where
  "open_head tb as =
     res_bind (insert_element tb (chars ''head'') as) (\<lambda>(i, tb).
     Inr (tb\<lparr>head_element := Some i, mode := InHead\<rparr>))"

definition step_before_head :: "tree_builder \<Rightarrow> html_token \<Rightarrow> step_run" where
  "step_before_head tb tok =
     (case split_off_dropped_whitespace tok of
        Inl r \<Rightarrow> Some (Inr (r, tb))
      | Inr tok \<Rightarrow>
          let other = seq_run (open_head tb []) (reprocess tok)
          in case tok of
               Doctype \<Rightarrow> finish tb
             | Comment \<Rightarrow> finish tb
             | StartTag name as _ \<Rightarrow>
                 if name = chars ''html'' then step_in_body tb tok
                 else if name = chars ''head'' then seq_run (open_head tb as) finish
                 else other
             | EndTag name \<Rightarrow>
                 if \<not> reacts_to_end_tag [''head'', ''body'', ''html'', ''br''] name then finish tb
                 else other
             | _ \<Rightarrow> other)"

text \<open>
  The treatment of white space that \<open>step_in_head\<close>, \<open>step_after_head\<close> and
  \<open>step_in_column_group\<close> start with; \<open>k\<close> is the rest of the method.
\<close>

definition keep_whitespace :: "tree_builder \<Rightarrow> html_token \<Rightarrow> step_run \<Rightarrow> step_run" where
  "keep_whitespace tb tok k =
     (case tok of
        Character s \<Rightarrow>
          if is_blank s then seq_run (insert_text tb s) finish
          else
            (case split_leading_whitespace s of
               Some (ws, r) \<Rightarrow> seq_run (insert_text tb ws) (reprocess (Character r))
             | None \<Rightarrow> k)
      | _ \<Rightarrow> k)"

definition leave_head :: "tree_builder \<Rightarrow> tree_builder" where
  "leave_head tb = (pop_element tb)\<lparr>mode := AfterHead\<rparr>"

definition step_in_head :: "tree_builder \<Rightarrow> html_token \<Rightarrow> step_run" where
  "step_in_head tb tok =
     keep_whitespace tb tok
       (let other = reprocess tok (leave_head tb)
        in case tok of
             Doctype \<Rightarrow> finish tb
           | Comment \<Rightarrow> finish tb
           | StartTag name as _ \<Rightarrow>
               if name = chars ''html'' then step_in_body tb tok
               else if one_of name [''meta'', ''link''] then
                 seq_run (insert_element tb name as) (\<lambda>(_, tb). finish tb)
               else if one_of name [''title'', ''style'', ''script''] then
                 seq_run (switch_to_text_mode tb name as) finish
               else if name = chars ''head'' then finish tb
               else other
           | EndTag name \<Rightarrow>
               if name = chars ''head'' then finish (leave_head tb)
               else if \<not> reacts_to_end_tag [''body'', ''html'', ''br''] name then finish tb
               else other
           | _ \<Rightarrow> other)"

definition open_body :: "tree_builder \<Rightarrow> attrs \<Rightarrow> tree_builder tb_res" where
  "open_body tb as =
     res_bind (element_inserted tb ''body'' as) (\<lambda>tb. Inr (tb\<lparr>mode := InBody\<rparr>))"

definition step_after_head :: "tree_builder \<Rightarrow> html_token \<Rightarrow> step_run" where
  "step_after_head tb tok =
     keep_whitespace tb tok
       (let other = seq_run (open_body tb []) (reprocess tok)
        in case tok of
             Doctype \<Rightarrow> finish tb
           | Comment \<Rightarrow> finish tb
           | StartTag name as _ \<Rightarrow>
               if name = chars ''html'' then step_in_body tb tok
               else if name = chars ''body'' then seq_run (open_body tb as) finish
               else if name = chars ''head'' then finish tb
               else if one_of name [''meta'', ''link'', ''title'', ''style'', ''script''] then
                 (case head_element tb of
                    None \<Rightarrow> other
                  | Some head_id \<Rightarrow>
                      run_bind (step_in_head
                        (tb\<lparr>open_elements := open_elements tb @ [head_id]\<rparr>) tok) (\<lambda>(r, tb).
                      Some (Inr (r,
                        tb\<lparr>open_elements := filter (\<lambda>i. i \<noteq> head_id) (open_elements tb)\<rparr>))))
               else other
           | EndTag name \<Rightarrow>
               if \<not> reacts_to_end_tag [''body'', ''html'', ''br''] name then finish tb
               else other
           | _ \<Rightarrow> other)"

section \<open>Text\<close>

definition leave_text :: "tree_builder \<Rightarrow> tree_builder" where
  "leave_text tb =
     (pop_element tb)\<lparr>tokenizer := set_content_model (tokenizer tb) content_model.Data,
                       mode := original_mode tb\<rparr>"

definition step_text :: "tree_builder \<Rightarrow> html_token \<Rightarrow> step_run" where
  "step_text tb tok =
     (case tok of
        Character s \<Rightarrow>
          let (s, tb) = consume_leading_newline_strip tb s
          in seq_run (insert_text tb s) finish
      | EndTag _ \<Rightarrow> finish (leave_text tb)
      | Eof \<Rightarrow> reprocess Eof (leave_text tb)
      | _ \<Rightarrow> finish tb)"

section \<open>Tables\<close>

definition clear_stack_back_to :: "tree_builder \<Rightarrow> string list \<Rightarrow> tree_builder tb_res" where
  "clear_stack_back_to tb stop_tags =
     on_stack tb (pop_while (\<lambda>top.
       res_bind (has_tag tb (chars ''html'' # map chars stop_tags) top) (\<lambda>b. Inr (\<not> b))))"

text \<open>Insert a table-structure element once the stack is cleared back to its context.\<close>

definition insert_structure ::
  "tree_builder \<Rightarrow> string list \<Rightarrow> rstring \<Rightarrow> attrs \<Rightarrow> mode \<Rightarrow> tree_builder tb_res" where
  "insert_structure tb stop_tags name as m =
     res_bind (clear_stack_back_to tb stop_tags) (\<lambda>tb.
     res_bind (insert_element tb name as) (\<lambda>(_, tb).
     Inr (tb\<lparr>mode := m\<rparr>)))"

definition close_table :: "tree_builder \<Rightarrow> tree_builder tb_res" where
  "close_table tb =
     res_bind (has_tag_in_scope tb (chars ''table'') []) (\<lambda>b.
     if b then
       res_bind (pop_until_and_including tb (chars ''table'')) reset_insertion_mode
     else Inr tb)"

definition with_foster_parenting :: "(tree_builder \<Rightarrow> step_run) \<Rightarrow> tree_builder \<Rightarrow> step_run" where
  "with_foster_parenting f tb =
     run_bind (f (tb\<lparr>foster_parenting := True\<rparr>)) (\<lambda>(r, tb).
     Some (Inr (r, tb\<lparr>foster_parenting := False\<rparr>)))"

definition table_text :: "tree_builder \<Rightarrow> rstring \<Rightarrow> step_run" where
  "table_text tb s =
     (let s = strip_null_characters s
      in if is_blank s then seq_run (insert_text tb s) finish
         else
           with_foster_parenting (\<lambda>tb.
             seq_run (reconstruct_active_formatting_elements tb) (\<lambda>tb.
             seq_run (insert_text tb s) finish)) tb)"

definition table_form :: "tree_builder \<Rightarrow> attrs \<Rightarrow> step_run" where
  "table_form tb as =
     (if form_element tb \<noteq> None then finish tb
      else
        seq_run (insert_element tb (chars ''form'') as) (\<lambda>(i, tb).
        finish (pop_element (tb\<lparr>form_element := Some i\<rparr>))))"

definition is_hidden_input :: "rstring \<Rightarrow> attrs \<Rightarrow> bool" where
  "is_hidden_input name as \<longleftrightarrow>
     name = chars ''input'' \<and>
     list_ex (\<lambda>(k, v). k = chars ''type'' \<and> eq_ignore_ascii_case v (chars ''hidden'')) as"

definition start_tag_in_table :: "tree_builder \<Rightarrow> html_token \<Rightarrow> rstring \<Rightarrow> attrs \<Rightarrow> step_run" where
  "start_tag_in_table tb tok name as =
     (if name = chars ''caption'' then
        seq_run (clear_stack_back_to tb [''table'']) (\<lambda>tb.
        seq_run (element_inserted (insert_afe_marker tb) ''caption'' as) (\<lambda>tb.
        finish (tb\<lparr>mode := InCaption\<rparr>)))
      else if name = chars ''colgroup'' then
        seq_run (insert_structure tb [''table''] (chars ''colgroup'') as InColumnGroup) finish
      else if name = chars ''col'' then
        seq_run (insert_structure tb [''table''] (chars ''colgroup'') [] InColumnGroup) (reprocess tok)
      else if one_of name [''tbody'', ''thead'', ''tfoot''] then
        seq_run (insert_structure tb [''table''] name as InTableBody) finish
      else if one_of name [''tr'', ''td'', ''th''] then
        seq_run (insert_structure tb [''table''] (chars ''tbody'') [] InTableBody) (reprocess tok)
      else if name = chars ''table'' then seq_run (close_table tb) (reprocess tok)
      else if one_of name [''style'', ''script''] then step_in_head tb tok
      else if is_hidden_input name as then seq_run (element_inserted tb ''input'' as) finish
      else if name = chars ''form'' then table_form tb as
      else with_foster_parenting (\<lambda>tb. step_in_body tb tok) tb)"

definition step_in_table :: "tree_builder \<Rightarrow> html_token \<Rightarrow> step_run" where
  "step_in_table tb tok =
     (case tok of
        Character s \<Rightarrow> table_text tb s
      | Doctype \<Rightarrow> finish tb
      | Comment \<Rightarrow> finish tb
      | StartTag name as _ \<Rightarrow> start_tag_in_table tb tok name as
      | EndTag name \<Rightarrow>
          if name = chars ''table'' then seq_run (close_table tb) finish
          else if one_of name [''body'', ''caption'', ''col'', ''colgroup'', ''html'', ''tbody'', ''td'',
                               ''tfoot'', ''th'', ''thead'', ''tr''] then finish tb
          else with_foster_parenting (\<lambda>tb. step_in_body tb tok) tb
      | Eof \<Rightarrow> with_foster_parenting (\<lambda>tb. step_in_body tb tok) tb)"

text \<open>Closing the caption; \<open>clear\<close> says whether the formatting elements of the caption go with it.\<close>

definition close_caption :: "tree_builder \<Rightarrow> bool \<Rightarrow> (bool \<times> tree_builder) tb_res" where
  "close_caption tb clear =
     res_bind (has_tag_in_scope tb (chars ''caption'') []) (\<lambda>b.
     if b then
       res_bind (generate_implied_end_tags tb None) (\<lambda>tb.
       res_bind (pop_until_and_including tb (chars ''caption'')) (\<lambda>tb.
       Inr (True, if clear then clear_afe_up_to_last_marker tb else tb)))
     else Inr (False, tb))"

definition step_in_caption :: "tree_builder \<Rightarrow> html_token \<Rightarrow> step_run" where
  "step_in_caption tb tok =
     (case tok of
        StartTag name _ _ \<Rightarrow>
          if one_of name [''caption'', ''col'', ''colgroup'', ''tbody'', ''td'', ''tfoot'', ''th'',
                          ''thead'', ''tr''] then
            seq_run (close_caption tb True) (\<lambda>(closed, tb).
            reprocess tok (if closed then tb\<lparr>mode := InTable\<rparr> else tb))
          else step_in_body tb tok
      | EndTag name \<Rightarrow>
          if name = chars ''caption'' then
            seq_run (close_caption tb True) (\<lambda>(_, tb). finish (tb\<lparr>mode := InTable\<rparr>))
          else if name = chars ''table'' then
            seq_run (close_caption tb False) (\<lambda>(closed, tb).
            reprocess tok (if closed then tb\<lparr>mode := InTable\<rparr> else tb))
          else step_in_body tb tok
      | _ \<Rightarrow> step_in_body tb tok)"

definition leave_column_group :: "tree_builder \<Rightarrow> tree_builder tb_res" where
  "leave_column_group tb =
     res_bind (is_current tb (chars ''colgroup'')) (\<lambda>b.
     Inr ((if b then pop_element tb else tb)\<lparr>mode := InTable\<rparr>))"

definition step_in_column_group :: "tree_builder \<Rightarrow> html_token \<Rightarrow> step_run" where
  "step_in_column_group tb tok =
     keep_whitespace tb tok
       (let other = seq_run (leave_column_group tb) (reprocess tok)
        in case tok of
             Comment \<Rightarrow> finish tb
           | Doctype \<Rightarrow> finish tb
           | StartTag name as _ \<Rightarrow>
               if name = chars ''col'' then seq_run (element_inserted tb ''col'' as) finish else other
           | EndTag name \<Rightarrow>
               if name = chars ''colgroup'' then seq_run (leave_column_group tb) finish else other
           | _ \<Rightarrow> other)"

definition sections :: "string list" where
  "sections = [''tbody'', ''thead'', ''tfoot'']"

definition leave_section :: "tree_builder \<Rightarrow> tree_builder tb_res" where
  "leave_section tb = res_bind (close_table_section tb) (\<lambda>tb. Inr (tb\<lparr>mode := InTable\<rparr>))"

definition step_in_table_body :: "tree_builder \<Rightarrow> html_token \<Rightarrow> step_run" where
  "step_in_table_body tb tok =
     (case tok of
        StartTag name as _ \<Rightarrow>
          if name = chars ''tr'' then
            seq_run (insert_structure tb sections (chars ''tr'') as InRow) finish
          else if one_of name [''td'', ''th''] then
            seq_run (insert_structure tb sections (chars ''tr'') [] InRow) (reprocess tok)
          else if one_of name [''tbody'', ''thead'', ''tfoot''] then
            seq_run (leave_section tb) (reprocess tok)
          else if one_of name [''caption'', ''col'', ''colgroup''] then
            seq_run (leave_section tb) (reprocess tok)
          else step_in_table tb tok
      | EndTag name \<Rightarrow>
          if one_of name [''tbody'', ''thead'', ''tfoot''] then
            seq_run (has_tag_in_scope tb name []) (\<lambda>b.
            seq_run (if b then close_table_section tb else Inr tb) (\<lambda>tb.
            finish (tb\<lparr>mode := InTable\<rparr>)))
          else if name = chars ''table'' then seq_run (leave_section tb) (reprocess tok)
          else step_in_table tb tok
      | _ \<Rightarrow> step_in_table tb tok)"

definition leave_row :: "tree_builder \<Rightarrow> tree_builder tb_res" where
  "leave_row tb =
     res_bind (has_tag_in_scope tb (chars ''tr'') []) (\<lambda>b.
     if b then
       res_bind (pop_until_and_including tb (chars ''tr'')) (\<lambda>tb. Inr (tb\<lparr>mode := InTableBody\<rparr>))
     else Inr tb)"

definition step_in_row :: "tree_builder \<Rightarrow> html_token \<Rightarrow> step_run" where
  "step_in_row tb tok =
     (case tok of
        StartTag name as _ \<Rightarrow>
          if one_of name [''td'', ''th''] then
            seq_run (insert_structure tb [''tr''] name as InCell) (\<lambda>tb.
            finish (insert_afe_marker tb))
          else if one_of name [''caption'', ''col'', ''colgroup'', ''tbody'', ''tfoot'', ''thead'', ''tr'']
          then seq_run (leave_row tb) (reprocess tok)
          else step_in_table tb tok
      | EndTag name \<Rightarrow>
          if name = chars ''tr'' then
            seq_run (leave_row tb) (\<lambda>tb. finish (tb\<lparr>mode := InTableBody\<rparr>))
          else if one_of name [''table'', ''tbody'', ''tfoot'', ''thead''] then
            seq_run (leave_row tb) (reprocess tok)
          else step_in_table tb tok
      | _ \<Rightarrow> step_in_table tb tok)"

definition cell_in_scope :: "tree_builder \<Rightarrow> bool tb_res" where
  "cell_in_scope tb =
     res_bind (has_tag_in_scope tb (chars ''td'') []) (\<lambda>b.
     if b then Inr True else has_tag_in_scope tb (chars ''th'') [])"

definition leave_cell :: "tree_builder \<Rightarrow> tree_builder tb_res" where
  "leave_cell tb =
     res_bind (cell_in_scope tb) (\<lambda>b. if b then close_current_cell tb else Inr tb)"

definition end_cell :: "tree_builder \<Rightarrow> rstring \<Rightarrow> step_run" where
  "end_cell tb name =
     seq_run (has_tag_in_scope tb name []) (\<lambda>b.
     seq_run (if b then
                res_bind (generate_implied_end_tags tb None) (\<lambda>tb.
                res_bind (pop_until_and_including tb name) (\<lambda>tb.
                Inr (clear_afe_up_to_last_marker tb)))
              else Inr tb) (\<lambda>tb.
     finish (tb\<lparr>mode := InRow\<rparr>)))"

definition step_in_cell :: "tree_builder \<Rightarrow> html_token \<Rightarrow> step_run" where
  "step_in_cell tb tok =
     (case tok of
        StartTag name _ _ \<Rightarrow>
          if one_of name [''caption'', ''col'', ''colgroup'', ''tbody'', ''td'', ''tfoot'', ''th'',
                          ''thead'', ''tr'']
          then seq_run (leave_cell tb) (reprocess tok)
          else step_in_body tb tok
      | EndTag name \<Rightarrow>
          if one_of name [''td'', ''th''] then end_cell tb name
          else if one_of name [''table'', ''tbody'', ''tfoot'', ''thead'', ''tr''] then
            seq_run (has_tag_in_table_scope tb name) (\<lambda>b.
            if \<not> b then finish tb
            else seq_run (leave_cell tb) (reprocess tok))
          else step_in_body tb tok
      | _ \<Rightarrow> step_in_body tb tok)"

section \<open>After the body\<close>

text \<open>
  Both modes process white space as in the body and hand anything else back to it; the value
  of \<open>step_in_body\<close> on the leading white space is dropped.
\<close>

definition body_whitespace :: "tree_builder \<Rightarrow> html_token \<Rightarrow> step_run \<Rightarrow> step_run" where
  "body_whitespace tb tok k =
     (case tok of
        Character s \<Rightarrow>
          if is_blank s then step_in_body tb tok
          else
            (case split_leading_whitespace s of
               Some (ws, r) \<Rightarrow>
                 run_bind (step_in_body tb (Character ws)) (\<lambda>(_, tb).
                 reprocess (Character r) (tb\<lparr>mode := InBody\<rparr>))
             | None \<Rightarrow> k)
      | _ \<Rightarrow> k)"

definition step_after_body :: "tree_builder \<Rightarrow> html_token \<Rightarrow> step_run" where
  "step_after_body tb tok =
     body_whitespace tb tok
       (let other = reprocess tok (tb\<lparr>mode := InBody\<rparr>)
        in case tok of
             Comment \<Rightarrow> finish tb
           | Doctype \<Rightarrow> finish tb
           | Eof \<Rightarrow> finish tb
           | EndTag name \<Rightarrow>
               if name = chars ''html'' then finish (tb\<lparr>mode := AfterAfterBody\<rparr>) else other
           | _ \<Rightarrow> other)"

definition step_after_after_body :: "tree_builder \<Rightarrow> html_token \<Rightarrow> step_run" where
  "step_after_after_body tb tok =
     body_whitespace tb tok
       (case tok of
          Comment \<Rightarrow> finish tb
        | Doctype \<Rightarrow> finish tb
        | Eof \<Rightarrow> finish tb
        | _ \<Rightarrow> reprocess tok (tb\<lparr>mode := InBody\<rparr>))"

section \<open>Driving the modes\<close>

definition dispatch :: "tree_builder \<Rightarrow> html_token \<Rightarrow> step_run" where
  "dispatch tb tok =
     (case mode tb of
        Initial \<Rightarrow> step_initial tb tok
      | BeforeHtml \<Rightarrow> step_before_html tb tok
      | BeforeHead \<Rightarrow> step_before_head tb tok
      | InHead \<Rightarrow> step_in_head tb tok
      | AfterHead \<Rightarrow> step_after_head tb tok
      | InBody \<Rightarrow> step_in_body tb tok
      | mode.Text \<Rightarrow> step_text tb tok
      | InTable \<Rightarrow> step_in_table tb tok
      | InCaption \<Rightarrow> step_in_caption tb tok
      | InColumnGroup \<Rightarrow> step_in_column_group tb tok
      | InTableBody \<Rightarrow> step_in_table_body tb tok
      | InRow \<Rightarrow> step_in_row tb tok
      | InCell \<Rightarrow> step_in_cell tb tok
      | AfterBody \<Rightarrow> step_after_body tb tok
      | AfterAfterBody \<Rightarrow> step_after_after_body tb tok)"

definition is_character :: "html_token \<Rightarrow> bool" where
  "is_character tok = (case tok of Character _ \<Rightarrow> True | _ \<Rightarrow> False)"

definition step :: "tree_builder \<Rightarrow> html_token \<Rightarrow> step_run" where
  "step tb tok =
     (let tb = (if is_character tok then tb else tb\<lparr>strip_leading_newline := False\<rparr>)
      in run_bind (dispatch tb tok) (\<lambda>(r, tb).
         Some (Inr (r, tb\<lparr>just_saw_dropped_comment_or_doctype := (tok = Comment \<or> tok = Doctype)\<rparr>))))"

partial_function (option) process_token :: "tree_builder \<Rightarrow> html_token \<Rightarrow> tree_builder tb_run" where
  "process_token tb tok =
     run_bind (step tb tok) (\<lambda>r.
     case fst r of
       Done \<Rightarrow> Some (Inr (snd r))
     | Reprocess t \<Rightarrow> process_token (snd r) t)"

partial_function (option) run :: "tree_builder \<Rightarrow> tree_builder tb_run" where
  "run tb =
     (case next_html_token (tokenizer tb) of
        Inl p \<Rightarrow> Some (Inl (Tokenizer_Panic p))
      | Inr r \<Rightarrow>
          run_bind (process_token (tb\<lparr>tokenizer := snd r\<rparr>) (fst r)) (\<lambda>tb.
          if fst r = Eof then Some (Inr tb) else run tb))"

declare process_token.simps [code] run.simps [code]

definition parse_html_continuing_from :: "rstring \<Rightarrow> u64 \<Rightarrow> document tb_run" where
  "parse_html_continuing_from input next_id =
     run_bind (run (new_tree_builder input next_id)) (\<lambda>tb. Some (Inr (document tb)))"

definition parse_html :: "rstring \<Rightarrow> document tb_run" where
  "parse_html input = parse_html_continuing_from input 0"

section \<open>Running concrete pages\<close>

text \<open>
  Rules that run the builder on a concrete token by rewriting: the definitions, and congruence
  rules that keep the simplifier from entering a continuation before its argument is known.
\<close>

lemma bind_weak_cong:
  "r = r' \<Longrightarrow> res_bind r f = res_bind r' f" "m = m' \<Longrightarrow> run_bind m g = run_bind m' g"
  "r = r' \<Longrightarrow> seq_run r h = seq_run r' h"
  by simp_all

lemma seq_run_simps [simp]: "seq_run (Inl e) f = Some (Inl e)" "seq_run (Inr a) f = f a"
  by (simp_all add: seq_run_def)

lemma in_dom_simps [simp]: "in_dom (Inl e) = Inl (Dom_Panic e)" "in_dom (Inr a) = Inr a"
  by (simp_all add: in_dom_def)

lemmas dom_eval = create_node_def allocate_def new_continuing_from_def node_at_def update_node_def
  fresh_record_def append_child_def insert_before_def data_def parent_def root_def

lemmas builder_eval = new_tree_builder_def current_node_def tag_of_def has_tag_def is_current_def
  is_special_def is_table_context_def uses_foster_def insert_node_def insert_element_def
  element_inserted_def last_opt_def VOID_ELEMENTS_def has_tag_in_scope_def DEFAULT_SCOPE_BLOCKERS_def
  on_stack_def pop_element_def insert_afe_marker_def has_p_in_button_scope_def P_CLOSING_ELEMENTS_def
  FORMATTING_ELEMENTS_def HEADING_ELEMENTS_def reconstruct_active_formatting_elements_def

lemmas mode_eval = step_def dispatch_def is_character_def step_initial_def step_before_html_def
  split_off_dropped_whitespace_def step_before_head_def reprocess_def finish_def
  reacts_to_end_tag_def one_of_def open_head_def step_in_head_def keep_whitespace_def leave_head_def
  step_after_head_def open_body_def step_in_body_def start_tag_in_body_def start_table_def
  close_p_in_button_scope_def start_tag_in_table_def step_in_table_def insert_structure_def
  clear_stack_back_to_def step_in_table_body_def step_in_row_def sections_def step_in_cell_def
  end_cell_def

end
