(* ===== verification/Html_Divergence.thy ===== *)
theory Html_Divergence
  imports Html_Insertion_Modes
begin

text \<open>
  The tree builder does not return on every input: in the row and cell modes a table tag that
  finds no row in scope is handed back unchanged, in an unchanged state, for ever.
\<close>

lemma process_token_stuck:
  assumes "step tb tok = Some (Inr (Reprocess tok, tb))"
  shows "process_token tb tok = None"
proof (rule ccontr)
  assume "process_token tb tok \<noteq> None"
  then obtain y where y: "process_token tb tok = Some y" by blast
  have "\<not> (tb' = tb \<and> tok' = tok)" if "process_token tb' tok' = Some y'" for tb' tok' y'
    using that
  proof (rule process_token.raw_induct [where P = "\<lambda>tb' tok' _. \<not> (tb' = tb \<and> tok' = tok)", rotated])
    fix f tb' tok' y'
    assume IH: "\<And>tb' tok' y'. f tb' tok' = Some y' \<Longrightarrow> \<not> (tb' = tb \<and> tok' = tok)"
      and body: "run_bind (step tb' tok') (\<lambda>r. case fst r of Done \<Rightarrow> Some (Inr (snd r))
        | Reprocess t \<Rightarrow> f (snd r) t) = Some y'"
    show "\<not> (tb' = tb \<and> tok' = tok)"
    proof
      assume "tb' = tb \<and> tok' = tok"
      with body assms have "f tb tok = Some y'" by simp
      with IH show False by blast
    qed
  qed
  from this [OF y] show False by simp
qed

lemma process_token_step:
  "step tb tok = Some (Inr (Reprocess t, tb')) \<Longrightarrow> process_token tb tok = process_token tb' t"
  by (subst process_token.simps) simp

text \<open>Processing a token in at most \<open>k\<close> steps.\<close>

fun process_bounded :: "nat \<Rightarrow> tree_builder \<Rightarrow> html_token \<Rightarrow> tree_builder tb_run" where
  "process_bounded k tb tok =
     (if k = 0 then None
      else run_bind (step tb tok) (\<lambda>r.
        case fst r of
          Done \<Rightarrow> Some (Inr (snd r))
        | Reprocess t \<Rightarrow> process_bounded (k - 1) (snd r) t))"

declare process_bounded.simps [simp del]

lemma process_bounded_sound:
  "process_bounded k tb tok = Some r \<Longrightarrow> process_token tb tok = Some r"
proof (induction k tb tok rule: process_bounded.induct)
  case (1 k tb tok)
  from 1(2) have k: "k \<noteq> 0" by (cases "k = 0") (simp_all add: process_bounded.simps [of 0])
  show ?case
  proof (cases "step tb tok")
    case None
    with 1(2) k show ?thesis by (simp add: process_bounded.simps [of k])
  next
    case (Some s)
    show ?thesis
    proof (cases s)
      case (Inl e)
      with 1(2) k Some show ?thesis by (simp add: process_bounded.simps [of k] process_token.simps [of tb])
    next
      case (Inr p)
      with 1 k Some show ?thesis
        by (cases "fst p") (simp_all add: process_bounded.simps [of k] process_token.simps [of tb])
    qed
  qed
qed

lemma run_token:
  assumes "next_html_token (tokenizer tb) = Inr (tok, t)" "tok \<noteq> Eof"
    "process_bounded k (tb\<lparr>tokenizer := t\<rparr>) tok = Some (Inr tb')"
  shows "run tb = run tb'"
  using assms process_bounded_sound [OF assms(3)] by (subst run.simps) simp

lemma run_stuck:
  assumes "next_html_token (tokenizer tb) = Inr (tok, t)" "process_token (tb\<lparr>tokenizer := t\<rparr>) tok = None"
  shows "run tb = None"
  using assms by (subst run.simps) simp

text \<open>In the row mode with no row in scope, a row or section tag is handed back unchanged.\<close>

lemma row_tag_stuck:
  assumes "mode tb = InRow" "has_tag_in_scope tb (chars ''tr'') [] = Inr False"
    "one_of name [''caption'', ''col'', ''colgroup'', ''tbody'', ''tfoot'', ''thead'', ''tr'']"
  shows "process_token tb (StartTag name as sc) = None"
proof -
  let ?tok = "StartTag name as sc"
  let ?u = "tb\<lparr>just_saw_dropped_comment_or_doctype := False, strip_leading_newline := False\<rparr>"
  have scope: "has_tag_in_scope (tb\<lparr>strip_leading_newline := False\<rparr>) (chars ''tr'') [] = Inr False"
    "has_tag_in_scope ?u (chars ''tr'') [] = Inr False"
    using assms(2) has_tag_in_scope_document [of "tb\<lparr>strip_leading_newline := False\<rparr>" tb]
      has_tag_in_scope_document [of ?u tb] by simp_all
  have td: "\<not> one_of name [''td'', ''th'']" using assms(3) by (auto simp: one_of_def)
  have s: "step tb ?tok = Some (Inr (Reprocess ?tok, ?u))" "step ?u ?tok = Some (Inr (Reprocess ?tok, ?u))"
    using assms td scope
    by (simp_all add: step_def is_character_def dispatch_def step_in_row_def leave_row_def seq_run_def
        reprocess_def Let_def)
  show ?thesis using process_token_step [OF s(1)] process_token_stuck [OF s(2)] by simp
qed

lemma stuck_tokens:
  "\<exists>t1 t2 t3 t4 t5.
     next_html_token (tokenizer (new_tree_builder (chars ''<table><tr><th></td><tr>'') 0)) =
       Inr (StartTag (chars ''table'') [] False, t1) \<and>
     next_html_token t1 = Inr (StartTag (chars ''tr'') [] False, t2) \<and>
     next_html_token t2 = Inr (StartTag (chars ''th'') [] False, t3) \<and>
     next_html_token t3 = Inr (EndTag (chars ''td''), t4) \<and>
     next_html_token t4 = Inr (StartTag (chars ''tr'') [] False, t5)"
proof -
  let ?pull = "\<lambda>t. snd (projr (next_html_token t))"
  let ?t0 = "new_html_tokenizer (chars ''<table><tr><th></td><tr>'')"
  have "next_html_token ?t0 = Inr (StartTag (chars ''table'') [] False, ?pull ?t0)"
    "next_html_token (?pull ?t0) = Inr (StartTag (chars ''tr'') [] False, ?pull (?pull ?t0))"
    "next_html_token (?pull (?pull ?t0)) =
       Inr (StartTag (chars ''th'') [] False, ?pull (?pull (?pull ?t0)))"
    "next_html_token (?pull (?pull (?pull ?t0))) =
       Inr (EndTag (chars ''td''), ?pull (?pull (?pull (?pull ?t0))))"
    "next_html_token (?pull (?pull (?pull (?pull ?t0)))) =
       Inr (StartTag (chars ''tr'') [] False, ?pull (?pull (?pull (?pull (?pull ?t0)))))"
    by code_simp+
  then show ?thesis by (simp add: new_tree_builder_def) blast
qed

text \<open>
  C24. The tree builder does not return on the page \<open><table><tr><th></td><tr>\<close>: the stray
  \<open></td>\<close> moves it from the cell mode to the row mode with the \<open>th\<close> still open, and there the
  second \<open><tr>\<close> is reprocessed for ever because the open \<open>th\<close> hides the row.
\<close>

theorem misnested_cell_hangs: "parse_html (chars ''<table><tr><th></td><tr>'') = None"
proof -
  let ?tb = "new_tree_builder (chars ''<table><tr><th></td><tr>'') 0"
  let ?start = "\<lambda>name. StartTag (chars name) [] False"
  have "\<exists>t1 t2 t3 t4 t5. next_html_token (tokenizer ?tb) = Inr (?start ''table'', t1) \<and>
      next_html_token t1 = Inr (?start ''tr'', t2) \<and> next_html_token t2 = Inr (?start ''th'', t3) \<and>
      next_html_token t3 = Inr (EndTag (chars ''td''), t4) \<and> next_html_token t4 = Inr (?start ''tr'', t5)"
    by (rule stuck_tokens)
  then obtain t1 t2 t3 t4 t5 where tok: "next_html_token (tokenizer ?tb) = Inr (?start ''table'', t1)"
      "next_html_token t1 = Inr (?start ''tr'', t2)" "next_html_token t2 = Inr (?start ''th'', t3)"
      "next_html_token t3 = Inr (EndTag (chars ''td''), t4)" "next_html_token t4 = Inr (?start ''tr'', t5)"
    by blast
  have "\<exists>tb1 tb2 tb3 tb4.
      process_bounded 10 (?tb\<lparr>tokenizer := t1\<rparr>) (?start ''table'') = Some (Inr tb1) \<and> tokenizer tb1 = t1 \<and>
      process_bounded 10 (tb1\<lparr>tokenizer := t2\<rparr>) (?start ''tr'') = Some (Inr tb2) \<and> tokenizer tb2 = t2 \<and>
      process_bounded 10 (tb2\<lparr>tokenizer := t3\<rparr>) (?start ''th'') = Some (Inr tb3) \<and> tokenizer tb3 = t3 \<and>
      process_bounded 10 (tb3\<lparr>tokenizer := t4\<rparr>) (EndTag (chars ''td'')) = Some (Inr tb4) \<and> tokenizer tb4 = t4 \<and>
      mode tb4 = InRow \<and> has_tag_in_scope (tb4\<lparr>tokenizer := t5\<rparr>) (chars ''tr'') [] = Inr False"
    by (simp add: process_bounded.simps mode_eval builder_eval dom_eval Let_def cong: bind_weak_cong)
  then obtain tb1 tb2 tb3 tb4 where b:
      "process_bounded 10 (?tb\<lparr>tokenizer := t1\<rparr>) (?start ''table'') = Some (Inr tb1)" "tokenizer tb1 = t1"
      "process_bounded 10 (tb1\<lparr>tokenizer := t2\<rparr>) (?start ''tr'') = Some (Inr tb2)" "tokenizer tb2 = t2"
      "process_bounded 10 (tb2\<lparr>tokenizer := t3\<rparr>) (?start ''th'') = Some (Inr tb3)" "tokenizer tb3 = t3"
      "process_bounded 10 (tb3\<lparr>tokenizer := t4\<rparr>) (EndTag (chars ''td'')) = Some (Inr tb4)" "tokenizer tb4 = t4"
      "mode tb4 = InRow" "has_tag_in_scope (tb4\<lparr>tokenizer := t5\<rparr>) (chars ''tr'') [] = Inr False"
    by blast
  have "process_token (tb4\<lparr>tokenizer := t5\<rparr>) (?start ''tr'') = None"
    using b(9,10) by (intro row_tag_stuck) (simp_all add: one_of_def)
  with tok(5) b(8) have "run tb4 = None" by (intro run_stuck [of _ "?start ''tr''" t5]) simp_all
  then have "run tb3 = None" using run_token [OF _ _ b(7)] tok(4) b(6) by simp
  then have "run tb2 = None" using run_token [OF _ _ b(5)] tok(3) b(4) by simp
  then have "run tb1 = None" using run_token [OF _ _ b(3)] tok(2) b(2) by simp
  then have "run ?tb = None" using run_token [OF tok(1) _ b(1)] by simp
  then show ?thesis by (simp add: parse_html_def parse_html_continuing_from_def)
qed

end
