(* ===== verification/Html_Stack.thy ===== *)
theory Html_Stack
  imports Html_Insertion_Modes Dom_Tree "HOL-Library.Sublist"
begin

text \<open>
  What the safety proof of the tree builder needs of lists: statements that return, searches by
  position, the grammar of the tags on the stack of open elements, and the order that the stack
  and the list of active formatting elements share.
\<close>

text \<open>From here on a tag is compared as a literal, not as a list of code points.\<close>

lemma chars_inject [simp]: "chars s = chars t \<longleftrightarrow> s = t"
  by (simp add: chars_def inj_map_eq_map inj_on_def)

declare chars_simps [simp del]

section \<open>Statements that return\<close>

definition ok_res :: "'e + 'a \<Rightarrow> ('a \<Rightarrow> bool) \<Rightarrow> bool" where
  "ok_res r Q \<longleftrightarrow> (\<exists>a. r = Inr a \<and> Q a)"

definition ok_run :: "('e + 'a) option \<Rightarrow> ('a \<Rightarrow> bool) \<Rightarrow> bool" where
  "ok_run m Q \<longleftrightarrow> (\<exists>a. m = Some (Inr a) \<and> Q a)"

lemma ok_simps [simp]:
  "ok_res (Inr a) Q \<longleftrightarrow> Q a" "ok_run (Some (Inr a)) R \<longleftrightarrow> R a"
  by (simp_all add: ok_res_def ok_run_def)

lemma ok_res_bind: "ok_res r P \<Longrightarrow> (\<And>a. P a \<Longrightarrow> ok_res (f a) Q) \<Longrightarrow> ok_res (res_bind r f) Q"
  by (auto simp: ok_res_def)

lemma ok_run_bind: "ok_run m P \<Longrightarrow> (\<And>a. P a \<Longrightarrow> ok_run (f a) Q) \<Longrightarrow> ok_run (run_bind m f) Q"
  by (auto simp: ok_run_def)

lemma ok_seq_run: "ok_res r P \<Longrightarrow> (\<And>a. P a \<Longrightarrow> ok_run (f a) Q) \<Longrightarrow> ok_run (seq_run r f) Q"
  by (auto simp: ok_res_def)

lemma ok_run_Some: "ok_res r Q \<Longrightarrow> ok_run (Some r) Q"
  by (auto simp: ok_res_def ok_run_def)

lemma ok_res_mono: "ok_res r P \<Longrightarrow> (\<And>a. P a \<Longrightarrow> Q a) \<Longrightarrow> ok_res r Q"
  by (auto simp: ok_res_def)

lemma ok_run_mono: "ok_run m P \<Longrightarrow> (\<And>a. P a \<Longrightarrow> Q a) \<Longrightarrow> ok_run m Q"
  by (auto simp: ok_run_def)

lemma ok_resE: "ok_res r Q \<Longrightarrow> (\<And>a. r = Inr a \<Longrightarrow> Q a \<Longrightarrow> thesis) \<Longrightarrow> thesis"
  by (auto simp: ok_res_def)

section \<open>Searches\<close>

lemma length_takeWhile_less_iff:
  "length (takeWhile P xs) < length xs \<longleftrightarrow> (\<exists>x\<in>set xs. \<not> P x)"
  by (induction xs) auto

lemma position_Some:
  assumes "position P xs = Some n"
  obtains ys x zs where "xs = ys @ x # zs" "length ys = n" "P x" "\<And>y. y \<in> set ys \<Longrightarrow> \<not> P y"
proof -
  have n: "length (takeWhile (\<lambda>x. \<not> P x) xs) = n" "\<exists>x\<in>set xs. P x"
    using assms length_takeWhile_less_iff [of "\<lambda>x. \<not> P x" xs]
    by (auto simp: position_def Let_def split: if_splits)
  from split_list_first_prop [OF n(2)] obtain ys x zs where
    xs: "xs = ys @ x # zs" "P x" "\<forall>y\<in>set ys. \<not> P y" by blast
  then have "length ys = n" using n(1) by (simp add: takeWhile_append2)
  with xs show thesis by (intro that [of ys x zs]) simp_all
qed

lemma position_None: "position P xs = None \<longleftrightarrow> (\<forall>x\<in>set xs. \<not> P x)"
  by (simp add: position_def Let_def length_takeWhile_less_iff)

lemma position_append:
  "P x \<Longrightarrow> (\<And>y. y \<in> set ys \<Longrightarrow> \<not> P y) \<Longrightarrow> position P (ys @ x # zs) = Some (length ys)"
  by (simp add: position_def Let_def takeWhile_append2)

lemma rposition_Some:
  assumes "rposition P xs = Some n"
  obtains ys x zs where "xs = ys @ x # zs" "length ys = n" "P x" "\<And>y. y \<in> set zs \<Longrightarrow> \<not> P y"
proof -
  obtain p where p: "position P (rev xs) = Some p" "n = length xs - 1 - p"
    using assms by (auto simp: rposition_def)
  from p(1) obtain ys x zs where r: "rev xs = ys @ x # zs" "length ys = p" "P x"
    "\<And>y. y \<in> set ys \<Longrightarrow> \<not> P y" by (elim position_Some) blast
  then have "xs = rev zs @ x # rev ys" by (simp add: rev_swap)
  moreover from this have "length (rev zs) = n" using p(2) r(2) by simp
  ultimately show thesis using r(3,4) by (intro that [of "rev zs" x "rev ys"]) simp_all
qed

lemma append_split_at:
  assumes "xs @ ys = us @ i # vs" "i \<notin> set ys"
  obtains ws where "xs = us @ i # ws" "vs = ws @ ys"
proof -
  obtain zs where "xs = us @ zs \<and> zs @ ys = i # vs \<or> xs @ zs = us \<and> ys = zs @ i # vs"
    using assms(1) unfolding append_eq_append_conv2 by blast
  with assms(2) show thesis by (cases zs) (auto intro: that)
qed

lemma edit_middle [simp]:
  "remove_at (length xs) (xs @ x # ys) = xs @ ys" "insert_at (length xs) z (xs @ ys) = xs @ z # ys"
  by (simp_all add: remove_at_def insert_at_def)

section \<open>The grammar of the stack\<close>

text \<open>
  Below a cell is a row, below a row a section of a table, below a section, a caption or a column
  group the table itself; \<open>html\<close> is at the bottom and nowhere else. Any other (\<open>plain\<close>) element
  may stand on any other. The \<open>anchors\<close> are the elements that the table modes look for.
\<close>

definition table_sections :: "rstring set" where
  "table_sections = {chars ''tbody'', chars ''thead'', chars ''tfoot''}"

definition plain :: "rstring \<Rightarrow> bool" where
  "plain t \<longleftrightarrow> t \<notin> {chars ''td'', chars ''th'', chars ''tr'', chars ''caption'', chars ''colgroup'', chars ''html''}
     \<and> t \<notin> table_sections"

definition anchors :: "rstring set" where
  "anchors = {chars ''html'', chars ''table'', chars ''tr''} \<union> table_sections"

definition stack_next :: "rstring \<Rightarrow> rstring \<Rightarrow> bool" where
  "stack_next x y \<longleftrightarrow> plain y \<or> (y \<in> {chars ''td'', chars ''th''} \<and> x = chars ''tr'') \<or>
     (y = chars ''tr'' \<and> x \<in> table_sections) \<or>
     (y \<in> insert (chars ''caption'') (insert (chars ''colgroup'') table_sections) \<and> x = chars ''table'')"

definition wf_stack :: "rstring list \<Rightarrow> bool" where
  "wf_stack ts \<longleftrightarrow> (ts \<noteq> [] \<longrightarrow> hd ts = chars ''html'') \<and> successively stack_next ts"

lemma not_plain_html [simp]: "\<not> plain (chars ''html'')"
  by (simp add: plain_def)

lemma not_next_html [simp]: "\<not> stack_next x (chars ''html'')"
  by (simp add: stack_next_def plain_def table_sections_def)

lemma plain_next: "plain y \<Longrightarrow> stack_next x y"
  by (simp add: stack_next_def)

lemma next_plain: "stack_next x y \<Longrightarrow> x \<notin> anchors \<Longrightarrow> plain y"
  by (auto simp: stack_next_def anchors_def)

lemma plain_not_anchor: "plain y \<Longrightarrow> y \<noteq> chars ''table'' \<Longrightarrow> y \<notin> anchors"
  by (auto simp: plain_def anchors_def)

lemma wf_stack_prefix: "wf_stack (xs @ ys) \<Longrightarrow> wf_stack xs"
  by (auto simp: wf_stack_def successively_append_iff)

lemma wf_stack_push:
  "wf_stack xs \<Longrightarrow> xs \<noteq> [] \<Longrightarrow> stack_next (last xs) y \<Longrightarrow> wf_stack (xs @ [y])"
  by (auto simp: wf_stack_def successively_append_iff)

lemma wf_stack_simps [simp]: "wf_stack []" "wf_stack [chars ''html'']"
  by (simp_all add: wf_stack_def)

lemma wf_stack_plain:
  assumes "wf_stack xs" "xs \<noteq> []" "\<And>y. y \<in> set ys \<Longrightarrow> plain y"
  shows "wf_stack (xs @ ys)"
  using assms
proof (induction ys arbitrary: xs)
  case (Cons y ys)
  then have "wf_stack ((xs @ [y]) @ ys)"
    by (intro Cons.IH) (auto intro: wf_stack_push plain_next)
  then show ?case by simp
qed simp

lemma plain_above:
  assumes "wf_stack (xs @ t # ys)" "t \<notin> anchors" "chars ''table'' \<notin> set ys" "y \<in> set ys"
  shows "plain y"
  using assms
proof (induction ys arbitrary: xs t)
  case (Cons z zs)
  have z: "plain z"
    using Cons.prems by (auto simp: wf_stack_def successively_append_iff intro: next_plain)
  show ?case
  proof (cases "y = z")
    case False
    have "wf_stack ((xs @ [t]) @ z # zs)" using Cons.prems(1) by simp
    moreover have "z \<notin> anchors" using plain_not_anchor [OF z] Cons.prems(3) by auto
    ultimately show ?thesis using Cons.IH [of "xs @ [t]" z] Cons.prems False by simp
  qed (use z in simp)
qed simp

lemma anchors_below:
  assumes "wf_stack (xs @ t # ys)" "t \<notin> anchors" "chars ''table'' \<notin> set ys"
  shows "anchors \<inter> set (xs @ t # ys) \<subseteq> set xs"
  using plain_above [OF assms] plain_not_anchor assms(2,3) by fastforce

lemma wf_stack_remove:
  assumes "wf_stack (xs @ t # ys)" "t \<notin> anchors"
  shows "wf_stack (xs @ ys)"
proof -
  have "xs \<noteq> []" using assms by (auto simp: wf_stack_def anchors_def)
  moreover have "plain (hd ys)" if "ys \<noteq> []"
    using that assms by (cases ys) (auto simp: wf_stack_def successively_append_iff intro: next_plain)
  ultimately show ?thesis
    using assms(1) by (cases ys) (auto simp: wf_stack_def successively_append_iff intro: plain_next)
qed

lemma html_on_stack: "wf_stack ts \<Longrightarrow> ts \<noteq> [] \<Longrightarrow> chars ''html'' \<in> set ts"
  by (cases ts) (auto simp: wf_stack_def)

lemma wf_stack_split:
  assumes "wf_stack (xs @ y # ys)"
  shows "xs = [] \<and> y = chars ''html'' \<or> xs \<noteq> [] \<and> stack_next (last xs) y \<and> y \<noteq> chars ''html''"
  using assms by (cases "xs = []") (auto simp: wf_stack_def successively_append_iff)

lemma below_on_stack:
  assumes "wf_stack ts" "y \<in> set ts"
  shows "y \<in> {chars ''td'', chars ''th''} \<Longrightarrow> chars ''tr'' \<in> set ts"
    "y = chars ''tr'' \<Longrightarrow> \<exists>t\<in>table_sections. t \<in> set ts"
    "y \<in> table_sections \<or> y = chars ''caption'' \<or> y = chars ''colgroup'' \<Longrightarrow> chars ''table'' \<in> set ts"
proof -
  obtain xs ys where ts: "ts = xs @ y # ys" using assms(2) by (meson split_list)
  from wf_stack_split assms(1) have "y = chars ''html'' \<or> xs \<noteq> [] \<and> stack_next (last xs) y"
    unfolding ts by blast
  then have y: "y = chars ''html'' \<or> last xs \<in> set ts \<and> stack_next (last xs) y"
    by (auto simp: ts)
  show "y \<in> {chars ''td'', chars ''th''} \<Longrightarrow> chars ''tr'' \<in> set ts"
    "y = chars ''tr'' \<Longrightarrow> \<exists>t\<in>table_sections. t \<in> set ts"
    "y \<in> table_sections \<or> y = chars ''caption'' \<or> y = chars ''colgroup'' \<Longrightarrow> chars ''table'' \<in> set ts"
    using y by (auto simp: stack_next_def plain_def table_sections_def)
qed

lemma table_on_stack:
  assumes "wf_stack ts" "y \<in> set ts" "y \<in> anchors" "y \<noteq> chars ''html''"
  shows "chars ''table'' \<in> set ts"
proof -
  have "\<exists>t\<in>set ts. t \<in> table_sections \<or> t = chars ''table''"
    using below_on_stack(2) [OF assms(1,2)] assms(2-4) by (auto simp: anchors_def)
  then show ?thesis using below_on_stack(3) [OF assms(1)] by blast
qed

text \<open>What each insertion mode relies on.\<close>

definition mode_ok :: "mode \<Rightarrow> rstring list \<Rightarrow> bool" where
  "mode_ok m ts \<longleftrightarrow>
     (if m = Initial \<or> m = BeforeHtml then ts = [] else ts \<noteq> []) \<and>
     (m = InHead \<longrightarrow> last ts = chars ''head'') \<and>
     (m \<in> {InTable, InCaption, InColumnGroup} \<longrightarrow> chars ''table'' \<in> set ts) \<and>
     (m = InTableBody \<longrightarrow> (\<exists>t\<in>table_sections. t \<in> set ts)) \<and>
     (m \<in> {InRow, InCell} \<longrightarrow> chars ''tr'' \<in> set ts) \<and> m \<noteq> mode.Text"

lemma mode_ok_anchors:
  assumes "mode_ok m ts" "m \<notin> {Initial, BeforeHtml, InHead}" "wf_stack ts" "anchors \<inter> set ts \<subseteq> set ts'"
  shows "mode_ok m ts'"
proof -
  have "chars ''html'' \<in> set ts'"
    using assms html_on_stack [OF assms(3)] by (auto simp: mode_ok_def anchors_def)
  moreover have "\<exists>t\<in>table_sections. t \<in> set ts'" if "\<exists>t\<in>table_sections. t \<in> set ts"
    using that assms(4) by (auto simp: anchors_def)
  moreover have "t \<in> set ts'" if "t \<in> set ts" "t \<in> {chars ''table'', chars ''tr''}" for t
    using that assms(4) by (auto simp: anchors_def)
  ultimately show ?thesis
    using assms(1,2) by (cases m) (auto simp: mode_ok_def)
qed

text \<open>The modes whose requirement does not name an element of a table.\<close>

lemma mode_ok_body: "mode_ok InBody ts \<longleftrightarrow> ts \<noteq> []" "mode_ok AfterBody ts \<longleftrightarrow> ts \<noteq> []"
  "mode_ok AfterAfterBody ts \<longleftrightarrow> ts \<noteq> []" "mode_ok AfterHead ts \<longleftrightarrow> ts \<noteq> []" "mode_ok BeforeHead ts \<longleftrightarrow> ts \<noteq> []"
  "mode_ok InTable ts \<longleftrightarrow> chars ''table'' \<in> set ts" "mode_ok InCaption ts \<longleftrightarrow> chars ''table'' \<in> set ts"
  "mode_ok InColumnGroup ts \<longleftrightarrow> chars ''table'' \<in> set ts"
  "mode_ok InTableBody ts \<longleftrightarrow> (\<exists>t\<in>table_sections. t \<in> set ts)"
  "mode_ok InRow ts \<longleftrightarrow> chars ''tr'' \<in> set ts" "mode_ok InCell ts \<longleftrightarrow> chars ''tr'' \<in> set ts"
  by (auto simp: mode_ok_def)

section \<open>The order of the formatting elements\<close>

fun afe_ids :: "afe_entry list \<Rightarrow> node_id list" where
  "afe_ids [] = []"
| "afe_ids (Marker # es) = afe_ids es"
| "afe_ids (Formatting (i, _, _) # es) = i # afe_ids es"

lemma afe_ids_append [simp]: "afe_ids (xs @ ys) = afe_ids xs @ afe_ids ys"
  by (induction xs rule: afe_ids.induct) simp_all

lemma afe_ids_entry: "i \<in> set (afe_ids es) \<longleftrightarrow> (\<exists>t a. Formatting (i, t, a) \<in> set es)"
  by (induction es rule: afe_ids.induct) auto

lemma is_entry_of_iff: "is_entry_of i e \<longleftrightarrow> (\<exists>t a. e = Formatting (i, t, a))"
  by (auto simp: is_entry_of_def split: afe_entry.splits)

lemma is_entry_of_ids: "(\<exists>e\<in>set es. is_entry_of i e) \<longleftrightarrow> i \<in> set (afe_ids es)"
  by (auto simp: is_entry_of_iff afe_ids_entry)

lemma afe_ids_subseq: "subseq es es' \<Longrightarrow> subseq (afe_ids es) (afe_ids es')"
proof (induction rule: list_emb.induct)
  case (list_emb_Cons xs ys y)
  then show ?case by (cases y rule: afe_entry.exhaust) auto
next
  case (list_emb_Cons2 x y xs ys)
  then show ?case by (cases y rule: afe_entry.exhaust) auto
qed simp

text \<open>Formatting elements that are open appear in the list in the order of the stack.\<close>

definition in_stack_order :: "node_id list \<Rightarrow> node_id list \<Rightarrow> bool" where
  "in_stack_order I S \<longleftrightarrow> subseq (filter (\<lambda>i. i \<in> set S) I) S"

lemma subseq_distinct_filter:
  assumes "subseq S' S" "distinct S"
  shows "S' = filter (\<lambda>i. i \<in> set S') S"
  using assms
proof (induction rule: list_emb.induct)
  case (list_emb_Cons xs ys y)
  then have "y \<notin> set xs" by (auto dest: list_emb_set)
  with list_emb_Cons show ?case by simp
next
  case (list_emb_Cons2 x y xs ys)
  then have "filter (\<lambda>i. i = y \<or> i \<in> set xs) ys = filter (\<lambda>i. i \<in> set xs) ys"
    by (intro filter_cong) auto
  with list_emb_Cons2 show ?case by simp
qed simp

lemma subseq_prefix [simp]: "subseq xs (xs @ ys)"
  by (induction xs) simp_all

lemma subseq_Cons_self [simp]: "subseq xs (x # xs)"
  by (rule list_emb_Cons) simp

lemma subseq_remove [simp]: "subseq (xs @ ys) (xs @ zs @ ys)"
  by (simp add: list_emb_append_mono list_emb_append2)

lemma subseq_distinct: "subseq xs ys \<Longrightarrow> distinct ys \<Longrightarrow> distinct xs"
  by (metis subseq_distinct_filter distinct_filter)

lemma in_stack_order_mono:
  assumes "in_stack_order I S" "subseq I' I" "subseq S' S" "distinct S"
  shows "in_stack_order I' S'"
proof -
  have sub: "set S' \<subseteq> set S" using assms(3) by (auto dest: list_emb_set)
  have "subseq (filter (\<lambda>i. i \<in> set S') I') (filter (\<lambda>i. i \<in> set S') I)"
    by (rule subseq_filter [OF assms(2)])
  also have "filter (\<lambda>i. i \<in> set S') I = filter (\<lambda>i. i \<in> set S') (filter (\<lambda>i. i \<in> set S) I)"
    using sub by (auto intro!: filter_cong)
  also have "subseq \<dots> (filter (\<lambda>i. i \<in> set S') S)"
    by (rule subseq_filter [OF assms(1) [unfolded in_stack_order_def]])
  also have "filter (\<lambda>i. i \<in> set S') S = S'"
    using subseq_distinct_filter [OF assms(3,4)] by simp
  finally show ?thesis by (simp add: in_stack_order_def)
qed

lemma in_stack_order_append:
  assumes "in_stack_order I1 S1" "in_stack_order I2 S2"
    and "set I1 \<inter> set S2 = {}" "set I2 \<inter> set S1 = {}"
  shows "in_stack_order (I1 @ I2) (S1 @ S2)"
proof -
  have "filter (\<lambda>i. i \<in> set (S1 @ S2)) I1 = filter (\<lambda>i. i \<in> set S1) I1"
    "filter (\<lambda>i. i \<in> set (S1 @ S2)) I2 = filter (\<lambda>i. i \<in> set S2) I2"
    using assms(3,4) by (auto intro!: filter_cong)
  with assms(1,2) show ?thesis by (simp add: in_stack_order_def list_emb_append_mono)
qed

lemma in_stack_order_simps [simp]: "in_stack_order [] S" "in_stack_order I []" "in_stack_order [n] [n]"
  by (simp_all add: in_stack_order_def)

lemma in_stack_order_split:
  assumes "in_stack_order (I1 @ x # I2) (S1 @ x # S2)"
    and d: "distinct (I1 @ x # I2)" "distinct (S1 @ x # S2)"
  shows "in_stack_order I1 S1" "in_stack_order I2 S2" "set I1 \<inter> set S2 = {}" "set I2 \<inter> set S1 = {}"
proof -
  define K1 K2 where K: "K1 = filter (\<lambda>i. i \<in> set (S1 @ x # S2)) I1"
    "K2 = filter (\<lambda>i. i \<in> set (S1 @ x # S2)) I2"
  define Q where "Q = (\<lambda>i. i \<in> set (K1 @ x # K2))"
  have "subseq (K1 @ x # K2) (S1 @ x # S2)" using assms(1) by (simp add: in_stack_order_def K)
  then have "filter Q (S1 @ x # S2) = K1 @ x # K2"
    unfolding Q_def by (rule subseq_distinct_filter [OF _ d(2), symmetric])
  moreover have "Q x" by (simp add: Q_def)
  ultimately have "K1 @ x # K2 = filter Q S1 @ x # filter Q S2" by simp
  moreover have "x \<notin> set K1" "x \<notin> set (filter Q S1)" using d by (auto simp: K)
  ultimately have eq: "K1 = filter Q S1" "K2 = filter Q S2"
    using append_Cons_eq_iff [of x K1 K2 "filter Q S1" "filter Q S2"] d by (auto simp: K)
  have "set K1 \<subseteq> set S1" "set K2 \<subseteq> set S2" by (auto simp: eq)
  then show disj: "set I1 \<inter> set S2 = {}" "set I2 \<inter> set S1 = {}" using d(2) by (auto simp: K)
  have "filter (\<lambda>i. i \<in> set S1) I1 = K1" "filter (\<lambda>i. i \<in> set S2) I2 = K2"
    using disj d(1) by (auto simp: K intro!: filter_cong)
  then show "in_stack_order I1 S1" "in_stack_order I2 S2"
    by (simp_all add: in_stack_order_def eq subseq_filter_left)
qed

text \<open>An element that is opened, and one that takes the place of another in both lists.\<close>

lemma in_stack_order_open:
  assumes "in_stack_order (I1 @ I2) S" "set I2 \<inter> set S = {}" "n \<notin> set I1" "n \<notin> set I2"
  shows "in_stack_order (I1 @ n # I2) (S @ [n])"
proof -
  have "filter (\<lambda>i. i \<in> set S) I2 = []" "filter (\<lambda>i. i = n \<or> i \<in> set S) I2 = []"
    using assms by (auto simp: filter_empty_conv)
  moreover have "filter (\<lambda>i. i = n \<or> i \<in> set S) I1 = filter (\<lambda>i. i \<in> set S) I1"
    using assms(3) by (auto intro!: filter_cong)
  ultimately show ?thesis
    using assms(1) by (simp add: in_stack_order_def list_emb_append_mono)
qed

lemma in_stack_order_rename:
  assumes "in_stack_order (I1 @ x # I2) (S1 @ x # S2)" "distinct (I1 @ x # I2)" "distinct (S1 @ x # S2)"
    and "n \<notin> set (I1 @ I2)" "n \<notin> set (S1 @ S2)"
  shows "in_stack_order (I1 @ n # I2) (S1 @ n # S2)"
proof -
  note split = in_stack_order_split [OF assms(1-3)]
  have "in_stack_order (n # I2) (n # S2)"
    using in_stack_order_append [of "[n]" "[n]" I2 S2] split(2) assms(4,5) by simp
  then show ?thesis
    by (intro in_stack_order_append split) (use assms(4,5) split(3,4) in auto)
qed

end
