(* ===== verification/Html_Builder_Inv.thy ===== *)
theory Html_Builder_Inv
  imports Html_Stack
begin

text \<open>
  The invariant of the tree builder and its primitives: the document is well formed, the open
  elements are attached elements none of which lies below a later one, the list of active
  formatting elements follows the order of the stack, and the tags on the stack obey the grammar.
\<close>

section \<open>The document as a relation\<close>

text \<open>\<open>up d\<close> relates a node to its parent.\<close>

definition up :: "document \<Rightarrow> (node_id \<times> node_id) set" where
  "up d = parent_rel (nodes d)"

definition elem_tag :: "document \<Rightarrow> node_id \<Rightarrow> rstring option" where
  "elem_tag d i =
     (case nodes d i of
        Some r \<Rightarrow> (case r_data r of Element t _ \<Rightarrow> Some t | _ \<Rightarrow> None)
      | None \<Rightarrow> None)"

definition root_ok :: "document \<Rightarrow> bool" where
  "root_ok d \<longleftrightarrow> (\<exists>r. doc_root d = Some r \<and> nodes d r \<noteq> None)"

lemma elem_tag_alive: "elem_tag d i = Some t \<Longrightarrow> nodes d i \<noteq> None"
  by (cases "nodes d i") (simp_all add: elem_tag_def)

lemma up_in_dom:
  assumes "wf_document d" "(x, y) \<in> up d"
  shows "nodes d x \<noteq> None" "nodes d y \<noteq> None"
  using assms kids_in_dom by (auto simp: wf_document_def up_def parent_rel_kids)

lemma up_single: "(x, y) \<in> up d \<Longrightarrow> (x, z) \<in> up d \<Longrightarrow> y = z"
  by (auto simp: up_def dest: parent_rel_single)

lemma up_parent: "nodes d x = Some r \<Longrightarrow> (x, p) \<in> up d \<longleftrightarrow> r_parent r = Some p"
  by (simp add: up_def parent_rel_def)

lemma parent_None_iff: "nodes d x = Some r \<Longrightarrow> r_parent r = None \<longleftrightarrow> x \<notin> Domain (up d)"
  by (cases "r_parent r") (auto simp: up_parent)

lemma same_content_elem_tag:
  assumes "same_content d d'"
  shows "elem_tag d' = elem_tag d" "root_ok d' = root_ok d" "next_node_id d' = next_node_id d"
    "(nodes d' i = None) = (nodes d i = None)"
proof -
  have c: "map_option r_data (nodes d' x) = map_option r_data (nodes d x)" for x
    using assms by (simp add: same_content_def)
  have "elem_tag d' x = elem_tag d x" for x
    using c [of x] by (cases "nodes d x"; cases "nodes d' x") (auto simp: elem_tag_def)
  then show "elem_tag d' = elem_tag d" by auto
  show alive: "(nodes d' i = None) = (nodes d i = None)" for i
    using c [of i] by (metis option.map_disc_iff)
  show "root_ok d' = root_ok d" using assms alive by (simp add: root_ok_def same_content_def)
  show "next_node_id d' = next_node_id d" using assms by (simp add: same_content_def next_node_id_def)
qed

section \<open>The tree operations on the relation\<close>

lemma up_kids: "represents d kids \<Longrightarrow> (c, p) \<in> up d \<longleftrightarrow> c \<in> set (kids p)"
  by (simp add: up_def parent_rel_kids)

lemma create_up:
  assumes "wf_document d" "unat (next_node_id d) + 1 < 2 ^ 64" "create_node d dat = (i, d')"
  shows "wf_document d'" "up d' = up d" "nodes d i = None" "nodes d' = (nodes d)(i \<mapsto> fresh_record dat)"
    "unat (next_node_id d') = unat (next_node_id d) + 1" "doc_root d' = doc_root d"
proof -
  obtain kids where R: "represents d kids" using assms(1) by (auto simp: wf_document_def)
  note spec = create_node_spec [OF R assms(2,3)]
  show "wf_document d'" "nodes d i = None" "nodes d' = (nodes d)(i \<mapsto> fresh_record dat)" "doc_root d' = doc_root d"
    using spec by (auto simp: wf_document_def)
  show "up d' = up d" using up_kids [OF R] up_kids [OF spec(6)] by auto
  show "unat (next_node_id d') = unat (next_node_id d) + 1"
    using spec(4) assms(2) by (simp add: unat_plus_1_no_wrap)
qed

lemma attach_up:
  assumes "wf_document d" "nodes d chd \<noteq> None" "chd \<notin> Domain (up d)" "nodes d par \<noteq> None"
    and "(par, chd) \<notin> (up d)\<^sup>*" "\<And>r. ref = Some r \<Longrightarrow> (r, par) \<in> up d"
  shows "\<exists>d'. insert_before d par chd ref = Inr d' \<and> wf_document d' \<and> same_content d d' \<and>
     up d' = insert (chd, par) (up d)"
proof -
  obtain kids where R: "represents d kids" using assms(1) by (auto simp: wf_document_def)
  obtain c p where c: "nodes d chd = Some c" "r_parent c = None" "nodes d par = Some p"
    using assms(2-4) by (auto simp: parent_None_iff)
  have "\<exists>xs ys d'. kids par = xs @ ys \<and> insert_before d par chd ref = Inr d' \<and>
      represents d' (kids(par := xs @ chd # ys)) \<and> same_content d d'"
  proof (cases ref)
    case None
    with append_child_spec [OF R c] assms(5) show ?thesis
      by (intro exI [of _ "kids par"] exI [of _ "[]"]) (simp add: insert_before_def up_def)
  next
    case (Some r)
    then have "r \<in> set (kids par)" using assms(6) up_kids [OF R] by simp
    then obtain xs ys where ks: "kids par = xs @ r # ys" by (meson split_list)
    from insert_before_spec [OF R c(1,2) ks] assms(5) Some ks show ?thesis
      by (intro exI [of _ xs] exI [of _ "r # ys"]) (simp add: up_def)
  qed
  then obtain xs ys d' where ks: "kids par = xs @ ys" and d': "insert_before d par chd ref = Inr d'"
    "represents d' (kids(par := xs @ chd # ys))" "same_content d d'" by blast
  have "(x, y) \<in> up d' \<longleftrightarrow> (x, y) \<in> insert (chd, par) (up d)" for x y
    using ks by (auto simp: up_kids [OF R] up_kids [OF d'(2)])
  with d' show ?thesis by (auto simp: wf_document_def)
qed

lemma append_up:
  assumes "wf_document d" "nodes d chd \<noteq> None" "chd \<notin> Domain (up d)" "nodes d par \<noteq> None"
    and "(par, chd) \<notin> (up d)\<^sup>*"
  shows "\<exists>d'. append_child d par chd = Inr d' \<and> wf_document d' \<and> same_content d d' \<and>
     up d' = insert (chd, par) (up d)"
  using attach_up [OF assms, of None] by (simp add: insert_before_def)

lemma detach_up:
  assumes "wf_document d" "nodes d i \<noteq> None"
  shows "\<exists>d'. detach d i = Inr d' \<and> wf_document d' \<and> same_content d d' \<and>
     up d' = {(c, p). (c, p) \<in> up d \<and> c \<noteq> i}"
proof -
  obtain kids r where R: "represents d kids" and r: "nodes d i = Some r"
    using assms by (auto simp: wf_document_def)
  obtain d' where d': "detach d i = Inr d'" "represents d' (\<lambda>n. remove1 i (kids n))" "same_content d d'"
    using detach_spec [OF R r] by blast
  have "(c, p) \<in> up d' \<longleftrightarrow> (c, p) \<in> up d \<and> c \<noteq> i" for c p
    using representsD(3) [OF R, of p] by (auto simp: up_kids [OF R] up_kids [OF d'(2)])
  with d' show ?thesis by (auto simp: wf_document_def)
qed

lemma data_mut_up:
  assumes "wf_document d" "nodes d i = Some r"
  shows "\<exists>d'. data_mut d i f = Inr d' \<and> wf_document d' \<and> up d' = up d \<and>
     nodes d' = (nodes d)(i \<mapsto> r\<lparr>r_data := f (r_data r)\<rparr>) \<and> next_node_id d' = next_node_id d \<and>
     doc_root d' = doc_root d"
proof -
  obtain kids where R: "represents d kids" using assms(1) by (auto simp: wf_document_def)
  let ?d = "d\<lparr>nodes := (nodes d)(i \<mapsto> r\<lparr>r_data := f (r_data r)\<rparr>)\<rparr>"
  have m: "data_mut d i f = Inr ?d"
    using assms(2) by (simp add: data_mut_def update_node_def node_at_def)
  note R' = data_mut_represents [OF R m]
  have "up ?d = up d" using up_kids [OF R] up_kids [OF R'] by auto
  with m R' show ?thesis by (auto simp: wf_document_def next_node_id_def)
qed

lemma acyclic_up: "wf_document d \<Longrightarrow> acyclic (up d)"
  by (auto simp: wf_document_def up_def dest: representsD(2))

lemma links_alive:
  assumes "wf_document d" "nodes d i = Some r"
  shows "r_last_child r = Some j \<Longrightarrow> nodes d j \<noteq> None" "r_prev_sibling r = Some j \<Longrightarrow> nodes d j \<noteq> None"
proof -
  obtain kids where R: "represents d kids" using assms(1) by (auto simp: wf_document_def)
  note ok = representsD(6) [OF R assms(2)]
  show "nodes d j \<noteq> None" if "r_last_child r = Some j"
    using ok that kids_in_dom(1) [OF R, of j i] last_opt_Some_in [of "kids i" j] by (simp add: node_ok_def)
  show "nodes d j \<noteq> None" if j: "r_prev_sibling r = Some j"
  proof (cases "r_parent r")
    case (Some p)
    with ok obtain xs ys where ks: "kids p = xs @ i # ys" by (auto simp: node_ok_def dest: split_list)
    then have "last_opt None xs = Some j" using representsD(4) [OF R, of p] assms(2) j by auto
    then show ?thesis using kids_in_dom(1) [OF R, of j p] ks last_opt_Some_in [of xs j] by simp
  qed (use ok j in \<open>auto simp: node_ok_def\<close>)
qed

section \<open>The invariant\<close>

text \<open>\<open>grows\<close>: elements stay elements with their tag; \<open>extends\<close>: besides, no node is moved.\<close>

definition grows :: "document \<Rightarrow> document \<Rightarrow> bool" where
  "grows d d' \<longleftrightarrow> (\<forall>i. nodes d i \<noteq> None \<longrightarrow> nodes d' i \<noteq> None) \<and>
     (\<forall>i t. elem_tag d i = Some t \<longrightarrow> elem_tag d' i = Some t) \<and> doc_root d' = doc_root d"

definition extends :: "document \<Rightarrow> document \<Rightarrow> bool" where
  "extends d d' \<longleftrightarrow> grows d d' \<and>
     (\<forall>x p. nodes d x \<noteq> None \<longrightarrow> (x, p) \<in> up d' \<longleftrightarrow> (x, p) \<in> up d)"

definition tags :: "document \<Rightarrow> node_id list \<Rightarrow> rstring list" where
  "tags d S = map (\<lambda>i. the (elem_tag d i)) S"

definition stack_inv :: "document \<Rightarrow> node_id list \<Rightarrow> bool" where
  "stack_inv d S \<longleftrightarrow> (\<forall>i\<in>set S. elem_tag d i \<noteq> None \<and> i \<in> Domain (up d)) \<and>
     sorted_wrt (\<lambda>x y. (x, y) \<notin> (up d)\<^sup>*) S"

definition afe_inv :: "document \<Rightarrow> afe_entry list \<Rightarrow> node_id list \<Rightarrow> bool" where
  "afe_inv d A S \<longleftrightarrow> distinct (afe_ids A) \<and>
     (\<forall>i t a. Formatting (i, t, a) \<in> set A \<longrightarrow> elem_tag d i = Some t \<and> t \<in> set FORMATTING_ELEMENTS) \<and>
     in_stack_order (afe_ids A) S"

definition good :: "tree_builder \<Rightarrow> bool" where
  "good tb \<longleftrightarrow> wf_document (document tb) \<and> root_ok (document tb) \<and>
     stack_inv (document tb) (open_elements tb) \<and>
     afe_inv (document tb) (active_formatting tb) (open_elements tb) \<and>
     wf_stack (tags (document tb) (open_elements tb)) \<and>
     (\<forall>h. head_element tb = Some h \<longrightarrow> elem_tag (document tb) h = Some (chars ''head'')) \<and>
     (\<forall>f. form_element tb = Some f \<longrightarrow> elem_tag (document tb) f = Some (chars ''form''))"

abbreviation stack_tags :: "tree_builder \<Rightarrow> rstring list" where
  "stack_tags tb \<equiv> tags (document tb) (open_elements tb)"

abbreviation ids_used :: "tree_builder \<Rightarrow> nat" where
  "ids_used tb \<equiv> unat (next_node_id (document tb))"

text \<open>
  \<open>keeps k l tb tb'\<close>: the invariant holds in \<open>tb'\<close>, the mode and the tokenizer are those of \<open>tb\<close>,
  every anchor that was on the stack still is, at most \<open>k\<close> identifiers were handed out, and the
  list of active formatting elements grew by at most \<open>l\<close>.
\<close>

lemma grows_refl [simp]: "grows d d"
  by (simp add: grows_def)

lemma grows_trans: "grows d d' \<Longrightarrow> grows d' d'' \<Longrightarrow> grows d d''"
  by (simp add: grows_def)

definition keeps :: "nat \<Rightarrow> nat \<Rightarrow> tree_builder \<Rightarrow> tree_builder \<Rightarrow> bool" where
  "keeps k l tb tb' \<longleftrightarrow> good tb' \<and> grows (document tb) (document tb') \<and> mode tb' = mode tb \<and> original_mode tb' = original_mode tb \<and>
     tokenizer tb' = tokenizer tb \<and> anchors \<inter> set (stack_tags tb) \<subseteq> set (stack_tags tb') \<and>
     ids_used tb' \<le> ids_used tb + k \<and> length (active_formatting tb') \<le> length (active_formatting tb) + l"

lemma keeps_refl: "good tb \<Longrightarrow> keeps k l tb tb"
  by (simp add: keeps_def)

lemma keeps_trans:
  "keeps k l tb tb1 \<Longrightarrow> keeps k' l' tb1 tb2 \<Longrightarrow> k + k' \<le> m \<Longrightarrow> l + l' \<le> n \<Longrightarrow> keeps m n tb tb2"
  unfolding keeps_def by (elim conjE) (intro conjI; (erule (1) grows_trans | blast | simp))

lemma keeps_mono: "keeps k l tb tb' \<Longrightarrow> k \<le> k' \<Longrightarrow> l \<le> l' \<Longrightarrow> keeps k' l' tb tb'"
  unfolding keeps_def by (elim conjE) (intro conjI; (assumption | linarith))

lemma extends_grows: "extends d d' \<Longrightarrow> grows d d'"
  by (simp add: extends_def)

lemma extends_refl [simp]: "extends d d"
  by (simp add: extends_def grows_def)

lemma extends_trans: "extends d d' \<Longrightarrow> extends d' d'' \<Longrightarrow> extends d d''"
  by (simp add: extends_def grows_def)

lemma extends_star:
  assumes "wf_document d" "extends d d'" "nodes d x \<noteq> None"
  shows "(x, y) \<in> (up d')\<^sup>* \<longleftrightarrow> (x, y) \<in> (up d)\<^sup>*"
proof
  assume "(x, y) \<in> (up d')\<^sup>*"
  then have "nodes d y \<noteq> None \<and> (x, y) \<in> (up d)\<^sup>*"
  proof (induction rule: rtrancl_induct)
    case (step y z)
    then have "(y, z) \<in> up d" using assms(2) by (simp add: extends_def)
    with step.IH up_in_dom(2) [OF assms(1)] show ?case by (auto intro: rtrancl_into_rtrancl)
  qed (use assms(3) in simp)
  then show "(x, y) \<in> (up d)\<^sup>*" by simp
next
  assume "(x, y) \<in> (up d)\<^sup>*"
  then show "(x, y) \<in> (up d')\<^sup>*"
  proof (induction rule: rtrancl_induct)
    case (step y z)
    then have "(y, z) \<in> up d'"
      using assms(2) up_in_dom(1) [OF assms(1)] by (auto simp: extends_def)
    with step.IH show ?case by (rule rtrancl_into_rtrancl)
  qed simp
qed

lemma stack_inv_alive: "stack_inv d S \<Longrightarrow> i \<in> set S \<Longrightarrow> \<exists>t. elem_tag d i = Some t \<and> nodes d i \<noteq> None"
  using elem_tag_alive by (auto simp: stack_inv_def)

lemma stack_inv_distinct: "stack_inv d S \<Longrightarrow> distinct S"
  unfolding stack_inv_def distinct_conv_nth sorted_wrt_iff_nth_less
  by (metis linorder_neqE_nat rtrancl.rtrancl_refl)

lemma sorted_wrt_subseq: "subseq xs ys \<Longrightarrow> sorted_wrt P ys \<Longrightarrow> sorted_wrt P xs"
  by (induction rule: list_emb.induct) (auto dest: list_emb_set)

lemma set_subseq: "subseq xs ys \<Longrightarrow> set xs \<subseteq> set ys"
  by (auto dest: list_emb_set)

lemma stack_inv_subseq: "stack_inv d S \<Longrightarrow> subseq S' S \<Longrightarrow> stack_inv d S'"
  unfolding stack_inv_def by (meson set_subseq sorted_wrt_subseq subsetD)

lemma tags_grows:
  assumes "grows d d'" "\<And>i. i \<in> set S \<Longrightarrow> elem_tag d i \<noteq> None"
  shows "tags d' S = tags d S"
proof -
  have "elem_tag d' i = elem_tag d i" if "i \<in> set S" for i
    using assms that by (fastforce simp: grows_def)
  then show ?thesis by (simp add: tags_def)
qed

lemma tags_simps [simp]:
  "tags d [] = []" "tags d (S @ S') = tags d S @ tags d S'" "tags d (i # S) = the (elem_tag d i) # tags d S"
  "length (tags d S) = length S" "tags d S = [] \<longleftrightarrow> S = []"
  by (simp_all add: tags_def)

lemma stack_inv_extends:
  assumes "wf_document d" "extends d d'" "stack_inv d S"
  shows "stack_inv d' S"
proof -
  have "(x, y) \<notin> (up d')\<^sup>*" if "(x, y) \<notin> (up d)\<^sup>*" "x \<in> set S" for x y
    using that stack_inv_alive [OF assms(3)] extends_star [OF assms(1,2)] by blast
  then have "sorted_wrt (\<lambda>x y. (x, y) \<notin> (up d')\<^sup>*) S"
    using assms(3) by (auto simp: stack_inv_def intro: sorted_wrt_mono_rel [rotated])
  moreover have "elem_tag d' i \<noteq> None \<and> i \<in> Domain (up d')" if "i \<in> set S" for i
  proof -
    obtain t p where "elem_tag d i = Some t" "nodes d i \<noteq> None" "(i, p) \<in> up d"
      using \<open>i \<in> set S\<close> assms(3) stack_inv_alive [OF assms(3), of i] by (auto simp: stack_inv_def)
    then have "elem_tag d' i = Some t" "(i, p) \<in> up d'"
      using assms(2) by (simp_all add: extends_def grows_def)
    then show ?thesis by auto
  qed
  ultimately show ?thesis by (simp add: stack_inv_def)
qed

lemma stack_inv_push:
  assumes "stack_inv d S" "elem_tag d n \<noteq> None" "n \<in> Domain (up d)" "n \<notin> set S" "n \<notin> Range (up d)"
  shows "stack_inv d (S @ [n])"
proof -
  have "(x, n) \<notin> (up d)\<^sup>*" if "x \<in> set S" for x
    using that assms(4,5) by (auto elim: rtranclE)
  with assms show ?thesis by (auto simp: stack_inv_def sorted_wrt_append)
qed

lemma afe_inv_grows: "afe_inv d A S \<Longrightarrow> grows d d' \<Longrightarrow> afe_inv d' A S"
  by (auto simp: afe_inv_def grows_def)

lemma afe_inv_subseq:
  assumes "afe_inv d A S" "subseq A' A" "subseq S' S" "distinct S"
  shows "afe_inv d A' S'"
proof -
  have "distinct (afe_ids A')"
    using assms(1,2) afe_ids_subseq subseq_distinct by (auto simp: afe_inv_def)
  moreover have "set A' \<subseteq> set A" using assms(2) by (rule set_subseq)
  ultimately show ?thesis
    using assms in_stack_order_mono afe_ids_subseq unfolding afe_inv_def by blast
qed

lemma afe_alive: "afe_inv d A S \<Longrightarrow> i \<in> set (afe_ids A) \<Longrightarrow> nodes d i \<noteq> None"
  by (auto simp: afe_inv_def afe_ids_entry dest: elem_tag_alive)

end
