(* ===== verification/Html_Builder_Ops.thy ===== *)
theory Html_Builder_Ops
  imports Html_Builder_Inv
begin

text \<open>
  The primitives of the tree builder return and keep the invariant: insertion of elements and
  text, scope checks, pops of the stack and the reconstruction of formatting elements.
\<close>

section \<open>Insertion\<close>

definition can_insert :: "tree_builder \<Rightarrow> bool" where
  "can_insert tb \<longleftrightarrow> wf_document (document tb) \<and> root_ok (document tb) \<and>
     (\<forall>i\<in>set (open_elements tb). elem_tag (document tb) i \<noteq> None)"

lemma good_can_insert: "good tb \<Longrightarrow> can_insert tb"
  by (auto simp: good_def can_insert_def stack_inv_def)

lemma tag_of_alive: "nodes (document tb) i \<noteq> None \<Longrightarrow> tag_of tb i = Inr (elem_tag (document tb) i)"
  by (auto simp: tag_of_def data_def node_at_def elem_tag_def split: node_data.splits)

lemma has_tag_alive:
  "nodes (document tb) i \<noteq> None \<Longrightarrow>
   has_tag tb ts i = Inr (case elem_tag (document tb) i of Some t \<Rightarrow> t \<in> set ts | None \<Rightarrow> False)"
  by (simp add: has_tag_def tag_of_alive)

lemma tag_of_elem: "elem_tag (document tb) i = Some t \<Longrightarrow> tag_of tb i = Inr (Some t)"
  by (simp add: tag_of_alive elem_tag_alive)

lemma has_tag_elem: "elem_tag (document tb) i = Some t \<Longrightarrow> has_tag tb ts i = Inr (t \<in> set ts)"
  by (simp add: has_tag_def tag_of_elem)

lemma current_node_ok:
  assumes "can_insert tb"
  shows "ok_res (current_node tb) (\<lambda>c. nodes (document tb) c \<noteq> None \<and>
     (if open_elements tb = [] then doc_root (document tb) = Some c else c = last (open_elements tb)))"
proof (cases "open_elements tb = []")
  case False
  then have "elem_tag (document tb) (last (open_elements tb)) \<noteq> None"
    using assms by (simp add: can_insert_def)
  with False show ?thesis
    by (auto simp: current_node_def last_opt_def dest: elem_tag_alive)
qed (use assms in \<open>auto simp: current_node_def root_def root_ok_def can_insert_def\<close>)

lemma find_res_total:
  "(\<And>x. x \<in> set xs \<Longrightarrow> f x = Inr (P x)) \<Longrightarrow> find_res f xs = Inr (List.find P xs)"
  by (induction xs) auto

text \<open>Where a node may be attached: the parent, and the child it goes before, if any.\<close>

definition place_ok :: "tree_builder \<Rightarrow> node_id \<times> node_id option \<Rightarrow> bool" where
  "place_ok tb = (\<lambda>(par, ref). nodes (document tb) par \<noteq> None \<and>
     (par \<in> set (open_elements tb) \<or> doc_root (document tb) = Some par \<or> par \<in> Range (up (document tb))) \<and>
     (\<forall>r. ref = Some r \<longrightarrow> (r, par) \<in> up (document tb)))"

lemma current_place_ok:
  "can_insert tb \<Longrightarrow> ok_res (res_bind (current_node tb) (\<lambda>c. Inr (c, None))) (place_ok tb)"
  by (rule ok_res_bind [OF current_node_ok]) (auto simp: place_ok_def split: if_splits)

lemma foster_parent_target_ok:
  assumes "can_insert tb"
  shows "ok_res (foster_parent_target tb) (place_ok tb)"
proof -
  let ?P = "\<lambda>i. elem_tag (document tb) i = Some (chars ''table'')"
  have "find_res (has_tag tb [chars ''table'']) (rev (open_elements tb)) =
      Inr (List.find ?P (rev (open_elements tb)))"
    using assms by (intro find_res_total) (auto simp: has_tag_elem can_insert_def)
  moreover have "\<exists>r. nodes (document tb) i = Some r"
    if "List.find ?P (rev (open_elements tb)) = Some i" for i
    using that elem_tag_alive by (fastforce simp: find_Some_iff)
  moreover have "place_ok tb (par, Some i)" if "nodes (document tb) i = Some r" "r_parent r = Some par" for i r par
  proof -
    have "(i, par) \<in> up (document tb)" using that by (simp add: up_parent)
    then show ?thesis using up_in_dom(2) assms by (auto simp: place_ok_def can_insert_def)
  qed
  ultimately show ?thesis
    using current_place_ok [OF assms]
    by (fastforce simp: foster_parent_target_def parent_def node_at_def split: option.splits)
qed

lemma uses_foster_ok: "can_insert tb \<Longrightarrow> ok_res (uses_foster tb) (\<lambda>_. True)"
  using current_node_ok [of tb]
  by (auto simp: uses_foster_def current_node_needs_foster_def is_table_context_def ok_res_def has_tag_alive)

lemma insert_node_place:
  assumes "can_insert tb"
  shows "\<exists>par ref. place_ok tb (par, ref) \<and>
     insert_node tb i = map_sum id (\<lambda>d. tb\<lparr>document := d\<rparr>) (in_dom (insert_before (document tb) par i ref))"
proof -
  have ap: "append_child d c i = insert_before d c i None" for d c
    by (simp add: insert_before_def)
  have m: "res_bind r (\<lambda>d. Inr (tb\<lparr>document := d\<rparr>)) = map_sum id (\<lambda>d. tb\<lparr>document := d\<rparr>) r" for r :: "document tb_res"
    by (cases r) simp_all
  obtain b where b: "uses_foster tb = Inr b" using uses_foster_ok [OF assms] by (auto elim: ok_resE)
  show ?thesis
  proof (cases b)
    case True
    from foster_parent_target_ok [OF assms] obtain p where "foster_parent_target tb = Inr p" "place_ok tb p"
      by (rule ok_resE)
    with b True show ?thesis by (cases p) (auto simp: insert_node_def m)
  next
    case False
    obtain c where "current_node tb = Inr c" "place_ok tb (c, None)"
      using current_place_ok [OF assms] by (auto simp: ok_res_def res_bind_Inr_iff)
    with b False show ?thesis by (auto simp: insert_node_def m ap)
  qed
qed

lemma attach_leaf:
  assumes "can_insert tb" "place_ok tb (par, ref)" "i \<notin> set (open_elements tb)"
    and "wf_document d" "extends (document tb) d" "up d = up (document tb)" "nodes d i \<noteq> None"
    and "i \<notin> Range (up d)" "i \<notin> Domain (up d)" "doc_root d \<noteq> Some i"
  shows "\<exists>d'. insert_before d par i ref = Inr d' \<and> wf_document d' \<and> same_content d d' \<and>
     up d' = insert (i, par) (up d)"
proof (rule attach_up)
  have "par \<noteq> i" using assms(2,3,5,6,8,10) by (auto simp: place_ok_def extends_def grows_def)
  then show "(par, i) \<notin> (up d)\<^sup>*" using assms(8) by (auto elim: rtranclE)
  show "nodes d par \<noteq> None" using assms(2,5) by (auto simp: place_ok_def extends_def grows_def)
qed (use assms in \<open>auto simp: place_ok_def\<close>)

text \<open>A new node, before and after it is attached.\<close>

lemma create_extends:
  assumes "can_insert tb" "ids_used tb + 1 < 2 ^ 64" "create_node (document tb) dat = (i, d)"
  shows "extends (document tb) d" "i \<notin> set (open_elements tb)" "doc_root d \<noteq> Some i" "nodes d i \<noteq> None"
    "i \<notin> Range (up d)" "i \<notin> Domain (up d)" "elem_tag d i = (case dat of Element t _ \<Rightarrow> Some t | _ \<Rightarrow> None)"
proof -
  have wf: "wf_document (document tb)" using assms(1) by (simp add: can_insert_def)
  note c = create_up [OF wf assms(2,3)]
  show "extends (document tb) d"
    using c by (auto simp: extends_def grows_def elem_tag_def)
  show "i \<notin> set (open_elements tb)"
    using assms(1) c(3) elem_tag_alive by (force simp: can_insert_def)
  show "doc_root d \<noteq> Some i" using assms(1) c by (auto simp: can_insert_def root_ok_def)
  show "nodes d i \<noteq> None" "elem_tag d i = (case dat of Element t _ \<Rightarrow> Some t | _ \<Rightarrow> None)"
    by (simp_all add: c elem_tag_def fresh_record_def split: node_data.splits)
  show "i \<notin> Range (up d)" "i \<notin> Domain (up d)"
    unfolding c(2) using up_in_dom [OF wf] c(3) by blast+
qed

definition inserted :: "document \<Rightarrow> rstring \<Rightarrow> node_id \<Rightarrow> document \<Rightarrow> bool" where
  "inserted d name i d' \<longleftrightarrow> wf_document d' \<and> extends d d' \<and> nodes d i = None \<and>
     elem_tag d' i = Some name \<and> i \<in> Domain (up d') \<and> i \<notin> Range (up d') \<and>
     unat (next_node_id d') = unat (next_node_id d) + 1"

lemma extends_attach:
  assumes "extends d d1" "same_content d1 d2" "up d2 = insert (i, par) (up d1)" "nodes d i = None"
  shows "extends d d2"
proof -
  have "doc_root d2 = doc_root d1" using assms(2) by (simp add: same_content_def)
  then show ?thesis
    using assms(1,3,4) same_content_elem_tag(1,4) [OF assms(2)]
    by (auto simp: extends_def grows_def)
qed

lemma insert_element_ok:
  assumes "can_insert tb" "ids_used tb + 1 < 2 ^ 64"
  shows "ok_res (insert_element tb name as) (\<lambda>(i, tb'). \<exists>d'. inserted (document tb) name i d' \<and>
     tb' = tb\<lparr>document := d',
              open_elements := open_elements tb @ (if name \<in> set VOID_ELEMENTS then [] else [i])\<rparr>)"
proof -
  obtain i d where c: "create_node (document tb) (Element name as) = (i, d)" by fastforce
  note new = create_extends [OF assms c]
  have wf: "wf_document (document tb)" using assms(1) by (simp add: can_insert_def)
  note cu = create_up [OF wf assms(2) c]
  let ?tb = "tb\<lparr>document := d\<rparr>"
  have ins: "can_insert ?tb"
    using assms(1) new(1) cu(1) by (fastforce simp: can_insert_def extends_def grows_def root_ok_def)
  then obtain par ref where p: "place_ok ?tb (par, ref)"
    "insert_node ?tb i = map_sum id (\<lambda>d. ?tb\<lparr>document := d\<rparr>) (in_dom (insert_before d par i ref))"
    using insert_node_place [OF ins, of i] by auto
  obtain d' where d': "insert_before d par i ref = Inr d'" "wf_document d'" "same_content d d'"
    "up d' = insert (i, par) (up d)"
    using attach_leaf [OF ins p(1), of i d] new cu(1) by auto
  have "par \<noteq> i"
    using acyclic_up [OF d'(2)] by (auto simp: d'(4) acyclic_def)
  have "extends (document tb) d'" by (rule extends_attach [OF new(1) d'(3,4) cu(3)])
  moreover have "elem_tag d' i = Some name" "unat (next_node_id d') = ids_used tb + 1"
    using same_content_elem_tag [OF d'(3)] new(7) cu(5) by simp_all
  ultimately have "inserted (document tb) name i d'"
    using d' cu(3) new(5) \<open>par \<noteq> i\<close> by (auto simp: inserted_def)
  then show ?thesis by (auto simp: insert_element_def c p(2) d'(1))
qed

lemma mutate_text_extends:
  assumes "wf_document d" "nodes d i = Some r" "r_data r = node_data.Text s"
  shows "\<exists>d'. data_mut d i (\<lambda>_. node_data.Text s') = Inr d' \<and> wf_document d' \<and> extends d d' \<and>
     next_node_id d' = next_node_id d"
proof -
  obtain d' where d': "data_mut d i (\<lambda>_. node_data.Text s') = Inr d'" "wf_document d'" "up d' = up d"
    "nodes d' = (nodes d)(i \<mapsto> r\<lparr>r_data := node_data.Text s'\<rparr>)" "next_node_id d' = next_node_id d"
    "doc_root d' = doc_root d"
    using data_mut_up [OF assms(1,2), of "\<lambda>_. node_data.Text s'"] by blast
  then show ?thesis using assms(2,3) by (auto simp: extends_def grows_def elem_tag_def)
qed

lemma new_text_ok:
  assumes "can_insert tb" "ids_used tb + 1 < 2 ^ 64" "place_ok tb (par, ref)"
    and c: "create_node (document tb) (node_data.Text s) = (i, d)"
  shows "\<exists>d'. insert_before d par i ref = Inr d' \<and> wf_document d' \<and> extends (document tb) d' \<and>
     unat (next_node_id d') \<le> ids_used tb + 1"
proof -
  have wf: "wf_document (document tb)" using assms(1) by (simp add: can_insert_def)
  note cu = create_up [OF wf assms(2) c] and new = create_extends [OF assms(1,2) c]
  obtain d' where d': "insert_before d par i ref = Inr d'" "wf_document d'" "same_content d d'"
    "up d' = insert (i, par) (up d)"
    using attach_leaf [OF assms(1,3) new(2) cu(1) new(1) cu(2)] new by auto
  have "extends (document tb) d'" by (rule extends_attach [OF new(1) d'(3,4) cu(3)])
  moreover have "unat (next_node_id d') = ids_used tb + 1"
    using same_content_elem_tag(3) [OF d'(3)] cu(5) by simp
  ultimately show ?thesis using d' by simp
qed

lemma insert_text_ok:
  assumes "can_insert tb" "ids_used tb + 1 < 2 ^ 64"
  shows "ok_res (insert_text tb s) (\<lambda>tb'. \<exists>d'. wf_document d' \<and> extends (document tb) d' \<and>
     unat (next_node_id d') \<le> ids_used tb + 1 \<and> tb' = tb\<lparr>document := d'\<rparr>)"
proof (cases "s = []")
  case True
  have "tb = tb\<lparr>document := document tb\<rparr>" by simp
  with True assms(1) show ?thesis by (auto simp: insert_text_def can_insert_def)
next
  case False
  have wf: "wf_document (document tb)" using assms(1) by (simp add: can_insert_def)
  let ?d = "document tb"
  let ?pl = "\<lambda>f. if f then foster_parent_target tb else res_bind (current_node tb) (\<lambda>c. Inr (c, None))"
  have place: "ok_res (?pl f) (place_ok tb)" for f
    using foster_parent_target_ok [OF assms(1)] current_place_ok [OF assms(1)] by simp
  let ?prec = "\<lambda>par ref. if just_saw_dropped_comment_or_doctype tb then Inr None
     else case ref of Some r \<Rightarrow> in_dom (prev_sibling ?d r) | None \<Rightarrow> in_dom (last_child ?d par)"
  have prec: "ok_res (?prec par ref) (\<lambda>q. \<forall>i. q = Some i \<longrightarrow> nodes ?d i \<noteq> None)"
    if pl: "place_ok tb (par, ref)" for par ref
  proof -
    obtain p where p: "nodes ?d par = Some p" using pl by (auto simp: place_ok_def)
    have r: "\<exists>rr. nodes ?d r = Some rr" if "ref = Some r" for r
      using pl that up_in_dom(1) [OF wf] by (auto simp: place_ok_def)
    show ?thesis
      using p r links_alive [OF wf]
      by (fastforce simp: prev_sibling_def last_child_def node_at_def split: option.splits)
  qed
  let ?found = "\<lambda>q. case q of None \<Rightarrow> Inr None
     | Some i \<Rightarrow> res_bind (in_dom (data ?d i)) (\<lambda>dat.
         Inr (case dat of node_data.Text existing \<Rightarrow> Some (i, existing) | _ \<Rightarrow> None))"
  have found: "ok_res (?found q) (\<lambda>t. \<forall>i s. t = Some (i, s) \<longrightarrow>
      (\<exists>r. nodes ?d i = Some r \<and> r_data r = node_data.Text s))"
    if "\<forall>i. q = Some i \<longrightarrow> nodes ?d i \<noteq> None" for q
    using that by (cases q) (auto simp: data_def node_at_def split: node_data.splits)
  obtain f where f: "uses_foster tb = Inr f" using uses_foster_ok [OF assms(1)] by (rule ok_resE)
  obtain par ref where pl: "?pl f = Inr (par, ref)" "place_ok tb (par, ref)"
    using place [of f] by (auto elim!: ok_resE simp del: if_split)
  obtain q where q: "?prec par ref = Inr q" "\<forall>i. q = Some i \<longrightarrow> nodes ?d i \<noteq> None"
    using prec [OF pl(2)] by (rule ok_resE)
  obtain t where t: "?found q = Inr t"
    "\<forall>i s. t = Some (i, s) \<longrightarrow> (\<exists>r. nodes ?d i = Some r \<and> r_data r = node_data.Text s)"
    using found [OF q(2)] by (rule ok_resE)
  have eq: "insert_text tb s =
      (case t of
         Some (i, existing) \<Rightarrow>
           res_bind (in_dom (data_mut ?d i (\<lambda>_. node_data.Text (existing @ s)))) (\<lambda>d. Inr (tb\<lparr>document := d\<rparr>))
       | None \<Rightarrow>
           (let (i, d) = create_node ?d (node_data.Text s)
            in res_bind (in_dom (insert_before d par i ref)) (\<lambda>d. Inr (tb\<lparr>document := d\<rparr>))))"
    unfolding insert_text_def if_not_P [OF False] f res_bind_simps pl(1) prod.case q(1) t(1) ..
  show ?thesis
  proof (cases t)
    case None
    obtain i d where c: "create_node ?d (node_data.Text s) = (i, d)" by fastforce
    from new_text_ok [OF assms pl(2) c] show ?thesis by (auto simp: eq None c)
  next
    case (Some p)
    then obtain i e r where "p = (i, e)" "nodes ?d i = Some r" "r_data r = node_data.Text e"
      using t(2) by (cases p) auto
    with mutate_text_extends [OF wf this(2,3), of "e @ s"] show ?thesis by (fastforce simp: eq Some)
  qed
qed

section \<open>What an update keeps\<close>

lemma goodD:
  assumes "good tb"
  shows "wf_document (document tb)" "root_ok (document tb)"
    "stack_inv (document tb) (open_elements tb)"
    "afe_inv (document tb) (active_formatting tb) (open_elements tb)" "wf_stack (stack_tags tb)"
    "distinct (open_elements tb)"
  using assms stack_inv_distinct by (auto simp: good_def)

lemma good_stack: "good tb \<Longrightarrow> i \<in> set (open_elements tb) \<Longrightarrow> elem_tag (document tb) i = Some (the (elem_tag (document tb) i))"
  using stack_inv_alive by (fastforce simp: good_def)

lemma keeps_document:
  assumes "good tb" "wf_document d'" "extends (document tb) d'" "unat (next_node_id d') \<le> ids_used tb + k"
  shows "keeps k l tb (tb\<lparr>document := d'\<rparr>)" "stack_tags (tb\<lparr>document := d'\<rparr>) = stack_tags tb"
proof -
  have g: "grows (document tb) d'" using assms(3) by (rule extends_grows)
  show t: "stack_tags (tb\<lparr>document := d'\<rparr>) = stack_tags tb"
    using tags_grows [OF g, of "open_elements tb"] assms(1) by (simp add: good_def stack_inv_def)
  have "root_ok d'" using assms(1) g by (auto simp: good_def root_ok_def grows_def)
  moreover have "stack_inv d' (open_elements tb)"
    using stack_inv_extends [OF _ assms(3)] assms(1) by (simp add: good_def)
  moreover have "afe_inv d' (active_formatting tb) (open_elements tb)"
    using afe_inv_grows [OF _ g] assms(1) by (simp add: good_def)
  ultimately have "good (tb\<lparr>document := d'\<rparr>)"
    using assms(1,2) g t by (simp add: good_def grows_def)
  then show "keeps k l tb (tb\<lparr>document := d'\<rparr>)"
    using assms(4) t g by (simp add: keeps_def)
qed

lemma keeps_sub:
  assumes "good tb" "subseq S' (open_elements tb)" "subseq A' (active_formatting tb)"
    and "wf_stack (tags (document tb) S')"
  shows "good (tb\<lparr>open_elements := S', active_formatting := A'\<rparr>)"
    "anchors \<inter> set (stack_tags tb) \<subseteq> set (tags (document tb) S') \<Longrightarrow>
     keeps k l tb (tb\<lparr>open_elements := S', active_formatting := A'\<rparr>)"
proof -
  have "stack_inv (document tb) (open_elements tb)" using assms(1) by (simp add: good_def)
  then have "stack_inv (document tb) S'" "afe_inv (document tb) A' S'"
    using assms stack_inv_subseq afe_inv_subseq stack_inv_distinct by (auto simp: good_def)
  then show g: "good (tb\<lparr>open_elements := S', active_formatting := A'\<rparr>)"
    using assms(1,4) by (simp add: good_def)
  show "keeps k l tb (tb\<lparr>open_elements := S', active_formatting := A'\<rparr>)"
    if "anchors \<inter> set (stack_tags tb) \<subseteq> set (tags (document tb) S')"
    using g that list_emb_length [OF assms(3)] by (simp add: keeps_def)
qed

lemma keeps_pop:
  assumes "good tb" "open_elements tb = S1 @ S2"
  shows "good (tb\<lparr>open_elements := S1\<rparr>)"
    "anchors \<inter> set (tags (document tb) S2) \<subseteq> set (tags (document tb) S1) \<Longrightarrow>
     keeps k l tb (tb\<lparr>open_elements := S1\<rparr>)"
proof -
  have "wf_stack (tags (document tb) S1)" using assms by (auto simp: good_def intro: wf_stack_prefix)
  note sub = keeps_sub [OF assms(1) _ _ this, of "active_formatting tb"]
  show "good (tb\<lparr>open_elements := S1\<rparr>)" using sub(1) assms(2) by simp
  show "keeps k l tb (tb\<lparr>open_elements := S1\<rparr>)"
    if "anchors \<inter> set (tags (document tb) S2) \<subseteq> set (tags (document tb) S1)"
    using sub(2) [of k l] assms(2) that by (auto simp: inf_sup_distrib1)
qed

text \<open>Popping through an element that is no anchor, with no table above it.\<close>

lemma keeps_pop_through:
  assumes "good tb" "open_elements tb = S1 @ i # S2" "the (elem_tag (document tb) i) \<notin> anchors"
    and "chars ''table'' \<notin> set (tags (document tb) S2)"
  shows "keeps k l tb (tb\<lparr>open_elements := S1\<rparr>)"
proof (rule keeps_pop(2) [OF assms(1,2)])
  have "wf_stack (tags (document tb) S1 @ the (elem_tag (document tb) i) # tags (document tb) S2)"
    using assms(1,2) by (simp add: good_def)
  from anchors_below [OF this assms(3,4)]
  show "anchors \<inter> set (tags (document tb) (i # S2)) \<subseteq> set (tags (document tb) S1)" by auto
qed

lemma keeps_afe: "good tb \<Longrightarrow> subseq A' (active_formatting tb) \<Longrightarrow> keeps k l tb (tb\<lparr>active_formatting := A'\<rparr>)"
  using keeps_sub(2) [of tb "open_elements tb" A' k l] by (simp add: good_def)

text \<open>An element that was inserted and, unless it is void, opened.\<close>

definition opened :: "tree_builder \<Rightarrow> rstring \<Rightarrow> node_id \<Rightarrow> tree_builder \<Rightarrow> bool" where
  "opened tb name i tb' \<longleftrightarrow> keeps 1 0 tb tb' \<and> nodes (document tb) i = None \<and>
     elem_tag (document tb') i = Some name \<and>
     open_elements tb' = open_elements tb @ (if name \<in> set VOID_ELEMENTS then [] else [i]) \<and>
     stack_tags tb' = stack_tags tb @ (if name \<in> set VOID_ELEMENTS then [] else [name]) \<and>
     active_formatting tb' = active_formatting tb \<and> head_element tb' = head_element tb \<and>
     form_element tb' = form_element tb"

lemma inserted_opened:
  assumes g: "good tb" and i: "inserted (document tb) name i d'"
    and w: "name \<in> set VOID_ELEMENTS \<or> wf_stack (stack_tags tb @ [name])"
  shows "opened tb name i (tb\<lparr>document := d',
           open_elements := open_elements tb @ (if name \<in> set VOID_ELEMENTS then [] else [i])\<rparr>)"
proof -
  have wf: "wf_document d'" "extends (document tb) d'" "unat (next_node_id d') \<le> ids_used tb + 1"
    and new: "nodes (document tb) i = None" "elem_tag d' i = Some name" "i \<in> Domain (up d')" "i \<notin> Range (up d')"
    using i by (simp_all add: inserted_def)
  let ?tb = "tb\<lparr>document := d'\<rparr>"
  note k = keeps_document [OF g wf]
  show ?thesis
  proof (cases "name \<in> set VOID_ELEMENTS")
    case True
    with k new show ?thesis by (simp add: opened_def)
  next
    case False
    have g': "good ?tb" using k(1) [of 0] by (simp add: keeps_def)
    have "i \<notin> set (open_elements tb)" using new(1) good_stack [OF g] elem_tag_alive by metis
    then have "stack_inv d' (open_elements tb @ [i])"
      using g' new by (intro stack_inv_push) (auto simp: good_def)
    moreover have "i \<notin> set (afe_ids (active_formatting tb))"
      using new(1) afe_alive [OF goodD(4) [OF g]] by blast
    then have "afe_inv d' (active_formatting tb) (open_elements tb @ [i])"
      using g' in_stack_order_append [of "afe_ids (active_formatting tb)" "open_elements tb" "[]" "[i]"]
      by (simp add: good_def afe_inv_def)
    ultimately have "good (?tb\<lparr>open_elements := open_elements tb @ [i]\<rparr>)"
      using g' new(2) w False k(2) by (simp add: good_def)
    with False k(1) [of 0] k(2) new show ?thesis by (auto simp: opened_def keeps_def)
  qed
qed

lemma insert_element_opened:
  assumes "good tb" "ids_used tb + 1 < 2 ^ 64" "name \<in> set VOID_ELEMENTS \<or> wf_stack (stack_tags tb @ [name])"
  shows "ok_res (insert_element tb name as) (\<lambda>(i, tb'). opened tb name i tb')"
  by (rule ok_res_mono [OF insert_element_ok [OF good_can_insert [OF assms(1)] assms(2)]])
    (use inserted_opened [OF assms(1) _ assms(3)] in auto)

lemma insert_text_keeps:
  assumes "good tb" "ids_used tb + 1 < 2 ^ 64"
  shows "ok_res (insert_text tb s) (\<lambda>tb'. keeps 1 0 tb tb' \<and> open_elements tb' = open_elements tb \<and>
     stack_tags tb' = stack_tags tb)"
  by (rule ok_res_mono [OF insert_text_ok [OF good_can_insert [OF assms(1)] assms(2)]])
    (use keeps_document [OF assms(1), where k = 1] in auto)

section \<open>Scope checks\<close>

text \<open>An element with one of the tags \<open>T\<close> is in scope: no blocker and no other hit is above it.\<close>

definition in_scope :: "tree_builder \<Rightarrow> rstring set \<Rightarrow> bool" where
  "in_scope tb T \<longleftrightarrow> (\<exists>S1 i S2. open_elements tb = S1 @ i # S2 \<and> the (elem_tag (document tb) i) \<in> T \<and>
     set (tags (document tb) S2) \<inter> (T \<union> set DEFAULT_SCOPE_BLOCKERS) = {})"

lemma scope_walk_hit:
  assumes "\<And>i. i \<in> set is \<Longrightarrow> elem_tag (document tb) i \<noteq> None"
  shows "ok_res (scope_walk tb (\<lambda>_ t. t \<in> T) B is) (\<lambda>b. b \<longrightarrow>
    (\<exists>js i ks. is = js @ i # ks \<and> the (elem_tag (document tb) i) \<in> T \<and>
       (\<forall>t\<in>set (tags (document tb) js). t \<notin> T \<and> \<not> B t)))"
  using assms
proof (induction "is")
  case (Cons i "is")
  then obtain t where t: "elem_tag (document tb) i = Some t" by force
  show ?case
  proof (cases "t \<in> T \<or> B t")
    case True
    with t show ?thesis by (auto simp: tag_of_elem intro: exI [of _ "[]"])
  next
    case False
    have "ok_res (scope_walk tb (\<lambda>_ t. t \<in> T) B is) (\<lambda>b. b \<longrightarrow>
      (\<exists>js i' ks. i # is = js @ i' # ks \<and> the (elem_tag (document tb) i') \<in> T \<and>
         (\<forall>t\<in>set (tags (document tb) js). t \<notin> T \<and> \<not> B t)))"
    proof (rule ok_res_mono [OF Cons.IH], goal_cases)
      case (2 b)
      then show ?case using t False by (metis append_Cons option.sel set_ConsD tags_simps(3))
    qed (use Cons.prems in simp)
    with t False show ?thesis by (simp add: tag_of_elem)
  qed
qed simp

lemma in_scope_ok:
  assumes "good tb" "\<And>t. t \<in> set DEFAULT_SCOPE_BLOCKERS \<Longrightarrow> B t"
  shows "ok_res (scope_walk tb (\<lambda>_ t. t \<in> T) B (rev (open_elements tb))) (\<lambda>b. b \<longrightarrow> in_scope tb T)"
proof (rule ok_res_mono [OF scope_walk_hit], goal_cases)
  case (2 b)
  show ?case
  proof
    assume b
    with 2 obtain js i ks where s: "rev (open_elements tb) = js @ i # ks" "the (elem_tag (document tb) i) \<in> T"
      "\<forall>t\<in>set (tags (document tb) js). t \<notin> T \<and> \<not> B t" by blast
    then have "open_elements tb = rev ks @ i # rev js" by (simp add: rev_swap)
    moreover have "set (tags (document tb) (rev js)) \<inter> (T \<union> set DEFAULT_SCOPE_BLOCKERS) = {}"
      using s(3) assms(2) by (auto simp: tags_def)
    ultimately show "in_scope tb T" using s(2) unfolding in_scope_def by blast
  qed
qed (use assms(1) in \<open>auto simp: good_def stack_inv_def\<close>)

lemma has_tag_in_scope_ok:
  "good tb \<Longrightarrow> ok_res (has_tag_in_scope tb tag extra) (\<lambda>b. b \<longrightarrow> in_scope tb {tag})"
  using in_scope_ok [of tb "\<lambda>t. t \<in> set DEFAULT_SCOPE_BLOCKERS \<or> t \<in> set extra" "{tag}"]
  by (simp add: has_tag_in_scope_def)

lemma has_any_heading_in_scope_ok:
  "good tb \<Longrightarrow> ok_res (has_any_heading_in_scope tb) (\<lambda>b. b \<longrightarrow> in_scope tb (set HEADING_ELEMENTS))"
  unfolding has_any_heading_in_scope_def by (rule in_scope_ok)

lemma has_tag_in_table_scope_ok: "good tb \<Longrightarrow> ok_res (has_tag_in_table_scope tb tag) (\<lambda>_. True)"
  using scope_walk_hit [of "rev (open_elements tb)" tb "{tag}" "\<lambda>t. t = chars ''html'' \<or> t = chars ''table''"]
  by (auto simp: has_tag_in_table_scope_def good_def stack_inv_def elim!: ok_resE)

lemma node_scope_walk_hit:
  assumes "\<And>i. i \<in> set is \<Longrightarrow> elem_tag (document tb) i \<noteq> None"
  shows "ok_res (node_scope_walk tb i is) (\<lambda>b. b \<longrightarrow>
    (\<exists>js ks. is = js @ i # ks \<and> (\<forall>t\<in>set (tags (document tb) js). t \<notin> set DEFAULT_SCOPE_BLOCKERS)))"
  using assms
proof (induction "is")
  case (Cons j "is")
  then obtain t where t: "elem_tag (document tb) j = Some t" by force
  show ?case
  proof (cases "j = i \<or> t \<in> set DEFAULT_SCOPE_BLOCKERS")
    case True
    with t show ?thesis by (auto simp: tag_of_elem intro: exI [of _ "[]"])
  next
    case False
    have "ok_res (node_scope_walk tb i is) (\<lambda>b. b \<longrightarrow>
      (\<exists>js ks. j # is = js @ i # ks \<and> (\<forall>t\<in>set (tags (document tb) js). t \<notin> set DEFAULT_SCOPE_BLOCKERS)))"
    proof (rule ok_res_mono [OF Cons.IH], goal_cases)
      case (2 b)
      then show ?case using t False by (metis append_Cons option.sel set_ConsD tags_simps(3))
    qed (use Cons.prems in simp)
    with t False show ?thesis by (simp add: tag_of_elem)
  qed
qed simp

lemma has_node_in_scope_ok:
  assumes "good tb"
  shows "ok_res (has_node_in_scope tb i) (\<lambda>b. b \<longrightarrow> (\<exists>S1 S2. open_elements tb = S1 @ i # S2 \<and>
    set (tags (document tb) S2) \<inter> set DEFAULT_SCOPE_BLOCKERS = {}))"
  unfolding has_node_in_scope_def
proof (rule ok_res_mono [OF node_scope_walk_hit], goal_cases)
  case (2 b)
  show ?case
  proof
    assume b
    with 2 obtain js ks where s: "rev (open_elements tb) = js @ i # ks"
      "\<forall>t\<in>set (tags (document tb) js). t \<notin> set DEFAULT_SCOPE_BLOCKERS" by blast
    then have "open_elements tb = rev ks @ i # rev js" by (simp add: rev_swap)
    with s(2) show "\<exists>S1 S2. open_elements tb = S1 @ i # S2 \<and>
        set (tags (document tb) S2) \<inter> set DEFAULT_SCOPE_BLOCKERS = {}"
      by (intro exI [of _ "rev ks"] exI [of _ "rev js"]) (auto simp: tags_def)
  qed
qed (use assms(1) in \<open>auto simp: good_def stack_inv_def\<close>)

section \<open>Pops\<close>

lemma pop_while_total: "(\<And>x. x \<in> set xs \<Longrightarrow> f x = Inr (P x)) \<Longrightarrow> pop_while f xs = Inr (dropWhile P xs)"
  by (induction xs) auto

lemma pop_through_total:
  "(\<And>x. x \<in> set xs \<Longrightarrow> f x = Inr (P x)) \<Longrightarrow> pop_through f xs = Inr (tl (dropWhile (\<lambda>x. \<not> P x) xs))"
  by (induction xs) auto

lemma pop_while_stack:
  assumes "\<And>i. i \<in> set (open_elements tb) \<Longrightarrow> f i = Inr (P i)"
  shows "ok_res (on_stack tb (pop_while f)) (\<lambda>tb'. \<exists>S1 S2. open_elements tb = S1 @ S2 \<and>
    tb' = tb\<lparr>open_elements := S1\<rparr> \<and> (\<forall>j\<in>set S2. P j) \<and> (S1 \<noteq> [] \<longrightarrow> \<not> P (last S1)))"
proof -
  let ?S = "rev (open_elements tb)"
  define D where "D = rev (dropWhile P ?S)"
  have pop: "pop_while f ?S = Inr (rev D)"
    using assms by (subst pop_while_total [of _ _ P]) (simp_all add: D_def)
  have stack: "open_elements tb = D @ rev (takeWhile P ?S)"
    unfolding D_def by (metis rev_append rev_rev_ident takeWhile_dropWhile_id)
  have top: "\<not> P (last D)" if "D \<noteq> []"
  proof -
    have "dropWhile P ?S \<noteq> []" using that by (simp only: D_def rev_is_Nil_conv not_False_eq_True)
    from hd_dropWhile [OF this] show ?thesis unfolding D_def last_rev .
  qed
  have "P j" if "j \<in> set (rev (takeWhile P ?S))" for j
    using that by (auto dest: set_takeWhileD)
  with stack top have "\<exists>S2. open_elements tb = D @ S2 \<and> (\<forall>j\<in>set S2. P j) \<and> (D \<noteq> [] \<longrightarrow> \<not> P (last D))"
    by blast
  then show ?thesis unfolding on_stack_def pop by auto
qed

lemma pop_through_stack:
  assumes "\<And>i. i \<in> set (open_elements tb) \<Longrightarrow> f i = Inr (P i)"
    and "open_elements tb = S1 @ i # S2" "P i" "\<And>j. j \<in> set S2 \<Longrightarrow> \<not> P j"
  shows "on_stack tb (pop_through f) = Inr (tb\<lparr>open_elements := S1\<rparr>)"
proof -
  have "pop_through f (rev (open_elements tb)) = Inr (tl (dropWhile (\<lambda>x. \<not> P x) (rev (open_elements tb))))"
    using assms(1) by (intro pop_through_total) simp
  moreover have "dropWhile (\<lambda>x. \<not> P x) (rev (open_elements tb)) = i # rev S1"
    using assms(2-4) by (simp add: dropWhile_append3 dropWhile_append2)
  ultimately show ?thesis by (simp add: on_stack_def)
qed

lemma implied_no_anchor: "t \<in> set IMPLIED_END_TAGS \<Longrightarrow> t \<notin> anchors"
  by (auto simp: IMPLIED_END_TAGS_def anchors_def table_sections_def)

lemma table_blocks: "chars ''table'' \<in> set DEFAULT_SCOPE_BLOCKERS"
  by (simp add: DEFAULT_SCOPE_BLOCKERS_def)

lemma implied_no_blocker: "t \<in> set IMPLIED_END_TAGS \<Longrightarrow> t \<notin> set DEFAULT_SCOPE_BLOCKERS"
  by (auto simp: IMPLIED_END_TAGS_def DEFAULT_SCOPE_BLOCKERS_def)

lemma generate_implied_ok:
  assumes "good tb"
  shows "ok_res (generate_implied_end_tags tb ex) (\<lambda>tb'. \<exists>S1 S2. open_elements tb = S1 @ S2 \<and>
    tb' = tb\<lparr>open_elements := S1\<rparr> \<and> keeps 0 0 tb tb' \<and>
    (\<forall>t\<in>set (tags (document tb) S2). t \<in> set IMPLIED_END_TAGS \<and> ex \<noteq> Some t))"
proof -
  let ?P = "\<lambda>i. the (elem_tag (document tb) i) \<in> set IMPLIED_END_TAGS \<and> ex \<noteq> elem_tag (document tb) i"
  have "ok_res (generate_implied_end_tags tb ex) (\<lambda>tb'. \<exists>S1 S2. open_elements tb = S1 @ S2 \<and>
      tb' = tb\<lparr>open_elements := S1\<rparr> \<and> (\<forall>j\<in>set S2. ?P j) \<and> (S1 \<noteq> [] \<longrightarrow> \<not> ?P (last S1)))"
    unfolding generate_implied_end_tags_def
    by (rule pop_while_stack) (use assms in \<open>auto simp: good_def stack_inv_def tag_of_elem\<close>)
  then show ?thesis
  proof (rule ok_res_mono, elim exE conjE)
    fix tb' S1 S2
    assume s: "open_elements tb = S1 @ S2" "tb' = tb\<lparr>open_elements := S1\<rparr>" "\<forall>j\<in>set S2. ?P j"
    have t: "t \<in> set IMPLIED_END_TAGS \<and> ex \<noteq> Some t" if t: "t \<in> set (tags (document tb) S2)" for t
    proof -
      obtain j where "j \<in> set S2" "t = the (elem_tag (document tb) j)" using t by (auto simp: tags_def)
      moreover from this have "elem_tag (document tb) j = Some t" using good_stack [OF assms, of j] s(1) by simp
      ultimately show ?thesis using s(3) by auto
    qed
    then have "keeps 0 0 tb tb'"
      unfolding s(2) using implied_no_anchor by (intro keeps_pop(2) [OF assms s(1)]) blast
    with s t show "\<exists>S1 S2. open_elements tb = S1 @ S2 \<and> tb' = tb\<lparr>open_elements := S1\<rparr> \<and> keeps 0 0 tb tb' \<and>
        (\<forall>t\<in>set (tags (document tb) S2). t \<in> set IMPLIED_END_TAGS \<and> ex \<noteq> Some t)" by blast
  qed
qed

lemma in_scope_pop:
  assumes "in_scope tb T" "open_elements tb = S1 @ S2" "set (tags (document tb) S2) \<inter> T = {}"
  shows "in_scope (tb\<lparr>open_elements := S1\<rparr>) T"
proof -
  obtain R1 i R2 where r: "open_elements tb = R1 @ i # R2" "the (elem_tag (document tb) i) \<in> T"
    "set (tags (document tb) R2) \<inter> (T \<union> set DEFAULT_SCOPE_BLOCKERS) = {}"
    using assms(1) by (auto simp: in_scope_def)
  have "S1 @ S2 = R1 @ i # R2" "i \<notin> set S2"
    using r(1,2) assms(2,3) by (auto simp: tags_def)
  then obtain us' where "S1 = R1 @ i # us'" "R2 = us' @ S2" by (rule append_split_at)
  moreover from this r(3) have "set (tags (document tb) us') \<inter> (T \<union> set DEFAULT_SCOPE_BLOCKERS) = {}" by auto
  ultimately show ?thesis using r(2) unfolding in_scope_def by auto
qed

lemma pop_through_scope:
  assumes "good tb" "in_scope tb (set T)"
  shows "ok_res (on_stack tb (pop_through (has_tag tb T))) (\<lambda>tb'. \<exists>S1 i S2. open_elements tb = S1 @ i # S2 \<and>
    the (elem_tag (document tb) i) \<in> set T \<and> chars ''table'' \<notin> set (tags (document tb) S2) \<and>
    tb' = tb\<lparr>open_elements := S1\<rparr>)"
proof -
  obtain S1 i S2 where s: "open_elements tb = S1 @ i # S2" "the (elem_tag (document tb) i) \<in> set T"
    "set (tags (document tb) S2) \<inter> (set T \<union> set DEFAULT_SCOPE_BLOCKERS) = {}"
    using assms(2) by (auto simp: in_scope_def)
  have "on_stack tb (pop_through (has_tag tb T)) = Inr (tb\<lparr>open_elements := S1\<rparr>)"
    by (rule pop_through_stack [OF _ s(1), where P = "\<lambda>i. the (elem_tag (document tb) i) \<in> set T"])
      (use s good_stack [OF assms(1)] has_tag_elem in \<open>auto simp: tags_def\<close>)
  with s table_blocks show ?thesis by auto
qed

end
