(* ===== verification/Html_Builder_Closing.thy ===== *)
theory Html_Builder_Closing
  imports Html_Builder_Ops
begin

text \<open>
  The compound operations of the tree builder short of the adoption agency: closing an element in
  scope, removing one from the middle of the stack, the list of active formatting elements, and
  the choice of an insertion mode from the stack.
\<close>

section \<open>Closing an element in scope\<close>

lemma pop_in_scope_keeps:
  assumes "good tb" "in_scope tb (set T)" "\<And>t. t \<in> set T \<Longrightarrow> t \<notin> anchors"
  shows "ok_res (on_stack tb (pop_through (has_tag tb T))) (keeps 0 0 tb)"
  by (rule ok_res_mono [OF pop_through_scope [OF assms(1,2)]])
    (use keeps_pop_through [OF assms(1)] assms(3) in blast)

lemma close_in_scope_keeps:
  assumes "good tb" "in_scope tb (set T)"
    and "\<And>t. t \<in> set T \<Longrightarrow> t \<notin> anchors \<and> (t \<in> set IMPLIED_END_TAGS \<longrightarrow> ex = Some t)"
  shows "ok_res (res_bind (generate_implied_end_tags tb ex)
    (\<lambda>tb. on_stack tb (pop_through (has_tag tb T)))) (keeps 0 0 tb)"
proof (rule ok_res_bind [OF generate_implied_ok [OF assms(1)]], elim exE conjE)
  fix tb1 S1 S2
  assume s: "open_elements tb = S1 @ S2" "tb1 = tb\<lparr>open_elements := S1\<rparr>" "keeps 0 0 tb tb1"
    "\<forall>t\<in>set (tags (document tb) S2). t \<in> set IMPLIED_END_TAGS \<and> ex \<noteq> Some t"
  have "in_scope tb1 (set T)"
    unfolding s(2) by (rule in_scope_pop [OF assms(2) s(1)]) (use s(4) assms(3) in blast)
  moreover have "good tb1" using s(3) by (simp add: keeps_def)
  ultimately have "ok_res (on_stack tb1 (pop_through (has_tag tb1 T))) (keeps 0 0 tb1)"
    using pop_in_scope_keeps assms(3) by blast
  then show "ok_res (on_stack tb1 (pop_through (has_tag tb1 T))) (keeps 0 0 tb)"
    by (rule ok_res_mono) (auto intro: keeps_trans [OF s(3)])
qed

lemma close_p_element_keeps:
  "good tb \<Longrightarrow> in_scope tb {chars ''p''} \<Longrightarrow> ok_res (close_p_element tb) (keeps 0 0 tb)"
  using close_in_scope_keeps [of tb "[chars ''p'']" "Some (chars ''p'')"]
  by (simp add: close_p_element_def pop_until_and_including_def anchors_def table_sections_def)

lemma close_p_in_button_scope_keeps:
  assumes "good tb"
  shows "ok_res (close_p_in_button_scope tb) (keeps 0 0 tb)"
  unfolding close_p_in_button_scope_def has_p_in_button_scope_def
  by (rule ok_res_bind [OF has_tag_in_scope_ok [OF assms]])
    (use close_p_element_keeps keeps_refl assms in auto)

lemma close_li_if_open_keeps:
  assumes "good tb"
  shows "ok_res (close_li_if_open tb) (keeps 0 0 tb)"
  unfolding close_li_if_open_def has_li_in_list_item_scope_def
  by (rule ok_res_bind [OF has_tag_in_scope_ok [OF assms]])
    (use close_in_scope_keeps [of tb "[chars ''li'']" "Some (chars ''li'')"] keeps_refl assms in
      \<open>auto simp: pop_until_and_including_def anchors_def table_sections_def\<close>)

lemma close_button_keeps:
  assumes "good tb"
  shows "ok_res (close_button tb) (keeps 0 0 tb)"
  unfolding close_button_def
  by (rule ok_res_bind [OF has_tag_in_scope_ok [OF assms]])
    (use close_in_scope_keeps [of tb "[chars ''button'']" None] keeps_refl assms in
      \<open>auto simp: pop_until_and_including_def anchors_def table_sections_def IMPLIED_END_TAGS_def\<close>)

lemma pop_select_keeps:
  assumes "good tb" "in_scope tb {chars ''select''}"
  shows "ok_res (pop_until_and_including tb (chars ''select'')) (keeps 0 0 tb)"
  unfolding pop_until_and_including_def
  by (rule pop_in_scope_keeps) (use assms in \<open>auto simp: anchors_def table_sections_def\<close>)

section \<open>Removing an element\<close>

lemma filter_remove_middle: "distinct (xs @ x # ys) \<Longrightarrow> filter (\<lambda>y. y \<noteq> x) (xs @ x # ys) = xs @ ys"
  by (auto intro!: arg_cong2 [where f = append] filter_True)

lemma keeps_remove:
  assumes "good tb" "subseq A (active_formatting tb)"
    and "i \<in> set (open_elements tb) \<Longrightarrow> the (elem_tag (document tb) i) \<notin> anchors"
  shows "keeps k l tb (tb\<lparr>open_elements := filter (\<lambda>j. j \<noteq> i) (open_elements tb), active_formatting := A\<rparr>)"
proof (cases "i \<in> set (open_elements tb)")
  case False
  then have "filter (\<lambda>j. j \<noteq> i) (open_elements tb) = open_elements tb" by (auto simp: filter_id_conv)
  with keeps_afe [OF assms(1,2)] show ?thesis by simp
next
  case True
  then obtain S1 S2 where s: "open_elements tb = S1 @ i # S2" by (meson split_list)
  then have f: "filter (\<lambda>j. j \<noteq> i) (open_elements tb) = S1 @ S2"
    using goodD(6) [OF assms(1)] filter_remove_middle by metis
  have "wf_stack (tags (document tb) (S1 @ S2))"
    using wf_stack_remove goodD(5) [OF assms(1)] assms(3) [OF True] by (simp add: s)
  moreover have "subseq (S1 @ S2) (open_elements tb)"
    using subseq_remove [of S1 S2 "[i]"] by (simp add: s)
  moreover have "anchors \<inter> set (stack_tags tb) \<subseteq> set (tags (document tb) (S1 @ S2))"
    using assms(3) [OF True] by (auto simp: s)
  ultimately show ?thesis unfolding f using keeps_sub(2) [OF assms(1) _ assms(2)] by blast
qed

section \<open>Any other end tag\<close>

lemma implied_pop_below:
  assumes "good tb" "open_elements tb = S1 @ i # S2" "elem_tag (document tb) i = Some tag"
  shows "ok_res (generate_implied_end_tags tb (Some tag))
    (\<lambda>tb'. tb'\<lparr>open_elements := take (length S1) (open_elements tb')\<rparr> = tb\<lparr>open_elements := S1\<rparr>)"
proof (rule ok_res_mono [OF generate_implied_ok [OF assms(1)]], elim exE conjE)
  fix tb' R1 R2
  assume r: "open_elements tb = R1 @ R2" "tb' = tb\<lparr>open_elements := R1\<rparr>"
    "\<forall>t\<in>set (tags (document tb) R2). t \<in> set IMPLIED_END_TAGS \<and> Some tag \<noteq> Some t"
  have "i \<notin> set R2" using r(3) assms(3) by (force simp: tags_def)
  moreover have "R1 @ R2 = S1 @ i # S2" using r(1) assms(2) by simp
  ultimately obtain us where "R1 = S1 @ i # us" by (metis append_split_at)
  with r(2) show "tb'\<lparr>open_elements := take (length S1) (open_elements tb')\<rparr> = tb\<lparr>open_elements := S1\<rparr>" by simp
qed

lemma any_other_end_tag_loop_ok:
  assumes "good tb" "n \<le> length (open_elements tb)"
    and "set (tags (document tb) (drop n (open_elements tb))) \<inter> set SPECIAL_ELEMENTS = {}"
  shows "ok_res (any_other_end_tag_loop tb tag n) (\<lambda>tb'. tb' = tb \<or>
    (\<exists>S1 i S2. open_elements tb = S1 @ i # S2 \<and> elem_tag (document tb) i = Some tag \<and>
       set (tags (document tb) S2) \<inter> set SPECIAL_ELEMENTS = {} \<and> tb' = tb\<lparr>open_elements := S1\<rparr>))"
  using assms(2,3)
proof (induction n)
  case 0
  then show ?case by (simp add: any_other_end_tag_loop.simps)
next
  case (Suc n)
  let ?S = "open_elements tb"
  let ?i = "?S ! n"
  have s: "?S = take n ?S @ ?i # drop (Suc n) ?S" using Suc.prems(1) by (simp add: id_take_nth_drop)
  have "?i \<in> set ?S" using Suc.prems(1) by simp
  then obtain t where t: "elem_tag (document tb) ?i = Some t" using good_stack [OF assms(1)] by blast
  have special: "is_special tb ?i = Inr (t \<in> set SPECIAL_ELEMENTS)"
    by (simp add: is_special_def tag_of_elem [OF t])
  consider "t = tag" | "t \<noteq> tag" "t \<in> set SPECIAL_ELEMENTS" | "t \<noteq> tag" "t \<notin> set SPECIAL_ELEMENTS" by blast
  then show ?case
  proof cases
    case 1
    from implied_pop_below [OF assms(1) s, of tag] t 1 Suc.prems(1)
    obtain tb1 where "generate_implied_end_tags tb (Some tag) = Inr tb1"
      "tb1\<lparr>open_elements := take n (open_elements tb1)\<rparr> = tb\<lparr>open_elements := take n ?S\<rparr>"
      by (auto elim!: ok_resE simp: min_def)
    then have "any_other_end_tag_loop tb tag (Suc n) = Inr (tb\<lparr>open_elements := take n ?S\<rparr>)"
      using 1 by (simp add: any_other_end_tag_loop.simps [of tb tag "Suc n"] tag_of_elem [OF t] Let_def)
    with s t 1 Suc.prems(2) show ?thesis by auto
  next
    case 2
    then show ?thesis
      by (simp add: any_other_end_tag_loop.simps [of tb tag "Suc n"] tag_of_elem [OF t] Let_def special)
  next
    case 3
    have "drop n ?S = ?i # drop (Suc n) ?S" using Suc.prems(1) by (simp add: Cons_nth_drop_Suc)
    with 3 t Suc.prems have "set (tags (document tb) (drop n ?S)) \<inter> set SPECIAL_ELEMENTS = {}" by simp
    with Suc 3 show ?thesis
      by (simp add: any_other_end_tag_loop.simps [of tb tag "Suc n"] tag_of_elem [OF t] Let_def special)
  qed
qed

lemma table_special: "chars ''table'' \<in> set SPECIAL_ELEMENTS"
  by (simp add: SPECIAL_ELEMENTS_def)

lemma any_other_end_tag_ok:
  assumes "good tb"
  shows "ok_res (any_other_end_tag tb tag) (\<lambda>tb'. tb' = tb \<or>
    (\<exists>S1 i S2. open_elements tb = S1 @ i # S2 \<and> the (elem_tag (document tb) i) = tag \<and>
       chars ''table'' \<notin> set (tags (document tb) S2) \<and> tb' = tb\<lparr>open_elements := S1\<rparr>))"
  unfolding any_other_end_tag_def
proof (rule ok_res_mono [OF any_other_end_tag_loop_ok [OF assms]], goal_cases)
  case (3 tb')
  then show ?case using table_special by (metis IntI empty_iff option.sel)
qed simp_all

section \<open>The list of active formatting elements\<close>

lemma clear_afe_keeps:
  assumes "good tb"
  shows "keeps k l tb (clear_afe_up_to_last_marker tb)"
proof -
  have "suffix (drop 1 (dropWhile (\<lambda>e. \<not> is_marker e) xs)) xs" for xs
    by (meson suffix_drop suffix_dropWhile suffix_order.trans)
  then have "prefix (rev (drop 1 (dropWhile (\<lambda>e. \<not> is_marker e) (rev xs)))) xs" for xs
    using suffix_to_prefix by (metis rev_rev_ident)
  then have "subseq (rev (drop 1 (dropWhile (\<lambda>e. \<not> is_marker e) (rev xs)))) xs" for xs
    using subseq_prefix by (metis prefixE)
  then show ?thesis unfolding clear_afe_up_to_last_marker_def by (rule keeps_afe [OF assms])
qed

lemma subseq_remove_at: "subseq (remove_at n xs) xs"
proof (cases "n < length xs")
  case True
  then have "xs = take n xs @ [xs ! n] @ drop (Suc n) xs" by (simp add: id_take_nth_drop)
  then show ?thesis using subseq_remove remove_at_def by metis
qed (simp add: remove_at_def)

lemma insert_afe_marker_keeps: "good tb \<Longrightarrow> keeps 0 1 tb (insert_afe_marker tb)"
  by (simp add: keeps_def good_def insert_afe_marker_def afe_inv_def)

lemma push_formatting_kept:
  "\<exists>kept. subseq kept (active_formatting tb) \<and>
     push_formatting tb i tag as = tb\<lparr>active_formatting := kept @ [Formatting (i, tag, as)]\<rparr>"
  unfolding push_formatting_def Let_def
  by (rule exI, rule conjI [rotated], rule refl) (simp add: subseq_remove_at)

lemma push_formatting_keeps:
  assumes "good tb" "open_elements tb = S @ [i]" "elem_tag (document tb) i = Some tag"
    and "tag \<in> set FORMATTING_ELEMENTS" "i \<notin> set (afe_ids (active_formatting tb))"
  shows "keeps 0 1 tb (push_formatting tb i tag as)"
proof -
  obtain kept where kept: "subseq kept (active_formatting tb)"
    and eq: "push_formatting tb i tag as = tb\<lparr>active_formatting := kept @ [Formatting (i, tag, as)]\<rparr>"
    using push_formatting_kept by blast
  have g: "afe_inv (document tb) kept S" "afe_inv (document tb) kept (open_elements tb)"
    using afe_inv_subseq [OF goodD(4) [OF assms(1)] kept _ goodD(6) [OF assms(1)]] assms(2) by simp_all
  have "i \<notin> set (afe_ids kept)" using assms(5) set_subseq [OF afe_ids_subseq [OF kept]] by blast
  moreover from this have "in_stack_order (afe_ids kept @ [i]) (S @ [i])"
    using in_stack_order_open [of "afe_ids kept" "[]" S i] g(1) by (simp add: afe_inv_def)
  ultimately have "afe_inv (document tb) (kept @ [Formatting (i, tag, as)]) (open_elements tb)"
    using g(2) assms(2-4) by (auto simp: afe_inv_def)
  with assms(1) list_emb_length [OF kept] show ?thesis
    by (simp add: eq keeps_def good_def)
qed

lemma formatting_tag:
  assumes "t \<in> set FORMATTING_ELEMENTS"
  shows "plain t" "t \<notin> set VOID_ELEMENTS" "t \<notin> anchors" "t \<notin> set SPECIAL_ELEMENTS"
  using assms
  by (auto simp: FORMATTING_ELEMENTS_def plain_def VOID_ELEMENTS_def anchors_def table_sections_def
      SPECIAL_ELEMENTS_def)

lemma wf_stack_push_plain: "wf_stack ts \<Longrightarrow> ts \<noteq> [] \<Longrightarrow> plain t \<Longrightarrow> wf_stack (ts @ [t])"
  by (rule wf_stack_push) (auto intro: plain_next)

text \<open>An entry whose element is not open is replaced by a new element on top of the stack.\<close>

lemma reopen_entry:
  assumes g: "good tb" and A: "active_formatting tb = A1 @ Formatting (j, t, as) # A2"
    and closed: "j \<notin> set (open_elements tb)" "set (afe_ids A2) \<inter> set (open_elements tb) = {}"
    and "open_elements tb \<noteq> []" "opened tb t n tb1"
  shows "keeps 1 0 tb (tb1\<lparr>active_formatting := A1 @ Formatting (n, t, as) # A2\<rparr>)"
proof -
  have t: "t \<in> set FORMATTING_ELEMENTS" using goodD(4) [OF g] A by (auto simp: afe_inv_def)
  have o: "keeps 1 0 tb tb1" "nodes (document tb) n = None" "elem_tag (document tb1) n = Some t"
    "open_elements tb1 = open_elements tb @ [n]" "active_formatting tb1 = active_formatting tb"
    using assms(6) formatting_tag(2) [OF t] by (simp_all add: opened_def)
  note afe = goodD(4) [OF g] and g1 = o(1) [unfolded keeps_def, THEN conjunct1]
  have new: "n \<notin> set (afe_ids (active_formatting tb))" using afe_alive [OF afe] o(2) by blast
  have "in_stack_order (afe_ids A1 @ afe_ids A2) (open_elements tb)"
    by (rule in_stack_order_mono [OF _ _ subseq_order.refl goodD(6) [OF g]])
      (use afe subseq_remove [of "afe_ids A1" "afe_ids A2" "[j]"] A in \<open>auto simp: afe_inv_def\<close>)
  then have "in_stack_order (afe_ids A1 @ n # afe_ids A2) (open_elements tb1)"
    unfolding o(4) by (rule in_stack_order_open) (use closed new A in auto)
  moreover have "distinct (afe_ids A1 @ n # afe_ids A2)"
    using afe new A by (auto simp: afe_inv_def)
  ultimately have "afe_inv (document tb1) (A1 @ Formatting (n, t, as) # A2) (open_elements tb1)"
    using goodD(4) [OF g1] o(3,5) t A by (auto simp: afe_inv_def)
  then show ?thesis using o(1,5) A by (simp add: keeps_def good_def)
qed

lemma reconstruct_loop_keeps:
  assumes "good tb" "open_elements tb \<noteq> []" "ids_used tb + length A2 < 2 ^ 64"
    and "active_formatting tb = A1 @ A2"
    and "\<And>e. e \<in> set A2 \<Longrightarrow> \<exists>j t as. e = Formatting (j, t, as) \<and> j \<notin> set (open_elements tb)"
  shows "ok_res (reconstruct_loop tb [length A1 ..< length A1 + length A2]) (keeps (length A2) 0 tb)"
  using assms
proof (induction A2 arbitrary: A1 tb)
  case Nil
  then show ?case by (simp add: keeps_refl)
next
  case (Cons e A2)
  obtain j t as where e: "e = Formatting (j, t, as)" "j \<notin> set (open_elements tb)" using Cons.prems(5) by force
  have t: "t \<in> set FORMATTING_ELEMENTS"
    using goodD(4) [OF Cons.prems(1)] Cons.prems(4) e(1) by (auto simp: afe_inv_def)
  have closed: "set (afe_ids A2) \<inter> set (open_elements tb) = {}"
    using Cons.prems(5) by (force simp: afe_ids_entry)
  have "wf_stack (stack_tags tb @ [t])"
    using goodD(5) [OF Cons.prems(1)] Cons.prems(2) formatting_tag(1) [OF t] by (simp add: wf_stack_push_plain)
  with Cons.prems obtain n tb1 where ins: "insert_element tb t as = Inr (n, tb1)" "opened tb t n tb1"
    using insert_element_opened [of tb t as] by (auto elim!: ok_resE)
  let ?tb = "tb1\<lparr>active_formatting := A1 @ Formatting (n, t, as) # A2\<rparr>"
  have k: "keeps 1 0 tb ?tb"
    using reopen_entry [OF Cons.prems(1) _ e(2) closed Cons.prems(2) ins(2)] Cons.prems(4) e(1) by simp
  have o: "open_elements tb1 = open_elements tb @ [n]" "active_formatting tb1 = A1 @ e # A2"
    "nodes (document tb) n = None"
    using ins(2) formatting_tag(2) [OF t] Cons.prems(4) by (simp_all add: opened_def)
  have new: "n \<notin> set (afe_ids A2)"
    using afe_alive [OF goodD(4) [OF Cons.prems(1)]] Cons.prems(4) o(3) e(1) by fastforce
  have "ok_res (reconstruct_loop ?tb [length (A1 @ [Formatting (n, t, as)]) ..<
      length (A1 @ [Formatting (n, t, as)]) + length A2]) (keeps (length A2) 0 ?tb)"
  proof (rule Cons.IH)
    show "ids_used ?tb + length A2 < 2 ^ 64" using k Cons.prems(3) by (simp add: keeps_def)
    fix e'
    assume "e' \<in> set A2"
    with Cons.prems(5) new show "\<exists>j t as. e' = Formatting (j, t, as) \<and> j \<notin> set (open_elements ?tb)"
      by (fastforce simp: o(1) afe_ids_entry)
  qed (use k o(1) in \<open>simp_all add: keeps_def\<close>)
  then have "ok_res (reconstruct_loop ?tb [Suc (length A1) ..< Suc (length A1 + length A2)]) (keeps (length A2) 0 ?tb)"
    by simp
  then have "ok_res (reconstruct_loop ?tb [Suc (length A1) ..< Suc (length A1 + length A2)]) (keeps (length (e # A2)) 0 tb)"
    by (rule ok_res_mono) (auto intro: keeps_trans [OF k])
  moreover have "reconstruct_loop tb [length A1 ..< length A1 + length (e # A2)] =
      reconstruct_loop ?tb [Suc (length A1) ..< Suc (length A1 + length A2)]"
    using Cons.prems(4) e(1) ins(1) o(2) by (subst upt_conv_Cons) (simp_all add: nth_append)
  ultimately show ?case by simp
qed

lemma reconstruct_first_range:
  "reconstruct_first tb n \<le> n" "reconstruct_first tb n \<le> k \<Longrightarrow> k < n \<Longrightarrow> \<not> is_open_or_marker tb k"
proof (induction n)
  case (Suc n)
  {
    case 1
    show ?case using Suc by (simp add: reconstruct_first.simps [of tb "Suc n"])
  next
    case 2
    then show ?case using Suc by (auto simp: reconstruct_first.simps [of tb "Suc n"] less_Suc_eq split: if_splits)
  }
qed (simp_all add: reconstruct_first.simps)

lemma reconstruct_keeps:
  assumes "good tb" "open_elements tb \<noteq> []" "ids_used tb + length (active_formatting tb) < 2 ^ 64"
  shows "ok_res (reconstruct_active_formatting_elements tb) (keeps (length (active_formatting tb)) 0 tb)"
proof (cases "active_formatting tb = [] \<or> is_open_or_marker tb (length (active_formatting tb) - 1)")
  case True
  then show ?thesis
    using assms(1) by (auto simp: reconstruct_active_formatting_elements_def keeps_refl)
next
  case False
  let ?A = "active_formatting tb"
  define n where "n = length ?A - 1"
  define m where "m = reconstruct_first tb n"
  have n: "length ?A = Suc n" using False by (simp add: n_def)
  have m: "m \<le> n" unfolding m_def by (rule reconstruct_first_range)
  have closed: "\<not> is_open_or_marker tb k" if "m \<le> k" "k \<le> n" for k
    using reconstruct_first_range(2) [of tb n k] that False by (cases "k = n") (auto simp: m_def n_def)
  have "ok_res (reconstruct_loop tb [length (take m ?A) ..< length (take m ?A) + length (drop m ?A)])
      (keeps (length (drop m ?A)) 0 tb)"
  proof (rule reconstruct_loop_keeps [OF assms(1,2)])
    fix e
    assume "e \<in> set (drop m ?A)"
    then obtain k where "k < length (drop m ?A)" "e = drop m ?A ! k" by (auto simp: in_set_conv_nth)
    then have "e = ?A ! (m + k)" "m + k \<le> n" using n by auto
    with closed [of "m + k"] show "\<exists>j t as. e = Formatting (j, t, as) \<and> j \<notin> set (open_elements tb)"
      by (auto simp: is_open_or_marker_def split: afe_entry.splits prod.splits)
  qed (use assms(3) in simp_all)
  then have "ok_res (reconstruct_loop tb [m ..< Suc n]) (keeps (Suc n - m) 0 tb)"
    using m n by (simp add: min_def Suc_diff_le)
  then have "ok_res (reconstruct_loop tb [m ..< Suc n]) (keeps (length ?A) 0 tb)"
    by (rule ok_res_mono, elim keeps_mono) (use n in simp_all)
  with False n show ?thesis
    by (simp add: reconstruct_active_formatting_elements_def Let_def m_def)
qed

section \<open>The insertion mode from the stack\<close>

lemma mode_for_tag_ok:
  assumes "wf_stack ts" "t \<in> set ts" "mode_for_tag tb t = Some m"
  shows "mode_ok m ts"
proof -
  have "ts \<noteq> []" using assms(2) by auto
  with assms(2,3) below_on_stack [OF assms(1,2)] show ?thesis
    unfolding mode_for_tag_def
    by (auto simp: mode_ok_body table_sections_def split: if_splits)
qed

lemma reset_insertion_mode_ok:
  assumes "good tb" "open_elements tb \<noteq> []"
  shows "ok_res (reset_insertion_mode tb) (\<lambda>tb'. \<exists>m. tb' = tb\<lparr>mode := m\<rparr> \<and> mode_ok m (stack_tags tb))"
proof -
  have "ok_res (reset_insertion_mode_loop tb is) (\<lambda>m. mode_ok m (stack_tags tb))"
    if "set is \<subseteq> set (open_elements tb)" for "is"
    using that
  proof (induction "is")
    case Nil
    then show ?case using assms(2) by (simp add: mode_ok_body)
  next
    case (Cons i "is")
    then obtain t where t: "elem_tag (document tb) i = Some t" using good_stack [OF assms(1), of i] by auto
    then have "t \<in> set (stack_tags tb)" using Cons.prems by (force simp: tags_def)
    with Cons t show ?case
      using mode_for_tag_ok [OF goodD(5) [OF assms(1)]] by (simp add: tag_of_elem split: option.splits)
  qed
  from this [of "rev (open_elements tb)"] show ?thesis
    unfolding reset_insertion_mode_def by (auto elim!: ok_resE)
qed

end
