(* ===== verification/Html_Adoption.thy ===== *)
theory Html_Adoption
  imports Html_Builder_Closing
begin

text \<open>
  The adoption agency keeps the invariant of the tree builder. The furthest block moves, with the
  clones of the formatting elements around it, to a place above the formatting element; the
  proof follows the parent relation through these moves.
\<close>

section \<open>Moving a subtree\<close>

text \<open>
  \<open>R\<close> is the parent relation before, \<open>R'\<close> the one after a subtree with top \<open>m\<close> is moved below
  \<open>q\<close>; \<open>F\<close> holds \<open>m\<close> and new nodes, some of them put between \<open>m\<close> and its children.
\<close>

lemma reroute:
  assumes "R' \<subseteq> {(a, b). a \<notin> F \<and> ((a, b) \<in> R \<or> (a, m) \<in> R \<and> b \<in> F)} \<union> {(a, b). a \<in> F \<and> (b \<in> F \<or> b = q)}"
    and "F \<inter> Range R \<subseteq> {m}" "(x, y) \<in> R'\<^sup>*"
  shows "(x, y) \<in> R\<^sup>* \<or> (x \<in> F \<or> (x, m) \<in> R\<^sup>*) \<and> (y \<in> F \<or> (q, y) \<in> R\<^sup>*)"
  using assms(3)
proof (induction rule: rtrancl_induct)
  case (step y z)
  from step.hyps(2) assms(1) consider
    (old) "y \<notin> F" "(y, z) \<in> R" | (below) "y \<notin> F" "(y, m) \<in> R" "z \<in> F" | (new) "y \<in> F" "z \<in> F \<or> z = q"
    by blast
  then show ?case
  proof cases
    case old
    with step.IH show ?thesis by (blast intro: rtrancl_into_rtrancl)
  next
    case below
    with step.IH show ?thesis by (blast intro: rtrancl_into_rtrancl)
  next
    case new
    have "x \<in> F \<or> (x, m) \<in> R\<^sup>*"
      using step.IH
    proof
      assume xy: "(x, y) \<in> R\<^sup>*"
      then have "x = y \<or> y \<in> Range R" by (meson RangeI rtranclE)
      with xy new(1) assms(2) show ?thesis by blast
    qed blast
    with new show ?thesis by blast
  qed
qed simp

text \<open>A chain of nodes, each the parent of the next.\<close>

fun chain_edges :: "'a list \<Rightarrow> ('a \<times> 'a) set" where
  "chain_edges (x # y # xs) = insert (y, x) (chain_edges (y # xs))"
| "chain_edges _ = {}"

lemma chain_edges_nodes:
  "(a, b) \<in> chain_edges xs \<Longrightarrow> a \<in> set (tl xs) \<and> b \<in> set (butlast xs)"
  by (induction xs rule: chain_edges.induct) auto

lemma chain_sources: "a \<in> set (tl xs) \<Longrightarrow> a \<in> Domain (chain_edges xs)"
  by (induction xs rule: chain_edges.induct) auto

lemma chain_descends: "sorted_wrt (\<lambda>x y. (y, x) \<in> (chain_edges xs)\<^sup>+) xs"
proof (induction xs rule: chain_edges.induct)
  case (1 x y xs)
  let ?E = "chain_edges (x # y # xs)"
  have mono: "(chain_edges (y # xs))\<^sup>+ \<subseteq> ?E\<^sup>+" by (intro trancl_mono_subset) auto
  have yx: "(y, x) \<in> ?E\<^sup>+" by auto
  have "(z, x) \<in> ?E\<^sup>+" if "z \<in> set xs" for z
  proof -
    have "(z, y) \<in> (chain_edges (y # xs))\<^sup>+" using 1 that by simp
    with mono yx show ?thesis by (meson subsetD trancl_trans)
  qed
  moreover have "sorted_wrt (\<lambda>x y. (y, x) \<in> ?E\<^sup>+) (y # xs)"
    by (rule sorted_wrt_mono_rel [OF _ 1]) (use mono in blast)
  ultimately show ?case using yx by simp
qed simp_all

section \<open>The order of the formatting elements after a round\<close>

lemma adoption_order_no_clone:
  assumes "in_stack_order (I1 @ fe # I2) (P @ fe # fb # U)"
    and d: "distinct (I1 @ fe # I2)" "distinct (P @ fe # fb # U)"
    and "fb \<notin> set (I1 @ I2)" "n \<notin> set (I1 @ I2)" "n \<notin> set (P @ fb # U)"
  shows "in_stack_order (I1 @ n # I2) (P @ fb # n # U)"
proof -
  note s = in_stack_order_split [OF assms(1) d]
  have "in_stack_order I2 U"
    using in_stack_order_mono [OF s(2) subseq_order.refl, of U] d(2) by simp
  then have b: "in_stack_order ([n] @ I2) ([n] @ U)"
    by (intro in_stack_order_append) (use assms(5,6) in auto)
  have a: "in_stack_order (I1 @ []) (P @ [fb])"
    by (intro in_stack_order_append) (use s assms(4) in auto)
  have "in_stack_order ((I1 @ []) @ [n] @ I2) ((P @ [fb]) @ [n] @ U)"
    by (rule in_stack_order_append [OF a b]) (use s(3,4) assms(4-6) in auto)
  then show ?thesis by simp
qed

lemma adoption_order_clones:
  assumes "in_stack_order (I1 @ fe # J1 @ c # J2) (P @ fe # C @ c # fb # U)"
    and d: "distinct (I1 @ fe # J1 @ c # J2)" "distinct (P @ fe # C @ c # fb # U)"
    and "fb \<notin> set (I1 @ J1 @ J2)" "n \<notin> set (I1 @ J1 @ c # J2)" "n \<notin> set (P @ C @ c # fb # U)"
  shows "in_stack_order (I1 @ J1 @ c # n # J2) (P @ C @ c # fb # n # U)"
proof -
  note s = in_stack_order_split [OF assms(1) d]
  have t: "in_stack_order J1 C" "in_stack_order J2 (fb # U)" "set J1 \<inter> set (fb # U) = {}" "set J2 \<inter> set C = {}"
    using in_stack_order_split [OF s(2)] d by auto
  have "in_stack_order J2 U" using in_stack_order_mono [OF t(2) subseq_order.refl, of U] d(2) by simp
  then have a: "in_stack_order ([n] @ J2) ([n] @ U)"
    by (intro in_stack_order_append) (use assms(5,6) in auto)
  have b: "in_stack_order ([c] @ []) ([c] @ [fb])"
    by (intro in_stack_order_append) (use d(2) in auto)
  have e: "in_stack_order (I1 @ J1) (P @ C)"
    by (intro in_stack_order_append) (use s t in auto)
  have f: "in_stack_order (([c] @ []) @ [n] @ J2) (([c] @ [fb]) @ [n] @ U)"
    by (rule in_stack_order_append [OF b a]) (use d assms(4-6) in auto)
  have "in_stack_order ((I1 @ J1) @ ([c] @ []) @ [n] @ J2) ((P @ C) @ ([c] @ [fb]) @ [n] @ U)"
    by (rule in_stack_order_append [OF e f]) (use s(3,4) t(3,4) d assms(4-6) in auto)
  then show ?thesis by simp
qed

section \<open>The inner loop\<close>

lemma detach_if_attached_up:
  assumes "wf_document (document tb)" "nodes (document tb) i \<noteq> None"
  shows "\<exists>d'. detach_if_attached tb i = Inr (tb\<lparr>document := d'\<rparr>) \<and> wf_document d' \<and>
     same_content (document tb) d' \<and> up d' = {(a, b). (a, b) \<in> up (document tb) \<and> a \<noteq> i}"
proof -
  obtain r where r: "nodes (document tb) i = Some r" using assms(2) by blast
  then have p: "parent (document tb) i = Inr (r_parent r)" by (simp add: parent_def node_at_def)
  show ?thesis
  proof (cases "r_parent r = None")
    case True
    then have "i \<notin> Domain (up (document tb))" using parent_None_iff [OF r] by simp
    then have "up (document tb) = {(a, b). (a, b) \<in> up (document tb) \<and> a \<noteq> i}" by auto
    moreover have "detach_if_attached tb i = Inr (tb\<lparr>document := document tb\<rparr>)"
      using True p by (simp add: detach_if_attached_def)
    moreover have "same_content (document tb) (document tb)" by (simp add: same_content_def)
    ultimately show ?thesis using assms(1) by blast
  next
    case False
    with detach_up [OF assms] p show ?thesis by (auto simp: detach_if_attached_def)
  qed
qed

text \<open>
  The state between two rounds of the inner loop: the elements \<open>B\<close> above the formatting element
  \<open>fe\<close> are still to be looked at, the clones \<open>C\<close> stand for those that were; each clone is the
  parent of the next one, the last one of the furthest block \<open>fb\<close>. \<open>d0\<close> is the document before
  the loop; \<open>ft\<close> and \<open>fa\<close> are in the entry of the formatting element.
\<close>

definition inner_inv ::
  "document \<Rightarrow> node_id list \<Rightarrow> node_id \<Rightarrow> node_id \<Rightarrow> node_id list \<Rightarrow> afe_entry list \<Rightarrow> rstring \<Rightarrow> attrs \<Rightarrow>
   node_id list \<Rightarrow> node_id list \<Rightarrow> afe_entry list \<Rightarrow> document \<Rightarrow> bool" where
  "inner_inv d0 P fe fb U A1 ft fa B C A2 d \<longleftrightarrow>
     wf_document d \<and> grows d0 d \<and>
     {(a, b). (a, b) \<in> up d \<and> a \<noteq> hd (C @ [fb])} =
       {(a, b). (a, b) \<in> up d0 \<and> a \<noteq> fb} \<union> chain_edges (C @ [fb]) \<and>
     (\<forall>c\<in>set C. nodes d0 c = None \<and> c \<in> set (afe_ids A2)) \<and>
     distinct (P @ fe # B @ C @ fb # U) \<and>
     (\<forall>i\<in>set (P @ fe # B @ fb # U). nodes d0 i \<noteq> None) \<and>
     afe_inv d (A1 @ Formatting (fe, ft, fa) # A2) (P @ fe # B @ C @ fb # U) \<and>
     unat (next_node_id d) = unat (next_node_id d0) + length C"

lemma inner_drop:
  assumes "inner_inv d0 P fe fb U A1 ft fa (B @ [n]) C A2 d" "subseq A2' A2" "set C \<subseteq> set (afe_ids A2')"
  shows "inner_inv d0 P fe fb U A1 ft fa B C A2' d"
proof -
  let ?S = "P @ fe # (B @ [n]) @ C @ fb # U" and ?S' = "P @ fe # B @ C @ fb # U"
  have "subseq ?S' ?S" using subseq_remove [of "P @ fe # B" "C @ fb # U" "[n]"] by simp
  moreover have "subseq (A1 @ Formatting (fe, ft, fa) # A2') (A1 @ Formatting (fe, ft, fa) # A2)" using assms(2) by (simp add: list_emb_append_mono)
  ultimately have "afe_inv d (A1 @ Formatting (fe, ft, fa) # A2') ?S'"
    using afe_inv_subseq [of d "A1 @ Formatting (fe, ft, fa) # A2" ?S] assms(1) unfolding inner_inv_def by blast
  then show ?thesis using assms(1,3) by (auto simp: inner_inv_def)
qed

lemma inner_last:
  assumes "inner_inv d0 P fe fb U A1 ft fa B C A2 d"
  shows "nodes d (hd (C @ [fb])) \<noteq> None"
proof (cases C)
  case Nil
  then show ?thesis using assms by (simp add: inner_inv_def grows_def)
next
  case (Cons c C')
  have "afe_inv d (A1 @ Formatting (fe, ft, fa) # A2) (P @ fe # B @ C @ fb # U)"
    using assms unfolding inner_inv_def by blast
  moreover have "c \<in> set (afe_ids (A1 @ Formatting (fe, ft, fa) # A2))"
    using assms Cons by (simp add: inner_inv_def)
  ultimately have "nodes d c \<noteq> None" by (rule afe_alive)
  then show ?thesis using Cons by simp
qed

lemma inner_clone:
  assumes inv: "inner_inv d0 P fe fb U A1 ft fa (B @ [n]) C (A3 @ Formatting (n, t, as) # A4) d"
    and room: "unat (next_node_id d) + 1 < 2 ^ 64"
    and c: "create_node d (Element t as) = (c, d1)" and tb: "document tb = d1"
  shows "\<exists>d2 d3. detach_if_attached tb (hd (C @ [fb])) = Inr (tb\<lparr>document := d2\<rparr>) \<and>
     append_child d2 c (hd (C @ [fb])) = Inr d3 \<and>
     inner_inv d0 P fe fb U A1 ft fa B (c # C) (A3 @ Formatting (c, t, as) # A4) d3"
proof -
  let ?l = "hd (C @ [fb])" and ?S = "P @ fe # B @ n # C @ fb # U"
  let ?A = "A1 @ Formatting (fe, ft, fa) # A3 @ Formatting (n, t, as) # A4" and ?A' = "A1 @ Formatting (fe, ft, fa) # A3 @ Formatting (c, t, as) # A4"
  have i: "wf_document d" "grows d0 d" "distinct ?S" "afe_inv d ?A ?S"
    "{(a, b). (a, b) \<in> up d \<and> a \<noteq> ?l} = {(a, b). (a, b) \<in> up d0 \<and> a \<noteq> fb} \<union> chain_edges (C @ [fb])"
    "\<forall>c\<in>set C. nodes d0 c = None \<and> c \<in> set (afe_ids (A3 @ Formatting (n, t, as) # A4))"
    "\<forall>i\<in>set (P @ fe # B @ fb # U). nodes d0 i \<noteq> None"
    "unat (next_node_id d) = unat (next_node_id d0) + length C"
    using inv unfolding inner_inv_def by simp_all
  note cu = create_up [OF i(1) room c]
  have new: "nodes d0 c = None" using cu(3) i(2) by (auto simp: grows_def)
  have c_out: "c \<notin> set (afe_ids ?A)" "c \<notin> set ?S" "c \<noteq> ?l"
  proof -
    show cA: "c \<notin> set (afe_ids ?A)" using afe_alive [OF i(4)] cu(3) by blast
    show "c \<noteq> ?l" using inner_last [OF inv] cu(3) by auto
    have "n \<in> set (afe_ids ?A)" by simp
    with cA have "c \<noteq> n" by blast
    moreover have "c \<notin> set C" using i(6) cA by auto
    moreover have "c \<notin> set (P @ fe # B @ fb # U)" using i(7) new by blast
    ultimately show "c \<notin> set ?S" by simp
  qed
  have l: "nodes d1 ?l \<noteq> None" using inner_last [OF inv] by (simp add: cu(4))
  obtain d2 where d2: "detach_if_attached tb ?l = Inr (tb\<lparr>document := d2\<rparr>)" "wf_document d2"
    "same_content d1 d2" "up d2 = {(a, b). (a, b) \<in> up d1 \<and> a \<noteq> ?l}"
    using detach_if_attached_up [of tb ?l] tb cu(1) l by auto
  have up2: "up d2 = {(a, b). (a, b) \<in> up d0 \<and> a \<noteq> fb} \<union> chain_edges (C @ [fb])"
    unfolding d2(4) cu(2) by (rule i(5))
  have alive: "nodes d2 ?l \<noteq> None" "nodes d2 c \<noteq> None"
    using same_content_elem_tag(4) [OF d2(3)] l by (simp_all add: cu(4))
  have c_top: "c \<notin> Domain (up d2)" "c \<notin> Range (up d2)"
    using up_in_dom [OF i(1)] cu(3) unfolding d2(4) cu(2) by blast+
  then have "(c, ?l) \<notin> (up d2)\<^sup>*" using c_out(3) by (meson Domain.DomainI converse_rtranclE)
  moreover have "?l \<notin> Domain (up d2)" by (auto simp: d2(4))
  ultimately obtain d3 where d3: "append_child d2 c ?l = Inr d3" "wf_document d3" "same_content d2 d3"
    "up d3 = insert (?l, c) (up d2)"
    using append_up [OF d2(2) alive(1) _ alive(2)] by blast
  have tag: "elem_tag d3 = elem_tag d1"
    by (simp add: same_content_elem_tag(1) [OF d3(3)] same_content_elem_tag(1) [OF d2(3)])
  have g: "grows d d1" by (auto simp: grows_def cu(4,6) elem_tag_def cu(3))
  have g3: "grows d d3"
    using g tag d2(3) d3(3) same_content_elem_tag(4) [OF d3(3)] same_content_elem_tag(4) [OF d2(3)]
    by (auto simp: grows_def same_content_def)
  then have "grows d0 d3" using i(2) by (simp add: grows_def)
  moreover have "{(a, b). (a, b) \<in> up d3 \<and> a \<noteq> c} =
      {(a, b). (a, b) \<in> up d0 \<and> a \<noteq> fb} \<union> chain_edges ((c # C) @ [fb])"
  proof -
    have "{(a, b). (a, b) \<in> up d3 \<and> a \<noteq> c} = insert (?l, c) (up d2)"
      using c_top(1) c_out(3) by (auto simp: d3(4))
    then show ?thesis unfolding up2 by (cases C) auto
  qed
  moreover have "afe_inv d3 ?A' (P @ fe # B @ c # C @ fb # U)"
  proof -
    have "in_stack_order ((afe_ids (A1 @ Formatting (fe, ft, fa) # A3)) @ c # afe_ids A4) ((P @ fe # B) @ c # C @ fb # U)"
    proof (rule in_stack_order_rename [where x = n])
      show "in_stack_order (afe_ids (A1 @ Formatting (fe, ft, fa) # A3) @ n # afe_ids A4) ((P @ fe # B) @ n # C @ fb # U)"
        "distinct (afe_ids (A1 @ Formatting (fe, ft, fa) # A3) @ n # afe_ids A4)"
        using i(4) afe_ids_append [of "A1 @ Formatting (fe, ft, fa) # A3" "Formatting (n, t, as) # A4"] by (simp_all add: afe_inv_def)
    qed (use i(3) c_out afe_ids_append [of "A1 @ Formatting (fe, ft, fa) # A3" "Formatting (n, t, as) # A4"] in auto)
    moreover have "afe_ids ?A' = afe_ids (A1 @ Formatting (fe, ft, fa) # A3) @ c # afe_ids A4"
      using afe_ids_append [of "A1 @ Formatting (fe, ft, fa) # A3" "Formatting (c, t, as) # A4"] by simp
    moreover have "elem_tag d3 c = Some t" by (simp add: tag elem_tag_def cu(4) fresh_record_def)
    ultimately show ?thesis
      using i(4) g3 c_out(1) afe_ids_append [of "A1 @ Formatting (fe, ft, fa) # A3" "Formatting (n, t, as) # A4"]
      unfolding afe_inv_def by (auto simp: grows_def)
  qed
  moreover have "distinct (P @ fe # B @ (c # C) @ fb # U)" using i(3) c_out(2) by auto
  moreover have "unat (next_node_id d3) = unat (next_node_id d0) + length (c # C)"
    using cu(5) i(8) same_content_elem_tag(3) [OF d2(3)] same_content_elem_tag(3) [OF d3(3)] by simp
  moreover have "\<forall>x\<in>set (c # C). nodes d0 x = None \<and> x \<in> set (afe_ids (A3 @ Formatting (c, t, as) # A4))"
    using i(3,6) new by auto
  ultimately have "inner_inv d0 P fe fb U A1 ft fa B (c # C) (A3 @ Formatting (c, t, as) # A4) d3"
    using d3(2) i(7) unfolding inner_inv_def by simp
  with d2(1) d3(1) show ?thesis by blast
qed

definition bookmark_of :: "node_id list \<Rightarrow> bookmark" where
  "bookmark_of C = (if C = [] then AtFormattingElement else AfterNode (last C))"

text \<open>The entry of an open element above the formatting element comes after that of the latter.\<close>

lemma entry_position:
  assumes "n \<notin> set (afe_ids xs)"
  shows "position (is_entry_of n) (xs @ Formatting (n, t, as) # ys) = Some (length xs)"
  by (rule position_append) (use assms is_entry_of_ids in \<open>auto simp: is_entry_of_iff afe_ids_entry\<close>)

lemma entry_above:
  assumes inv: "inner_inv d0 P fe fb U A1 ft fa (B @ [n]) C A2 d"
    and n: "n \<in> set (afe_ids (A1 @ Formatting (fe, ft, fa) # A2))"
  obtains A3 t as A4 where "A2 = A3 @ Formatting (n, t, as) # A4"
    "n \<notin> set (afe_ids (A1 @ Formatting (fe, ft, fa) # A3))" "n \<notin> set (afe_ids A4)"
proof -
  let ?S2 = "(B @ [n]) @ C @ fb # U"
  have i: "distinct (afe_ids A1 @ fe # afe_ids A2)" "distinct (P @ fe # ?S2)"
    "in_stack_order (afe_ids A1 @ fe # afe_ids A2) (P @ fe # ?S2)"
    using inv by (simp_all add: inner_inv_def afe_inv_def)
  from in_stack_order_split(3) [OF i(3,1,2)] have "n \<notin> set (afe_ids A1)" by auto
  moreover have "n \<noteq> fe" using i(2) by auto
  ultimately have n2: "n \<in> set (afe_ids A2)" using n by simp
  then obtain t as where "Formatting (n, t, as) \<in> set A2" by (auto simp: afe_ids_entry)
  then obtain A3 A4 where A2: "A2 = A3 @ Formatting (n, t, as) # A4" by (meson split_list)
  with i(1) \<open>n \<noteq> fe\<close> \<open>n \<notin> set (afe_ids A1)\<close> show thesis by (intro that [OF A2]) auto
qed

lemma drop_from_stack_middle:
  assumes "open_elements tb = xs @ n # ys" "n \<notin> set xs"
  shows "drop_from_stack tb n = tb\<lparr>open_elements := xs @ ys\<rparr>"
proof -
  have "position (\<lambda>x. x = n) (open_elements tb) = Some (length xs)"
    unfolding assms(1) by (rule position_append) (use assms(2) in auto)
  then show ?thesis by (simp add: drop_from_stack_def assms(1))
qed

abbreviation inner_state ::
  "tree_builder \<Rightarrow> node_id list \<Rightarrow> node_id \<Rightarrow> node_id \<Rightarrow> node_id list \<Rightarrow> afe_entry list \<Rightarrow> rstring \<Rightarrow> attrs \<Rightarrow>
   node_id list \<Rightarrow> node_id list \<Rightarrow> afe_entry list \<Rightarrow> document \<Rightarrow> tree_builder" where
  "inner_state tb0 P fe fb U A1 ft fa B C A2 d \<equiv>
     tb0\<lparr>document := d, open_elements := P @ fe # B @ C @ fb # U,
         active_formatting := A1 @ Formatting (fe, ft, fa) # A2\<rparr>"

lemma update_order:
  fixes tb :: tree_builder
  shows "tb\<lparr>open_elements := S, document := d\<rparr> = tb\<lparr>document := d, open_elements := S\<rparr>"
    "tb\<lparr>active_formatting := A, document := d\<rparr> = tb\<lparr>document := d, active_formatting := A\<rparr>"
    "tb\<lparr>active_formatting := A, open_elements := S\<rparr> = tb\<lparr>open_elements := S, active_formatting := A\<rparr>"
  by simp_all

lemma adoption_inner_ok:
  assumes "inner_inv d0 P fe fb U A1 ft fa B C A2 d" "length C \<le> n" "length C \<le> 3"
    and "unat (next_node_id d0) + 3 < 2 ^ 64"
  shows "ok_res (adoption_inner fb (rev B) n (bookmark_of C) (hd (C @ [fb])) (inner_state tb0 P fe fb U A1 ft fa B C A2 d))
    (\<lambda>(bm, l, tb). \<exists>C' A2' d'. inner_inv d0 P fe fb U A1 ft fa [] C' A2' d' \<and> bm = bookmark_of C' \<and>
       l = hd (C' @ [fb]) \<and> length C' \<le> 3 \<and> length A2' \<le> length A2 \<and>
       tb = inner_state tb0 P fe fb U A1 ft fa [] C' A2' d')"
  using assms(1-3)
proof (induction B arbitrary: C A2 d n rule: rev_induct)
  case Nil
  then show ?case by auto
next
  case (snoc x B)
  let ?A = "A1 @ Formatting (fe, ft, fa) # A2"
  have S: "distinct (P @ fe # (B @ [x]) @ C @ fb # U)" using snoc.prems(1) by (simp add: inner_inv_def)
  have drop: "drop_from_stack (tb0\<lparr>document := d, open_elements := P @ fe # B @ x # C @ fb # U,
      active_formatting := A\<rparr>) x = tb0\<lparr>document := d, open_elements := P @ fe # B @ C @ fb # U, active_formatting := A\<rparr>" for A
    using drop_from_stack_middle [of _ "P @ fe # B" x "C @ fb # U"] S by auto
  have pos_x: "position (\<lambda>y. y = x) (P @ fe # B @ x # C @ fb # U) = Some (length (P @ fe # B))"
    using position_append [of "\<lambda>y. y = x" x "P @ fe # B" "C @ fb # U"] S by auto
  show ?case
  proof (cases "x \<in> set (afe_ids ?A)")
    case False
    then have "position (is_entry_of x) ?A = None" by (simp only: position_None) (metis is_entry_of_ids)
    moreover have "inner_inv d0 P fe fb U A1 ft fa B C A2 d"
      using inner_drop [OF snoc.prems(1) subseq_order.refl] snoc.prems(1) by (auto simp: inner_inv_def)
    ultimately show ?thesis
      using snoc.IH [of C A2 d "Suc n"] snoc.prems(2,3) by (simp add: Let_def drop)
  next
    case True
    then obtain A3 t as A4 where A2: "A2 = A3 @ Formatting (x, t, as) # A4"
      "x \<notin> set (afe_ids (A1 @ Formatting (fe, ft, fa) # A3))" "x \<notin> set (afe_ids A4)"
      by (rule entry_above [OF snoc.prems(1)])
    let ?p = "length (A1 @ Formatting (fe, ft, fa) # A3)"
    have pos: "position (is_entry_of x) ?A = Some ?p"
      using entry_position [OF A2(2), of t as A4] by (simp add: A2(1))
    have A: "?A = (A1 @ Formatting (fe, ft, fa) # A3) @ Formatting (x, t, as) # A4" by (simp add: A2(1))
    show ?thesis
    proof (cases "3 < Suc n")
      case True
      have "inner_inv d0 P fe fb U A1 ft fa B C (A3 @ A4) d"
        by (rule inner_drop [OF snoc.prems(1)])
          (use subseq_remove [of A3 A4 "[Formatting (x, t, as)]"] snoc.prems(1) A2(1) in \<open>auto simp: inner_inv_def\<close>)
      moreover have "remove_at ?p ?A = A1 @ Formatting (fe, ft, fa) # A3 @ A4"
        unfolding A by (simp only: edit_middle) simp
      ultimately show ?thesis
        using snoc.IH [of C "A3 @ A4" d "Suc n"] snoc.prems(2,3) pos True A2(1)
        by (simp add: Let_def drop) (fastforce elim: ok_res_mono)
    next
      case False
      obtain c d1 where c: "create_node d (Element t as) = (c, d1)" by fastforce
      let ?A' = "A1 @ Formatting (fe, ft, fa) # A3 @ Formatting (c, t, as) # A4"
      let ?tb = "inner_state tb0 P fe fb U A1 ft fa B (c # C) (A3 @ Formatting (c, t, as) # A4)"
      have "unat (next_node_id d) + 1 < 2 ^ 64"
        using snoc.prems(1,2) False assms(4) by (auto simp: inner_inv_def)
      from inner_clone [OF snoc.prems(1) [unfolded A2(1)] this c, of "?tb d1"] obtain d2 d3 where
        d: "detach_if_attached (?tb d1) (hd (C @ [fb])) = Inr (?tb d2)" "append_child d2 c (hd (C @ [fb])) = Inr d3"
        "inner_inv d0 P fe fb U A1 ft fa B (c # C) (A3 @ Formatting (c, t, as) # A4) d3"
        by (auto simp: update_order)
      have at: "afe_formatting_at (inner_state tb0 P fe fb U A1 ft fa (B @ [x]) C A2 d) ?p = Inr (x, t, as)"
        unfolding A by (simp add: afe_formatting_at_def nth_append)
      have upd: "?A[?p := Formatting (c, t, as)] = ?A'"
        unfolding A by (simp only: list_update_length) simp
      have S': "(P @ fe # B @ x # C @ fb # U)[length (P @ fe # B) := c] = P @ fe # B @ c # C @ fb # U"
        using list_update_length [of "P @ fe # B" x "C @ fb # U" c] by simp
      have bm: "(if hd (C @ [fb]) = fb then AfterNode c else bookmark_of C) = bookmark_of (c # C)"
        using S by (cases C) (auto simp: bookmark_of_def)
      have "adoption_inner fb (rev (B @ [x])) n (bookmark_of C) (hd (C @ [fb]))
          (inner_state tb0 P fe fb U A1 ft fa (B @ [x]) C A2 d) =
        adoption_inner fb (rev B) (Suc n) (bookmark_of (c # C)) (hd ((c # C) @ [fb])) (?tb d3)"
        using False pos at c d(1,2) pos_x upd S' bm by (simp add: Let_def update_order)
      moreover have "length A2 = length (A3 @ Formatting (c, t, as) # A4)" by (simp add: A2(1))
      ultimately show ?thesis
        using snoc.IH [OF d(3), of "Suc n"] snoc.prems(2) False by simp
    qed
  qed
qed

section \<open>Attaching the last node\<close>

text \<open>The parent relation once the last node is detached, at the end of the inner loop.\<close>

definition inner_edges :: "document \<Rightarrow> node_id \<Rightarrow> node_id list \<Rightarrow> (node_id \<times> node_id) set" where
  "inner_edges d0 fb C = {(a, b). (a, b) \<in> up d0 \<and> a \<noteq> fb} \<union> chain_edges (C @ [fb])"

lemma chain_edges_clones: "(a, b) \<in> chain_edges (C @ [fb]) \<Longrightarrow> a \<in> insert fb (set C) \<and> b \<in> set C"
  using chain_edges_nodes [of a b "C @ [fb]"] by (cases C) auto

lemma fresh_not_reached:
  assumes "wf_document d" "nodes d x \<noteq> None" "nodes d y = None"
  shows "(x, y) \<notin> (up d)\<^sup>*"
  using up_in_dom(2) [OF assms(1)] assms(2,3) by (metis rtranclE)

lemma last_node_not_above:
  assumes "wf_document d0" "nodes d0 q \<noteq> None" "(q, fb) \<notin> (up d0)\<^sup>*" "\<And>c. c \<in> set C \<Longrightarrow> nodes d0 c = None"
  shows "(q, hd (C @ [fb])) \<notin> (inner_edges d0 fb C)\<^sup>*"
proof
  let ?F = "insert fb (set C)"
  assume path: "(q, hd (C @ [fb])) \<in> (inner_edges d0 fb C)\<^sup>*"
  have q: "q \<notin> ?F" using assms(2-4) by auto
  have "(q, hd (C @ [fb])) \<in> (up d0)\<^sup>* \<or> (q \<in> ?F \<or> (q, fb) \<in> (up d0)\<^sup>*) \<and>
      (hd (C @ [fb]) \<in> ?F \<or> (fb, hd (C @ [fb])) \<in> (up d0)\<^sup>*)"
  proof (rule reroute [OF _ _ path])
    show "?F \<inter> Range (up d0) \<subseteq> {fb}" using assms(4) up_in_dom(2) [OF assms(1)] by blast
    show "inner_edges d0 fb C \<subseteq> {(a, b). a \<notin> ?F \<and> ((a, b) \<in> up d0 \<or> (a, fb) \<in> up d0 \<and> b \<in> ?F)} \<union>
        {(a, b). a \<in> ?F \<and> (b \<in> ?F \<or> b = fb)}"
      using assms(4) up_in_dom(1) [OF assms(1)] chain_edges_clones by (fastforce simp: inner_edges_def)
  qed
  with q assms(3) have "(q, hd (C @ [fb])) \<in> (up d0)\<^sup>*" by blast
  then show False
    using assms(3) fresh_not_reached [OF assms(1,2)] assms(4) by (cases C) auto
qed

text \<open>What the algorithm knows of the stack \<open>P @ fe # B @ fb # U\<close> when it starts.\<close>

definition adoption_ready ::
  "document \<Rightarrow> node_id list \<Rightarrow> node_id \<Rightarrow> node_id list \<Rightarrow> node_id \<Rightarrow> node_id list \<Rightarrow> bool" where
  "adoption_ready d P fe B fb U \<longleftrightarrow> wf_document d \<and> P \<noteq> [] \<and> stack_inv d (P @ fe # B @ fb # U) \<and>
     wf_stack (tags d (P @ fe # B @ fb # U)) \<and> the (elem_tag d fe) \<in> set FORMATTING_ELEMENTS \<and>
     chars ''table'' \<notin> set (tags d (B @ fb # U))"

lemma adoption_readyD:
  assumes "adoption_ready d P fe B fb U"
  shows "x \<in> set P \<Longrightarrow> y \<in> set (fb # U) \<Longrightarrow> (x, y) \<notin> (up d)\<^sup>*"
    "x \<in> set (P @ fe # B @ fb # U) \<Longrightarrow> elem_tag d x \<noteq> None \<and> x \<in> Domain (up d) \<and> nodes d x \<noteq> None"
    "distinct (P @ fe # B @ fb # U)" "wf_stack (tags d P)"
    "x \<in> set (fe # B @ fb # U) \<Longrightarrow> elem_tag d x \<noteq> Some (chars ''table'')"
proof -
  note a = assms [unfolded adoption_ready_def]
  show "distinct (P @ fe # B @ fb # U)" using a stack_inv_distinct by blast
  show "wf_stack (tags d P)" using a by (auto intro: wf_stack_prefix)
  show "(x, y) \<notin> (up d)\<^sup>*" if "x \<in> set P" "y \<in> set (fb # U)"
    using a that by (auto simp: stack_inv_def sorted_wrt_append)
  show "elem_tag d x \<noteq> None \<and> x \<in> Domain (up d) \<and> nodes d x \<noteq> None" if "x \<in> set (P @ fe # B @ fb # U)"
  proof -
    have si: "stack_inv d (P @ fe # B @ fb # U)" using a by blast
    from stack_inv_alive [OF si that] si that show ?thesis unfolding stack_inv_def by blast
  qed
  show "elem_tag d x \<noteq> Some (chars ''table'')" if x: "x \<in> set (fe # B @ fb # U)"
  proof (cases "x = fe")
    case True
    then show ?thesis using a by (auto simp: FORMATTING_ELEMENTS_def)
  next
    case False
    then have "the (elem_tag d x) \<in> set (tags d (B @ fb # U))" using x by (auto simp: tags_def)
    then show ?thesis using a by auto
  qed
qed

lemma tabular_table:
  assumes "adoption_ready d P fe B fb U" "the (elem_tag d (last P)) \<in> anchors" "the (elem_tag d (last P)) \<noteq> chars ''html''"
  shows "\<exists>x\<in>set P. elem_tag d x = Some (chars ''table'')"
proof -
  have "last P \<in> set P" using assms(1) by (simp add: adoption_ready_def)
  then have "chars ''table'' \<in> set (tags d P)"
    using table_on_stack [OF adoption_readyD(4) [OF assms(1)] _ assms(2,3)] by (auto simp: tags_def)
  then obtain x where "x \<in> set P" "the (elem_tag d x) = chars ''table''" by (auto simp: tags_def)
  with adoption_readyD(2) [OF assms(1), of x] show ?thesis by auto
qed

end
