(* ===== verification/Html_Adoption_Agency.thy ===== *)
theory Html_Adoption_Agency
  imports Html_Adoption
begin

text \<open>
  The rest of a round of the adoption agency, after its inner loop: the last node goes to its new
  parent, the children of the furthest block to a clone of the formatting element. Then the whole
  algorithm: it returns and keeps the invariant of the tree builder.
\<close>

section \<open>Attaching the last node\<close>

lemma clone_tag:
  assumes "inner_inv d0 P fe fb U A1 ft fa B C A2 d" "c \<in> set C"
  shows "\<exists>t\<in>set FORMATTING_ELEMENTS. elem_tag d c = Some t"
proof -
  have "c \<in> set (afe_ids A2)" using assms by (simp add: inner_inv_def)
  then obtain t as where "Formatting (c, t, as) \<in> set A2" by (auto simp: afe_ids_entry)
  with assms(1) show ?thesis by (auto simp: inner_inv_def afe_inv_def)
qed

lemma inner_old_tag:
  assumes "adoption_ready d0 P fe B fb U" "inner_inv d0 P fe fb U A1 ft fa B' C A2 d"
    and "x \<in> set (P @ fe # B @ fb # U)"
  shows "elem_tag d x = elem_tag d0 x"
  using adoption_readyD(2) [OF assms(1,3)] assms(2) by (auto simp: inner_inv_def grows_def)

text \<open>A parent that is no descendant of the furthest block takes the last node.\<close>

lemma attach_last_node:
  assumes inv: "inner_inv d0 P fe fb U A1 ft fa [] C A2 d"
    and d0: "wf_document d0" and q: "nodes d0 q \<noteq> None" "(q, fb) \<notin> (up d0)\<^sup>*"
    and d1: "wf_document d1" "same_content d d1" "up d1 = inner_edges d0 fb C"
    and ref: "\<And>r. ref = Some r \<Longrightarrow> (r, q) \<in> up d1"
    and l: "hd (C @ [fb]) \<notin> Domain (up d1)"
  shows "\<exists>d2. insert_before d1 q (hd (C @ [fb])) ref = Inr d2 \<and> wf_document d2 \<and> same_content d d2 \<and>
     up d2 = insert (hd (C @ [fb]), q) (inner_edges d0 fb C)"
proof -
  have "nodes d1 q \<noteq> None"
    using q(1) inv same_content_elem_tag(4) [OF d1(2)] by (auto simp: inner_inv_def grows_def)
  moreover have "nodes d1 (hd (C @ [fb])) \<noteq> None"
    using inner_last [OF inv] same_content_elem_tag(4) [OF d1(2)] by simp
  moreover have "(q, hd (C @ [fb])) \<notin> (up d1)\<^sup>*"
    unfolding d1(3) by (rule last_node_not_above [OF d0 q]) (use inv in \<open>auto simp: inner_inv_def\<close>)
  ultimately obtain d2 where d2: "insert_before d1 q (hd (C @ [fb])) ref = Inr d2" "wf_document d2"
    "same_content d1 d2" "up d2 = insert (hd (C @ [fb]), q) (up d1)"
    using attach_up [OF d1(1) _ l _ _ ref] by blast
  moreover have "same_content d d2" using d1(2) d2(3) by (simp add: same_content_def)
  ultimately show ?thesis by (simp add: d1(3))
qed

lemma foster_table:
  assumes ready: "adoption_ready d0 P fe B fb U" and inv: "inner_inv d0 P fe fb U A1 ft fa [] C A2 d"
    and tb: "open_elements tb = P @ fe # C @ fb # U" "elem_tag (document tb) = elem_tag d"
    and table: "\<exists>x\<in>set P. elem_tag d0 x = Some (chars ''table'')"
  shows "\<exists>x\<in>set P. find_res (has_tag tb [chars ''table'']) (rev (open_elements tb)) = Inr (Some x)"
proof -
  let ?Q = "\<lambda>i. elem_tag (document tb) i = Some (chars ''table'')"
  note old = inner_old_tag [OF ready inv] and new = clone_tag [OF inv]
  have elem: "elem_tag (document tb) i \<noteq> None" if "i \<in> set (open_elements tb)" for i
    using that old adoption_readyD(2) [OF ready] new unfolding tb by fastforce
  have "find_res (has_tag tb [chars ''table'']) (rev (open_elements tb)) = Inr (List.find ?Q (rev (open_elements tb)))"
    using elem by (intro find_res_total) (fastforce simp: has_tag_elem)
  moreover obtain x where x: "List.find ?Q (rev (open_elements tb)) = Some x"
    using table old by (fastforce simp: find_None_iff tb)
  moreover from x have "x \<in> set (open_elements tb)" "?Q x"
    by (auto simp: find_Some_iff) (metis length_rev nth_mem set_rev)
  then have "x \<in> set P"
    using adoption_readyD(5) [OF ready, of x] old [of x] new [of x] unfolding tb
    by (auto simp: FORMATTING_ELEMENTS_def)
  ultimately show ?thesis by auto
qed

text \<open>The new parent: the common ancestor, or the parent of the table it belongs to.\<close>

definition new_parent :: "document \<Rightarrow> node_id \<Rightarrow> node_id list \<Rightarrow> node_id \<Rightarrow> bool" where
  "new_parent d0 fb U q \<longleftrightarrow> nodes d0 q \<noteq> None \<and> (\<forall>y\<in>set (fb # U). (q, y) \<notin> (up d0)\<^sup>*)"

lemma new_parent_common:
  assumes "adoption_ready d0 P fe B fb U"
  shows "new_parent d0 fb U (last P)"
proof -
  have "last P \<in> set P" using assms by (simp add: adoption_ready_def)
  with adoption_readyD(1,2) [OF assms, of "last P"] show ?thesis by (simp add: new_parent_def)
qed

lemma new_parent_table:
  assumes "adoption_ready d0 P fe B fb U" "x \<in> set P" "(x, q) \<in> up d0"
  shows "new_parent d0 fb U q"
proof -
  have "(q, y) \<notin> (up d0)\<^sup>*" if "y \<in> set (fb # U)" for y
    using adoption_readyD(1) [OF assms(1,2) that] assms(3) by (meson converse_rtrancl_into_rtrancl)
  moreover have "wf_document d0" using assms(1) by (simp add: adoption_ready_def)
  ultimately show ?thesis using up_in_dom(2) assms(3) by (simp add: new_parent_def)
qed

lemma reparent_ok:
  assumes ready: "adoption_ready d0 P fe B fb U" and inv: "inner_inv d0 P fe fb U A1 ft fa [] C A2 d"
    and tb: "document tb = d" "open_elements tb = P @ fe # C @ fb # U"
  shows "ok_res (adoption_reparent tb (last P) (hd (C @ [fb]))) (\<lambda>tb'. \<exists>d2 q. tb' = tb\<lparr>document := d2\<rparr> \<and>
     wf_document d2 \<and> same_content d d2 \<and> new_parent d0 fb U q \<and>
     up d2 = insert (hd (C @ [fb]), q) (inner_edges d0 fb C))"
proof -
  let ?l = "hd (C @ [fb])"
  have d0: "wf_document d0" using ready by (simp add: adoption_ready_def)
  have wf: "wf_document d" "{(a, b). (a, b) \<in> up d \<and> a \<noteq> ?l} = inner_edges d0 fb C"
    using inv by (simp_all add: inner_inv_def inner_edges_def)
  obtain d1 where d1: "detach_if_attached tb ?l = Inr (tb\<lparr>document := d1\<rparr>)" "wf_document d1"
    "same_content d d1" "up d1 = inner_edges d0 fb C" "?l \<notin> Domain (up d1)"
    using detach_if_attached_up [of tb ?l] wf inner_last [OF inv] tb(1) by auto
  have tags1: "elem_tag d1 = elem_tag d" by (rule same_content_elem_tag(1) [OF d1(3)])
  let ?tb = "tb\<lparr>document := d1\<rparr>"
  have "last P \<in> set P" using ready by (simp add: adoption_ready_def)
  then obtain t where t: "elem_tag d0 (last P) = Some t" "elem_tag d1 (last P) = Some t"
    using adoption_readyD(2) [OF ready, of "last P"] inner_old_tag [OF ready inv, of "last P"] tags1 by auto
  let ?T = "map chars [''table'', ''tbody'', ''thead'', ''tfoot'', ''tr'']"
  have ctx: "is_table_context ?tb (last P) = Inr (t \<in> set ?T)"
    using t(2) by (simp add: is_table_context_def has_tag_elem)
  note attach = attach_last_node [OF inv d0 _ _ d1(2-4) _ d1(5)]
  show ?thesis
  proof (cases "t \<in> set ?T")
    case False
    have q: "new_parent d0 fb U (last P)" by (rule new_parent_common [OF ready])
    then obtain d2 where "append_child d1 (last P) ?l = Inr d2" "wf_document d2" "same_content d d2"
      "up d2 = insert (?l, last P) (inner_edges d0 fb C)"
      using attach [of "last P" None] by (auto simp: new_parent_def insert_before_def)
    with q False show ?thesis by (auto simp: adoption_reparent_def d1(1) ctx)
  next
    case True
    then have "\<exists>x\<in>set P. elem_tag d0 x = Some (chars ''table'')"
      using tabular_table [OF ready] t(1) by (auto simp: anchors_def table_sections_def)
    from foster_table [OF ready inv _ _ this, of "?tb\<lparr>foster_parenting := True\<rparr>"]
    obtain x where x: "x \<in> set P" "find_res (has_tag (?tb\<lparr>foster_parenting := True\<rparr>) [chars ''table''])
        (rev (open_elements tb)) = Inr (Some x)" using tb(2) tags1 by auto
    then have "x \<in> Domain (up d0)" "x \<noteq> fb"
      using adoption_readyD(2,3) [OF ready] by auto
    then obtain q where q: "(x, q) \<in> up d0" "(x, q) \<in> up d1" by (auto simp: d1(4) inner_edges_def)
    from q(2) have "parent d1 x = Inr (Some q)"
      by (auto simp: up_def parent_rel_def parent_def node_at_def)
    then have target: "foster_parent_target (?tb\<lparr>foster_parenting := True\<rparr>) = Inr (q, Some x)"
      using x(2) by (simp add: foster_parent_target_def)
    have n: "new_parent d0 fb U q" by (rule new_parent_table [OF ready x(1) q(1)])
    then obtain d2 where "insert_before d1 q ?l (Some x) = Inr d2" "wf_document d2" "same_content d d2"
      "up d2 = insert (?l, q) (inner_edges d0 fb C)"
      using attach [of q "Some x"] q(2) by (auto simp: new_parent_def)
    with n True target show ?thesis by (auto simp: adoption_reparent_def d1(1) ctx)
  qed
qed

section \<open>Moving the children\<close>

lemma move_children_up:
  assumes "wf_document d" "nodes d n \<noteq> None" "n \<notin> Domain (up d)" "\<And>c. c \<in> set cs \<Longrightarrow> nodes d c \<noteq> None \<and> c \<noteq> n"
  shows "\<exists>d'. move_children d n cs = Inr d' \<and> wf_document d' \<and> same_content d d' \<and>
     up d' = {(a, b). (a, b) \<in> up d \<and> a \<notin> set cs} \<union> set cs \<times> {n}"
  using assms
proof (induction cs arbitrary: d)
  case Nil
  then show ?case by (auto simp: same_content_def)
next
  case (Cons c cs)
  obtain d1 where d1: "detach d c = Inr d1" "wf_document d1" "same_content d d1"
    "up d1 = {(a, b). (a, b) \<in> up d \<and> a \<noteq> c}"
    using detach_up [OF Cons.prems(1), of c] Cons.prems(4) by auto
  have alive1: "nodes d1 i \<noteq> None" if "nodes d i \<noteq> None" for i
    using same_content_elem_tag(4) [OF d1(3)] that by simp
  have "(n, c) \<notin> (up d1)\<^sup>*"
    using Cons.prems(3,4) unfolding d1(4) by (auto elim: converse_rtranclE)
  then obtain d2 where d2: "append_child d1 n c = Inr d2" "wf_document d2" "same_content d1 d2"
    "up d2 = insert (c, n) (up d1)"
    using append_up [OF d1(2), of c n] alive1 Cons.prems(2,4) d1(4) by auto
  have alive2: "nodes d2 i \<noteq> None" if "nodes d i \<noteq> None" for i
    using same_content_elem_tag(4) [OF d2(3)] alive1 [OF that] by simp
  obtain d' where d': "move_children d2 n cs = Inr d'" "wf_document d'" "same_content d2 d'"
    "up d' = {(a, b). (a, b) \<in> up d2 \<and> a \<notin> set cs} \<union> set cs \<times> {n}"
    using Cons.IH [OF d2(2)] alive2 Cons.prems by (auto simp: d2(4) d1(4))
  moreover have "same_content d d'" using d1(3) d2(3) d'(3) by (simp add: same_content_def)
  moreover have "up d' = {(a, b). (a, b) \<in> up d \<and> a \<notin> set (c # cs)} \<union> set (c # cs) \<times> {n}"
    unfolding d'(4) d2(4) d1(4) by auto
  ultimately show ?case using d1(1) d2(1) by auto
qed

text \<open>The new node between a node and its children.\<close>

lemma interpose_up:
  assumes wf: "wf_document d" and m: "nodes d m \<noteq> None" and n: "nodes d n \<noteq> None" "n \<noteq> m"
    and free: "n \<notin> Domain (up d)" "n \<notin> Range (up d)"
    and cs: "\<And>c. c \<in> set cs \<longleftrightarrow> (c, m) \<in> up d"
  shows "\<exists>d1 d2. move_children d n cs = Inr d1 \<and> append_child d1 m n = Inr d2 \<and> wf_document d2 \<and>
     same_content d d2 \<and> up d2 = insert (n, m) ({(a, b). (a, b) \<in> up d \<and> b \<noteq> m} \<union> set cs \<times> {n})"
proof -
  have c: "nodes d c \<noteq> None \<and> c \<noteq> n" if "c \<in> set cs" for c
    using that cs up_in_dom(1) [OF wf] free(1) by blast
  obtain d1 where d1: "move_children d n cs = Inr d1" "wf_document d1" "same_content d d1"
    "up d1 = {(a, b). (a, b) \<in> up d \<and> a \<notin> set cs} \<union> set cs \<times> {n}"
    using move_children_up [OF wf n(1) free(1) c] by blast
  have e: "up d1 = {(a, b). (a, b) \<in> up d \<and> b \<noteq> m} \<union> set cs \<times> {n}"
    unfolding d1(4) using cs up_single by blast
  have path: "(m, y) \<in> (up d)\<^sup>* \<or> (\<exists>c\<in>set cs. (m, c) \<in> (up d)\<^sup>*)" if "(m, y) \<in> (up d1)\<^sup>*" for y
    using that
  proof (induction rule: rtrancl_induct)
    case (step y z)
    then show ?case by (auto simp: d1(4) intro: rtrancl_into_rtrancl)
  qed simp
  have "(m, n) \<notin> (up d1)\<^sup>*"
  proof
    assume "(m, n) \<in> (up d1)\<^sup>*"
    then consider "(m, n) \<in> (up d)\<^sup>*" | c where "c \<in> set cs" "(m, c) \<in> (up d)\<^sup>*" using path by blast
    then show False
    proof cases
      case 1
      then show ?thesis using n(2) free(2) by (auto elim: rtranclE)
    next
      case 2
      then have "(m, m) \<in> (up d)\<^sup>+" using cs by (meson rtrancl_into_trancl1)
      then show ?thesis using acyclic_up [OF wf] by (simp add: acyclic_def)
    qed
  qed
  moreover have "n \<notin> Domain (up d1)" using free(1) c by (auto simp: d1(4))
  ultimately obtain d2 where d2: "append_child d1 m n = Inr d2" "wf_document d2" "same_content d1 d2"
    "up d2 = insert (n, m) (up d1)"
    using append_up [OF d1(2), of n m] same_content_elem_tag(4) [OF d1(3)] m n(1) by auto
  moreover have "same_content d d2" using d1(3) d2(3) by (simp add: same_content_def)
  ultimately show ?thesis using d1(1) e by auto
qed

section \<open>The stack after a round\<close>

text \<open>
  The parent relation at the end: \<open>up2\<close> is the one after the last node was attached to \<open>q\<close>,
  and the new node \<open>n\<close> stands between the furthest block and its children.
\<close>

definition round_edges ::
  "document \<Rightarrow> node_id \<Rightarrow> node_id list \<Rightarrow> node_id \<Rightarrow> node_id \<Rightarrow> (node_id \<times> node_id) set" where
  "round_edges d0 fb C q n =
     (let up2 = insert (hd (C @ [fb]), q) (inner_edges d0 fb C)
      in insert (n, fb) ({(a, b). (a, b) \<in> up2 \<and> b \<noteq> fb} \<union> {c. (c, fb) \<in> up2} \<times> {n}))"

lemma round_edges_shape:
  assumes d0: "wf_document d0" and fresh: "\<And>c. c \<in> set C \<Longrightarrow> nodes d0 c = None" "nodes d0 n = None"
    and "q \<noteq> fb" "fb \<notin> set C" "F = insert n (insert fb (set C))"
  shows "round_edges d0 fb C q n \<subseteq> {(a, b). a \<notin> F \<and> ((a, b) \<in> up d0 \<or> (a, fb) \<in> up d0 \<and> b \<in> F)} \<union>
    {(a, b). a \<in> F \<and> (b \<in> F \<or> b = q)}"
proof -
  have old: "a \<notin> F" if "(a, b) \<in> up d0" "a \<noteq> fb" for a b
    using up_in_dom(1) [OF d0 that(1)] that(2) fresh assms(6) by auto
  have l: "hd (C @ [fb]) \<in> F" by (cases C) (auto simp: assms(6))
  have chain: "a \<in> F \<and> b \<in> F \<and> b \<noteq> fb" if "(a, b) \<in> chain_edges (C @ [fb])" for a b
    using chain_edges_clones [OF that] assms(5,6) by auto
  have in_F: "n \<in> F" "fb \<in> F" by (simp_all add: assms(6))
  show ?thesis
  proof (rule subsetI, clarify)
    fix a b
    assume e: "(a, b) \<in> round_edges d0 fb C q n" and no: "\<not> (a \<in> F \<and> (b \<in> F \<or> b = q))"
    from e consider "(a, b) = (n, fb)" | "(a, b) = (hd (C @ [fb]), q)" | "(a, b) \<in> inner_edges d0 fb C" "b \<noteq> fb"
      | "b = n" "(a, fb) \<in> inner_edges d0 fb C"
      using assms(4) unfolding round_edges_def Let_def by blast
    then show "a \<notin> F \<and> ((a, b) \<in> up d0 \<or> (a, fb) \<in> up d0 \<and> b \<in> F)"
    proof cases
      case 3
      with no chain show ?thesis unfolding inner_edges_def using old by blast
    next
      case 4
      with no chain in_F show ?thesis unfolding inner_edges_def using old by blast
    qed (use no l in_F in auto)
  qed
qed

lemma round_domain:
  assumes "a \<in> Domain (up d0) \<or> a \<in> set C \<or> a = fb \<or> a = n"
  shows "a \<in> Domain (round_edges d0 fb C q n)"
proof -
  let ?up2 = "insert (hd (C @ [fb]), q) (inner_edges d0 fb C)"
  have "a = n \<or> a \<in> Domain ?up2"
  proof (cases "a \<in> set (C @ [fb])")
    case True
    then consider "a = hd (C @ [fb])" | "a \<in> set (tl (C @ [fb]))" by (cases "C @ [fb]") auto
    then show ?thesis
    proof cases
      case 2
      then show ?thesis using chain_sources [of a "C @ [fb]"] by (auto simp: inner_edges_def)
    qed auto
  next
    case False
    then show ?thesis using assms by (auto simp: inner_edges_def)
  qed
  then show ?thesis unfolding round_edges_def Let_def by (auto simp: Domain_iff)
qed

lemma round_chain:
  assumes "fb \<notin> set C" "n \<notin> set C"
  shows "sorted_wrt (\<lambda>x y. (y, x) \<in> (round_edges d0 fb C q n)\<^sup>+) (C @ [fb, n])"
proof -
  have "chain_edges ((C @ [fb]) @ [n]) = insert (n, fb) (chain_edges (C @ [fb]))" for C :: "node_id list"
    by (induction C rule: chain_edges.induct) auto
  then have "chain_edges (C @ [fb, n]) \<subseteq> round_edges d0 fb C q n"
    using chain_edges_clones [of _ _ C fb] assms(1) by (auto simp: round_edges_def inner_edges_def)
  then have "(chain_edges (C @ [fb, n]))\<^sup>+ \<subseteq> (round_edges d0 fb C q n)\<^sup>+"
    by (rule trancl_mono_subset)
  then show ?thesis by (intro sorted_wrt_mono_rel [OF _ chain_descends]) blast
qed

lemma sorted_wrt_strengthen:
  assumes "sorted_wrt P xs" "\<And>x y. x \<in> set xs \<Longrightarrow> y \<in> set xs \<Longrightarrow> P x y \<Longrightarrow> Q x y"
  shows "sorted_wrt Q xs"
  using assms by (induction xs) auto

lemma round_stack_inv:
  assumes ready: "adoption_ready d0 P fe B fb U"
    and fresh: "\<And>c. c \<in> set C \<Longrightarrow> nodes d0 c = None" "nodes d0 n = None" "n \<notin> set C"
    and q: "new_parent d0 fb U q" and d: "wf_document d" "up d = round_edges d0 fb C q n"
    and elem: "\<And>x. x \<in> set (P @ C @ fb # n # U) \<Longrightarrow> elem_tag d x \<noteq> None"
  shows "stack_inv d (P @ C @ fb # n # U)"
proof -
  let ?F = "insert n (insert fb (set C))" and ?R = "(up d0)\<^sup>*" and ?R' = "(up d)\<^sup>*"
  have d0: "wf_document d0" using ready by (simp add: adoption_ready_def)
  have old: "nodes d0 x \<noteq> None" "x \<in> Domain (up d0)" if "x \<in> set (P @ fb # U)" for x
    using adoption_readyD(2) [OF ready, of x] that by auto
  have dist: "fb \<notin> set C" "fb \<notin> set U" "fb \<notin> set P" "q \<noteq> fb"
    using fresh(1) old [of fb] adoption_readyD(3) [OF ready] q by (auto simp: new_parent_def)
  have reach: "(x, y) \<in> ?R \<or> (x \<in> ?F \<or> (x, fb) \<in> ?R) \<and> (y \<in> ?F \<or> (q, y) \<in> ?R)" if "(x, y) \<in> ?R'" for x y
  proof (rule reroute [OF _ _ that])
    show "up d \<subseteq> {(a, b). a \<notin> ?F \<and> ((a, b) \<in> up d0 \<or> (a, fb) \<in> up d0 \<and> b \<in> ?F)} \<union>
        {(a, b). a \<in> ?F \<and> (b \<in> ?F \<or> b = q)}"
      unfolding d(2) by (rule round_edges_shape [OF d0 fresh(1,2) dist(4,1) refl])
    show "?F \<inter> Range (up d0) \<subseteq> {fb}" using fresh(1,2) up_in_dom(2) [OF d0] by blast
  qed
  have below: "(x, y) \<in> ?R" if "x \<in> set P" "(x, y) \<in> ?R'" for x y
    using reach [OF that(2)] that(1) old [of x] fresh dist(3) adoption_readyD(1) [OF ready that(1), of fb] by auto
  have above: "(x, y) \<in> ?R" if "y \<in> set U" "(x, y) \<in> ?R'" for x y
    using reach [OF that(2)] that(1) old [of y] fresh dist(2) q by (auto simp: new_parent_def)
  have s0: "sorted_wrt (\<lambda>x y. (x, y) \<notin> ?R) P" "sorted_wrt (\<lambda>x y. (x, y) \<notin> ?R) (fb # U)"
    using ready by (auto simp: adoption_ready_def stack_inv_def sorted_wrt_append)
  have "sorted_wrt (\<lambda>x y. (x, y) \<notin> ?R') P"
    by (rule sorted_wrt_strengthen [OF s0(1)]) (use below in blast)
  moreover have "sorted_wrt (\<lambda>x y. (x, y) \<notin> ?R') U"
    by (rule sorted_wrt_strengthen [OF s0(2) [simplified, THEN conjunct2]]) (use above in blast)
  moreover have "sorted_wrt (\<lambda>x y. (x, y) \<notin> ?R') (C @ [fb, n])"
  proof (rule sorted_wrt_strengthen [OF round_chain [OF dist(1) fresh(3), of d0 q, folded d(2)]])
    show "(x, y) \<notin> ?R'" if "(y, x) \<in> (up d)\<^sup>+" for x y
      using that acyclic_up [OF d(1)] by (meson acyclic_def trancl_rtrancl_trancl)
  qed
  moreover have "(x, y) \<notin> ?R'" if "x \<in> set P" "y \<in> set (C @ fb # n # U)" for x y
    using below [OF that(1), of y] that fresh_not_reached [OF d0 old(1) [of x], of y]
      adoption_readyD(1) [OF ready that(1), of y] fresh by auto
  moreover have "(x, y) \<notin> ?R'" if "x \<in> set (C @ [fb, n])" "y \<in> set U" for x y
  proof
    assume "(x, y) \<in> ?R'"
    then have xy: "(x, y) \<in> ?R" by (rule above [OF that(2)])
    have "x = fb"
    proof (rule ccontr)
      assume "x \<noteq> fb"
      then have "nodes d0 x = None" using that(1) fresh by auto
      then have "x = y" using xy up_in_dom(1) [OF d0] by (meson converse_rtranclE)
      with \<open>nodes d0 x = None\<close> old [of y] that(2) show False by auto
    qed
    with xy s0(2) that(2) show False by auto
  qed
  ultimately have "sorted_wrt (\<lambda>x y. (x, y) \<notin> ?R') (P @ (C @ [fb, n]) @ U)"
    unfolding sorted_wrt_append by auto
  moreover have "x \<in> Domain (up d)" if "x \<in> set (P @ C @ fb # n # U)" for x
    unfolding d(2) by (rule round_domain) (use that old in auto)
  ultimately show ?thesis using elem by (simp add: stack_inv_def)
qed

section \<open>The entry and the stack\<close>

lemma adoption_entry_first:
  assumes "fe \<notin> set (afe_ids A1)" "active_formatting tb = A1 @ Formatting (fe, ft, fa) # A2"
  shows "adoption_entry tb AtFormattingElement (length A1) fe e =
    Inr (tb\<lparr>active_formatting := A1 @ Formatting e # A2\<rparr>)"
  using entry_position [OF assms(1), of ft fa A2] by (simp add: adoption_entry_def assms(2) Let_def)

lemma adoption_entry_after:
  assumes "fe \<notin> set (afe_ids A1)" "c \<notin> set (afe_ids (A1 @ Formatting (fe, ft, fa) # J1))"
    and "active_formatting tb = A1 @ Formatting (fe, ft, fa) # J1 @ Formatting (c, t, as) # J2"
  shows "adoption_entry tb (AfterNode c) (length A1) fe e =
    Inr (tb\<lparr>active_formatting := A1 @ J1 @ Formatting (c, t, as) # Formatting e # J2\<rparr>)"
proof -
  have p: "position (is_entry_of c) (active_formatting tb) = Some (Suc (length A1 + length J1))"
    using entry_position [OF assms(2), of t as J2] by (simp add: assms(3))
  have f: "position (is_entry_of fe) (active_formatting tb) = Some (length A1)"
    using entry_position [OF assms(1)] by (simp add: assms(3))
  have "insert_at (length (A1 @ J1 @ [Formatting (c, t, as)])) (Formatting e) ((A1 @ J1 @ [Formatting (c, t, as)]) @ J2) =
      A1 @ J1 @ Formatting (c, t, as) # Formatting e # J2" by (simp only: edit_middle) simp
  then show ?thesis using p f by (simp add: adoption_entry_def Let_def assms(3))
qed

lemma adoption_entry_ok:
  assumes inv: "afe_inv d (A1 @ Formatting (fe, ft, fa) # A2) (P @ fe # C @ fb # U)"
    and dist: "distinct (P @ fe # C @ fb # U)" "n \<notin> set (P @ C @ fb # U)"
    and out: "fb \<notin> set (afe_ids (A1 @ A2))" "n \<notin> set (afe_ids (A1 @ A2))"
    and C: "set C \<subseteq> set (afe_ids A2)" and d': "grows d d'" "elem_tag d' n = Some ft"
    and tb: "active_formatting tb = A1 @ Formatting (fe, ft, fa) # A2"
  shows "\<exists>A. adoption_entry tb (bookmark_of C) (length A1) fe (n, ft, fa) = Inr (tb\<lparr>active_formatting := A\<rparr>) \<and>
    afe_inv d' A (P @ C @ fb # n # U) \<and> length A = length (active_formatting tb)"
proof -
  note i = inv [unfolded afe_inv_def]
  have ids: "distinct (afe_ids A1 @ fe # afe_ids A2)" "in_stack_order (afe_ids A1 @ fe # afe_ids A2) (P @ fe # C @ fb # U)"
    and ft: "ft \<in> set FORMATTING_ELEMENTS" using i by auto
  have entries: "elem_tag d' i = Some t \<and> t \<in> set FORMATTING_ELEMENTS"
    if "Formatting (i, t, a) \<in> set (A1 @ Formatting (n, ft, fa) # A2)" for i t a
    using i that d' ft by (auto simp: grows_def)
  show ?thesis
  proof (cases C rule: rev_cases)
    case Nil
    have "afe_inv d' (A1 @ Formatting (n, ft, fa) # A2) (P @ fb # n # U)"
      using adoption_order_no_clone [OF ids(2) [unfolded Nil append_Nil] ids(1)] dist out ids(1) entries
      unfolding afe_inv_def by (simp add: Nil)
    with adoption_entry_first [OF _ tb, of "(n, ft, fa)"] ids(1) show ?thesis
      by (auto simp: Nil bookmark_of_def tb)
  next
    case (snoc C' c)
    then obtain t as where "Formatting (c, t, as) \<in> set A2" using C by (auto simp: afe_ids_entry)
    then obtain J1 J2 where A2: "A2 = J1 @ Formatting (c, t, as) # J2" by (meson split_list)
    have "in_stack_order (afe_ids A1 @ afe_ids J1 @ c # n # afe_ids J2) (P @ C' @ c # fb # n # U)"
      by (rule adoption_order_clones [of _ fe]) (use ids dist out in \<open>auto simp: A2 snoc\<close>)
    moreover have "distinct (afe_ids A1 @ afe_ids J1 @ c # n # afe_ids J2)" using ids(1) out by (auto simp: A2)
    ultimately have "afe_inv d' (A1 @ J1 @ Formatting (c, t, as) # Formatting (n, ft, fa) # J2) (P @ C @ fb # n # U)"
      using entries unfolding afe_inv_def by (auto simp: A2 snoc)
    with adoption_entry_after [of fe A1 c ft fa J1 tb t as J2 "(n, ft, fa)"] ids(1) tb show ?thesis
      by (auto simp: snoc A2 bookmark_of_def)
  qed
qed

lemma adoption_stack_ok:
  assumes "open_elements tb = P @ fe # C @ fb # U" "distinct (P @ fe # C @ fb # U)"
  shows "adoption_stack tb fe fb n = Inr (tb\<lparr>open_elements := P @ C @ fb # n # U\<rparr>)"
proof -
  have f: "filter (\<lambda>i. i \<noteq> fe) (open_elements tb) = P @ C @ fb # U"
    unfolding assms(1) using filter_remove_middle [OF assms(2)] .
  have "position (\<lambda>i. i = fb) ((P @ C) @ fb # U) = Some (length (P @ C))"
    by (rule position_append) (use assms(2) in auto)
  moreover have "insert_at (length (P @ C @ [fb])) n ((P @ C @ [fb]) @ U) = P @ C @ fb # n # U"
    by (simp only: edit_middle) simp
  ultimately show ?thesis by (simp add: adoption_stack_def f Let_def)
qed

lemma round_tags:
  assumes ready: "adoption_ready d0 P fe B fb U" and d: "grows d0 d"
    and new: "\<And>c. c \<in> set (n # C) \<Longrightarrow> \<exists>t\<in>set FORMATTING_ELEMENTS. elem_tag d c = Some t"
  shows "wf_stack (tags d (P @ C @ fb # n # U))"
    "anchors \<inter> set (tags d0 (P @ fe # B @ fb # U)) \<subseteq> set (tags d (P @ C @ fb # n # U))"
proof -
  note a = ready [unfolded adoption_ready_def]
  have same: "tags d S = tags d0 S" if "set S \<subseteq> set (P @ fe # B @ fb # U)" for S
    by (rule tags_grows [OF d]) (use that adoption_readyD(2) [OF ready] in blast)
  have P: "tags d P = tags d0 P" by (rule same) auto
  have w: "wf_stack (tags d0 P @ the (elem_tag d0 fe) # tags d0 (B @ fb # U))" using a by simp
  have fe: "the (elem_tag d0 fe) \<notin> anchors" using a formatting_tag(3) by blast
  have t: "chars ''table'' \<notin> set (tags d0 (B @ fb # U))" using a by blast
  have "plain t" if "t \<in> set (tags d (C @ fb # n # U))" for t
  proof -
    have "t \<in> set (tags d (n # C)) \<or> t \<in> set (tags d (fb # U))" using that by auto
    then show ?thesis
    proof
      assume "t \<in> set (tags d (n # C))"
      then obtain c where "c \<in> set (n # C)" "t = the (elem_tag d c)" unfolding tags_def set_map by blast
      with new [of c] show ?thesis using formatting_tag(1) by auto
    next
      assume "t \<in> set (tags d (fb # U))"
      moreover have "tags d (fb # U) = tags d0 (fb # U)" by (rule same) auto
      ultimately have "t \<in> set (tags d0 (B @ fb # U))" by auto
      then show ?thesis by (rule plain_above [OF w fe t])
    qed
  qed
  then have "wf_stack (tags d P @ tags d (C @ fb # n # U))"
    using a wf_stack_prefix [OF w] by (intro wf_stack_plain) (auto simp: P)
  then show "wf_stack (tags d (P @ C @ fb # n # U))" by simp
  show "anchors \<inter> set (tags d0 (P @ fe # B @ fb # U)) \<subseteq> set (tags d (P @ C @ fb # n # U))"
    using anchors_below [OF w fe t] by (auto simp: P)
qed

section \<open>A round\<close>

lemma same_content_grows: "same_content d d' \<Longrightarrow> grows d d'"
  by (simp add: grows_def same_content_elem_tag) (simp add: same_content_def)

lemma children_up:
  assumes "wf_document d" "nodes d i \<noteq> None"
  shows "\<exists>cs. children d i = Some (Inr cs) \<and> (\<forall>c. c \<in> set cs \<longleftrightarrow> (c, i) \<in> up d)"
proof -
  obtain kids r where "represents d kids" "nodes d i = Some r" using assms by (auto simp: wf_document_def)
  then show ?thesis using children_kids up_kids by blast
qed

lemma fresh_isolated:
  assumes "wf_document d" "nodes d n = None"
  shows "n \<notin> Domain (up d)" "n \<notin> Range (up d)"
  using up_in_dom [OF assms(1)] assms(2) by blast+

text \<open>The document part of the end of a round: the clone of the formatting element takes the children.\<close>

lemma clone_takes_children:
  assumes d2: "wf_document d2" "unat (next_node_id d2) + 1 < 2 ^ 64" "nodes d2 fb \<noteq> None"
    and c: "create_node d2 (Element ft fa) = (n, d3)"
    and up2: "up d2 = insert (hd (C @ [fb]), q) (inner_edges d0 fb C)"
  shows "\<exists>cs d4 d5. children d3 fb = Some (Inr cs) \<and> move_children d3 n cs = Inr d4 \<and>
     append_child d4 fb n = Inr d5 \<and> wf_document d5 \<and> grows d2 d5 \<and> nodes d2 n = None \<and>
     elem_tag d5 n = Some ft \<and> unat (next_node_id d5) = unat (next_node_id d2) + 1 \<and>
     up d5 = round_edges d0 fb C q n"
proof -
  note cu = create_up [OF d2(1,2) c]
  have g: "grows d2 d3" by (auto simp: grows_def cu elem_tag_def)
  have fb: "nodes d3 fb \<noteq> None" using d2(3) by (simp add: cu(4))
  from children_up [OF cu(1) fb] obtain cs where
    cs: "children d3 fb = Some (Inr cs)" "\<And>c. c \<in> set cs \<longleftrightarrow> (c, fb) \<in> up d3" by blast
  have n: "nodes d3 n \<noteq> None" "n \<noteq> fb" "n \<notin> Domain (up d3)" "n \<notin> Range (up d3)"
    using cu(3,4) d2(3) fresh_isolated [OF d2(1) cu(3)] unfolding cu(2) by auto
  obtain d4 d5 where d5: "move_children d3 n cs = Inr d4" "append_child d4 fb n = Inr d5" "wf_document d5"
    "same_content d3 d5" "up d5 = insert (n, fb) ({(a, b). (a, b) \<in> up d3 \<and> b \<noteq> fb} \<union> set cs \<times> {n})"
    using interpose_up [OF cu(1) fb n cs(2)] by blast
  have "set cs = {c. (c, fb) \<in> up d3}" using cs(2) by blast
  then have "up d5 = round_edges d0 fb C q n"
    unfolding d5(5) cu(2) up2 round_edges_def Let_def by simp
  moreover have "elem_tag d5 n = Some ft" "unat (next_node_id d5) = unat (next_node_id d2) + 1"
    using same_content_elem_tag(1,3) [OF d5(4)] cu(4,5) by (simp_all add: elem_tag_def fresh_record_def)
  moreover have "grows d2 d5" by (rule grows_trans [OF g same_content_grows [OF d5(4)]])
  ultimately show ?thesis using cs(1) d5(1-3) cu(3) by blast
qed

text \<open>The state before the inner loop satisfies its invariant, and the one at the end of a round is good.\<close>

lemma inner_start:
  assumes "good tb" "open_elements tb = P @ fe # B @ fb # U"
    and "active_formatting tb = A1 @ Formatting (fe, ft, fa) # A2"
  shows "inner_inv (document tb) P fe fb U A1 ft fa B [] A2 (document tb)"
proof -
  have "\<forall>i\<in>set (P @ fe # B @ fb # U). nodes (document tb) i \<noteq> None"
    using stack_inv_alive [OF goodD(3) [OF assms(1)]] assms(2) by metis
  then show ?thesis
    using goodD [OF assms(1)] assms(2,3) by (simp add: inner_inv_def grows_def)
qed

lemma special_no_entry:
  assumes "afe_inv d A S" "elem_tag d i = Some t" "t \<in> set SPECIAL_ELEMENTS"
  shows "i \<notin> set (afe_ids A)"
  using assms formatting_tag(4) unfolding afe_inv_def afe_ids_entry by (metis option.inject)

lemma round_good:
  assumes g: "good tb" and ready: "adoption_ready (document tb) P fe B fb U"
    and S: "open_elements tb = P @ fe # B @ fb # U"
    and inv: "inner_inv (document tb) P fe fb U A1 ft fa [] C A2 d"
    and q: "new_parent (document tb) fb U q" and n: "nodes d n = None" "elem_tag d5 n = Some ft"
    and d5: "wf_document d5" "grows d d5" "up d5 = round_edges (document tb) fb C q n"
    and A: "afe_inv d5 A (P @ C @ fb # n # U)" "length A \<le> length (active_formatting tb)"
    and ids: "unat (next_node_id d5) \<le> ids_used tb + 4" and ft: "ft \<in> set FORMATTING_ELEMENTS"
  shows "keeps 4 0 tb (tb\<lparr>document := d5, open_elements := P @ C @ fb # n # U, active_formatting := A\<rparr>)"
proof -
  have i: "grows (document tb) d" "\<And>c. c \<in> set C \<Longrightarrow> nodes (document tb) c = None"
    using inv by (auto simp: inner_inv_def)
  have g5: "grows (document tb) d5" by (rule grows_trans [OF i(1) d5(2)])
  have new: "\<exists>t\<in>set FORMATTING_ELEMENTS. elem_tag d5 c = Some t" if "c \<in> set (n # C)" for c
    using that n(2) ft clone_tag [OF inv, of c] d5(2) by (auto simp: grows_def)
  have "n \<notin> set C"
    using clone_tag [OF inv, of n] n(1) elem_tag_alive by blast
  moreover have "nodes (document tb) n = None" using n(1) i(1) by (auto simp: grows_def)
  moreover have "elem_tag d5 x \<noteq> None" if "x \<in> set (P @ C @ fb # n # U)" for x
    using that new [of x] adoption_readyD(2) [OF ready, of x] g5 by (auto simp: grows_def)
  ultimately have "stack_inv d5 (P @ C @ fb # n # U)"
    by (intro round_stack_inv [OF ready i(2) _ _ q d5(1,3)])
  moreover note tags = round_tags [OF ready g5 new]
  moreover have "root_ok d5" using goodD(2) [OF g] g5 by (auto simp: root_ok_def grows_def)
  ultimately show ?thesis
    using g A d5(1) g5 ids S by (simp add: keeps_def good_def) (simp add: grows_def)
qed

lemma adopt_ok:
  assumes g: "good tb" and S: "open_elements tb = P @ fe # B @ fb # U"
    and A: "active_formatting tb = A1 @ Formatting (fe, ft, fa) # A2"
    and ready: "adoption_ready (document tb) P fe B fb U"
    and fb: "the (elem_tag (document tb) fb) \<in> set SPECIAL_ELEMENTS" and room: "ids_used tb + 4 < 2 ^ 64"
  shows "ok_run (adopt tb (length A1) fe (length P) (length P + 1 + length B)) (keeps 4 0 tb)"
proof -
  have P: "P \<noteq> []" using ready by (simp add: adoption_ready_def)
  have idx: "open_elements tb ! (length P + 1 + length B) = fb" "open_elements tb ! (length P - 1) = last P"
    "take (length P + 1 + length B - (length P + 1)) (drop (length P + 1) (open_elements tb)) = B"
    using P by (simp_all add: S nth_append last_conv_nth)
  have ft: "ft \<in> set FORMATTING_ELEMENTS" using goodD(4) [OF g] A by (auto simp: afe_inv_def)
  have start: "inner_state tb P fe fb U A1 ft fa B [] A2 (document tb) = tb" using S A by simp
  have nil: "bookmark_of [] = AtFormattingElement" by (simp add: bookmark_of_def)
  from adoption_inner_ok [OF inner_start [OF g S A], of 0 tb, unfolded start, unfolded nil append_Nil list.sel] room
  obtain C A2' d where
    inner: "adoption_inner fb (rev B) 0 AtFormattingElement fb tb =
      Inr (bookmark_of C, hd (C @ [fb]), inner_state tb P fe fb U A1 ft fa [] C A2' d)"
    and inv: "inner_inv (document tb) P fe fb U A1 ft fa [] C A2' d" and len: "length C \<le> 3" "length A2' \<le> length A2"
    unfolding ok_res_def by auto
  let ?tb = "inner_state tb P fe fb U A1 ft fa [] C A2'"
  note i = inv [unfolded inner_inv_def]
  from reparent_ok [OF ready inv, of "?tb d"] obtain d2 q where
    rep: "adoption_reparent (?tb d) (last P) (hd (C @ [fb])) = Inr (?tb d2)" and d2: "wf_document d2" "same_content d d2"
    "up d2 = insert (hd (C @ [fb]), q) (inner_edges (document tb) fb C)" and q: "new_parent (document tb) fb U q"
    unfolding ok_res_def by (auto simp: update_order)
  have at: "afe_formatting_at (?tb d2) (length A1) = Inr (fe, ft, fa)" by (simp add: afe_formatting_at_def)
  obtain n d3 where c: "create_node d2 (Element ft fa) = (n, d3)" by fastforce
  have ids2: "unat (next_node_id d2) = ids_used tb + length C"
    using i same_content_elem_tag(3) [OF d2(2)] by simp
  have "nodes d2 fb \<noteq> None"
    using i same_content_elem_tag(4) [OF d2(2)] by (auto simp: grows_def)
  with ids2 len(1) room obtain cs d4 d5 where ch: "children d3 fb = Some (Inr cs)" "move_children d3 n cs = Inr d4"
    "append_child d4 fb n = Inr d5" and d5: "wf_document d5" "grows d2 d5" "nodes d2 n = None"
    "elem_tag d5 n = Some ft" "unat (next_node_id d5) = unat (next_node_id d2) + 1"
    "up d5 = round_edges (document tb) fb C q n"
    using clone_takes_children [OF d2(1) _ _ c d2(3)] by auto
  have g5: "grows d d5" by (rule grows_trans [OF same_content_grows [OF d2(2)] d5(2)])
  have n: "nodes d n = None" using d5(3) same_content_elem_tag(4) [OF d2(2)] by simp
  have afe: "afe_inv d (A1 @ Formatting (fe, ft, fa) # A2') (P @ fe # C @ fb # U)" "distinct (P @ fe # C @ fb # U)"
    using i by simp_all
  have out: "fb \<notin> set (afe_ids (A1 @ A2'))" "n \<notin> set (afe_ids (A1 @ A2'))"
  proof -
    have "elem_tag d fb = elem_tag (document tb) fb" "elem_tag (document tb) fb \<noteq> None"
      using inner_old_tag [OF ready inv, of fb] adoption_readyD(2) [OF ready, of fb] by simp_all
    then show "fb \<notin> set (afe_ids (A1 @ A2'))" using special_no_entry [OF afe(1), of fb] fb by auto
    show "n \<notin> set (afe_ids (A1 @ A2'))" using afe_alive [OF afe(1), of n] n by auto
  qed
  have nS: "n \<notin> set (P @ C @ fb # U)"
  proof
    assume "n \<in> set (P @ C @ fb # U)"
    then have "elem_tag d n \<noteq> None"
      using clone_tag [OF inv, of n] inner_old_tag [OF ready inv, of n] adoption_readyD(2) [OF ready, of n] by auto
    with n show False by (auto dest: elem_tag_alive)
  qed
  from adoption_entry_ok [OF afe(1,2) nS out _ g5 d5(4), of "?tb d5"] i obtain A where
    entry: "adoption_entry (?tb d5) (bookmark_of C) (length A1) fe (n, ft, fa) = Inr ((?tb d5)\<lparr>active_formatting := A\<rparr>)"
    and A': "afe_inv d5 A (P @ C @ fb # n # U)" "length A = Suc (length A1 + length A2')" by auto
  have stack: "adoption_stack ((?tb d5)\<lparr>active_formatting := A\<rparr>) fe fb n =
      Inr (tb\<lparr>document := d5, open_elements := P @ C @ fb # n # U, active_formatting := A\<rparr>)"
    using adoption_stack_ok [OF _ afe(2), of "(?tb d5)\<lparr>active_formatting := A\<rparr>" n] by (simp add: update_order)
  have keep: "keeps 4 0 tb (tb\<lparr>document := d5, open_elements := P @ C @ fb # n # U, active_formatting := A\<rparr>)"
    by (rule round_good [OF g ready S inv q n d5(4,1) g5 d5(6) A'(1) _ _ ft])
      (use A' len A ids2 d5(5) in simp_all)
  have "adopt tb (length A1) fe (length P) (length P + 1 + length B) =
      Some (Inr (tb\<lparr>document := d5, open_elements := P @ C @ fb # n # U, active_formatting := A\<rparr>))"
    unfolding adopt_def Let_def idx using P inner rep at c ch entry stack by (simp add: update_order)
  with keep show ?thesis by simp
qed

section \<open>The whole algorithm\<close>

lemma afe_formatting_rposition_Some:
  assumes "afe_formatting_rposition tb tag = Some p"
  obtains A1 i as A2 where "active_formatting tb = A1 @ Formatting (i, tag, as) # A2" "length A1 = p"
proof -
  let ?n = "afe_scan_start tb" and ?Q = "\<lambda>e. case e of Formatting (_, t, _) \<Rightarrow> t = tag | Marker \<Rightarrow> False"
  obtain k where k: "rposition ?Q (drop ?n (active_formatting tb)) = Some k" "p = ?n + k"
    using assms by (auto simp: afe_formatting_rposition_def Let_def)
  from k(1) obtain ys e zs where e: "drop ?n (active_formatting tb) = ys @ e # zs" "length ys = k" "?Q e"
    by (rule rposition_Some) blast
  then obtain i as where "e = Formatting (i, tag, as)" by (auto split: afe_entry.splits)
  moreover have "active_formatting tb = (take ?n (active_formatting tb) @ ys) @ e # zs"
    using e(1) by (metis append.assoc append_take_drop_id)
  moreover have "?n \<le> length (active_formatting tb)"
    using e(1) by (cases "?n \<le> length (active_formatting tb)") simp_all
  ultimately show thesis
    using e(2) k(2) by (intro that [of "take ?n (active_formatting tb) @ ys" i as zs]) simp_all
qed

lemma position_res_total:
  assumes "\<And>x. x \<in> set xs \<Longrightarrow> f x = Inr (P x)"
  shows "position_res f xs = Inr (position P xs)"
  using assms by (induction xs) (auto simp: position_def Let_def)

lemma ready_in_scope:
  assumes g: "good tb" and S: "open_elements tb = P @ fe # B @ fb # U"
    and fe: "elem_tag (document tb) fe = Some t" "t \<in> set FORMATTING_ELEMENTS"
    and scope: "chars ''table'' \<notin> set (tags (document tb) (B @ fb # U))"
  shows "adoption_ready (document tb) P fe B fb U"
proof -
  have "P \<noteq> []"
  proof
    assume "P = []"
    then have "t = chars ''html''" using goodD(5) [OF g] S fe(1) by (simp add: wf_stack_def)
    with fe(2) show False by (simp add: FORMATTING_ELEMENTS_def)
  qed
  with goodD [OF g] S fe scope show ?thesis by (simp add: adoption_ready_def)
qed

lemma adoption_round_ok:
  assumes g: "good tb" and tag: "tag \<in> set FORMATTING_ELEMENTS" and room: "ids_used tb + 4 < 2 ^ 64"
  shows "ok_run (adoption_round tb tag) (\<lambda>(again, tb'). keeps 4 0 tb tb')"
proof (cases "afe_formatting_rposition tb tag")
  case None
  have "ok_res (any_other_end_tag tb tag) (keeps 4 0 tb)"
    by (rule ok_res_mono [OF any_other_end_tag_ok [OF g]])
      (use keeps_pop_through [OF g] keeps_refl [OF g] formatting_tag(3) [OF tag] in blast)
  with None show ?thesis by (auto simp: adoption_round_def ok_res_def)
next
  case (Some fe_pos)
  then obtain A1 fe as A2 where A: "active_formatting tb = A1 @ Formatting (fe, tag, as) # A2" "length A1 = fe_pos"
    by (rule afe_formatting_rposition_Some)
  have at: "afe_formatting_at tb fe_pos = Inr (fe, tag, as)"
    using A by (auto simp: afe_formatting_at_def nth_append)
  have fe: "elem_tag (document tb) fe = Some tag" using goodD(4) [OF g] A(1) by (auto simp: afe_inv_def)
  have drop_entry: "keeps 4 0 tb' (tb'\<lparr>active_formatting := remove_at fe_pos (active_formatting tb)\<rparr>)"
    if "good tb'" "active_formatting tb' = active_formatting tb" for tb'
    using keeps_afe [OF that(1)] subseq_remove_at that(2) by metis
  show ?thesis
  proof (cases "position (\<lambda>i. i = fe) (open_elements tb)")
    case None
    with Some at drop_entry [OF g refl] show ?thesis by (simp add: adoption_round_def)
  next
    case pos: (Some k)
    then obtain P R where S: "open_elements tb = P @ fe # R" "length P = k" by (auto elim!: position_Some)
    have once: "fe \<notin> set P" "fe \<notin> set R" using goodD(6) [OF g] by (simp_all add: S(1))
    have upper: "drop (k + 1) (open_elements tb) = R" using S by auto
    from has_node_in_scope_ok [OF g, of fe] obtain b where b: "has_node_in_scope tb fe = Inr b"
      "b \<longrightarrow> (\<exists>S1 S2. open_elements tb = S1 @ fe # S2 \<and> set (tags (document tb) S2) \<inter> set DEFAULT_SCOPE_BLOCKERS = {})"
      by (rule ok_resE)
    show ?thesis
    proof (cases b)
      case False
      with Some at pos b(1) keeps_refl [OF g] show ?thesis by (simp add: adoption_round_def)
    next
      case True
      then obtain S1 S2 where "P @ fe # R = S1 @ fe # S2" "set (tags (document tb) S2) \<inter> set DEFAULT_SCOPE_BLOCKERS = {}"
        using b(2) S(1) by auto
      moreover from this have "S2 = R"
        using once append_Cons_eq_iff [of fe P R S1 S2] by simp
      ultimately have no_table: "chars ''table'' \<notin> set (tags (document tb) R)" using table_blocks by auto
      let ?sp = "\<lambda>i. the (elem_tag (document tb) i) \<in> set SPECIAL_ELEMENTS"
      have sp: "position_res (is_special tb) R = Inr (position ?sp R)"
      proof (rule position_res_total)
        fix x
        assume "x \<in> set R"
        then obtain t where "elem_tag (document tb) x = Some t" using good_stack [OF g, of x] S(1) by auto
        then show "is_special tb x = Inr (?sp x)" by (simp add: is_special_def tag_of_elem)
      qed
      show ?thesis
      proof (cases "position ?sp R")
        case None
        have k: "keeps 0 0 tb (tb\<lparr>open_elements := P\<rparr>)"
          using keeps_pop_through [OF g S(1)] fe formatting_tag(3) [OF tag] no_table by simp
        then have "good (tb\<lparr>open_elements := P\<rparr>)" by (simp add: keeps_def)
        then have "keeps 4 0 tb (tb\<lparr>open_elements := P, active_formatting := remove_at fe_pos (active_formatting tb)\<rparr>)"
          by (intro keeps_trans [OF k drop_entry]) simp_all
        moreover have "take k (open_elements tb) = P" using S by auto
        ultimately show ?thesis
          using Some at pos b(1) True sp upper None by (simp add: adoption_round_def)
      next
        case rel: (Some r)
        then obtain B fb U where R: "R = B @ fb # U" "length B = r" "?sp fb" by (auto elim!: position_Some)
        have S': "open_elements tb = P @ fe # B @ fb # U" using S(1) R(1) by simp
        have "ok_run (adopt tb (length A1) fe (length P) (length P + 1 + length B)) (keeps 4 0 tb)"
          by (rule adopt_ok [OF g S' A(1) ready_in_scope [OF g S' fe tag] R(3) room]) (use no_table R(1) in simp)
        then show ?thesis
          using Some at pos b(1) True sp upper rel A(2) S(2) R(2) by (auto simp: adoption_round_def ok_run_def)
      qed
    qed
  qed
qed

lemma adoption_loop_ok:
  assumes "good tb" "tag \<in> set FORMATTING_ELEMENTS" "ids_used tb + 4 * n < 2 ^ 64"
  shows "ok_run (adoption_loop n tb tag) (keeps (4 * n) 0 tb)"
  using assms(1,3)
proof (induction n arbitrary: tb)
  case 0
  then show ?case by (simp add: adoption_loop.simps keeps_refl)
next
  case (Suc n)
  show ?case
    unfolding adoption_loop.simps [of "Suc n"] if_not_P [OF Suc_not_Zero] diff_Suc_1
  proof (rule ok_run_bind [OF adoption_round_ok [OF Suc.prems(1) assms(2)]], goal_cases)
    case (2 p)
    obtain again tb1 where p: "p = (again, tb1)" by fastforce
    with 2 have k: "keeps 4 0 tb tb1" by simp
    then have "ok_run (adoption_loop n tb1 tag) (keeps (4 * n) 0 tb1)"
      using Suc.prems(2) by (intro Suc.IH) (auto simp: keeps_def)
    then have "ok_run (adoption_loop n tb1 tag) (keeps (4 * Suc n) 0 tb)"
      by (rule ok_run_mono) (auto intro: keeps_trans [OF k])
    with k p show ?case by (auto intro: keeps_mono)
  qed (use Suc.prems(2) in simp)
qed

lemma adoption_agency_ok:
  assumes g: "good tb" and tag: "tag \<in> set FORMATTING_ELEMENTS" and room: "ids_used tb + 32 < 2 ^ 64"
  shows "ok_run (adoption_agency tb tag) (keeps 32 0 tb)"
proof (cases "open_elements tb" rule: rev_cases)
  case Nil
  with adoption_loop_ok [OF g tag, of 8] room show ?thesis by (simp add: adoption_agency_def)
next
  case (snoc S i)
  have t: "elem_tag (document tb) i = Some (the (elem_tag (document tb) i))" using good_stack [OF g] snoc by simp
  then have "has_tag tb [tag] i = Inr (the (elem_tag (document tb) i) = tag)" using has_tag_elem [of tb i] by simp
  moreover have "keeps 32 0 tb (pop_element tb)" if "the (elem_tag (document tb) i) = tag"
    using keeps_pop_through [OF g, of S i "[]"] that formatting_tag(3) [OF tag] by (simp add: pop_element_def snoc)
  ultimately show ?thesis
    using adoption_loop_ok [OF g tag, of 8] room by (simp add: adoption_agency_def snoc)
qed

end
