(* ===== verification/Html_Body_Safe.thy ===== *)
theory Html_Body_Safe
  imports Html_Adoption_Agency Html_Tokens
begin

text \<open>
  The invariant of the tree builder between two steps, and the handlers of the \<open>in body\<close> mode:
  each of them returns and keeps it.
\<close>

declare chars_simps [simp del]

section \<open>The invariant between steps\<close>

definition builder_inv :: "tree_builder \<Rightarrow> bool" where
  "builder_inv tb \<longleftrightarrow> good tb \<and>
     (if mode tb = mode.Text then open_elements tb \<noteq> [] \<and> mode_ok (original_mode tb) (butlast (stack_tags tb))
      else mode_ok (mode tb) (stack_tags tb))"

text \<open>
  What one step may cost: as many identifiers as there are formatting elements to reconstruct,
  and a constant; at most one new entry in the list of active formatting elements.
\<close>

definition step_post :: "html_token \<Rightarrow> tree_builder \<Rightarrow> tree_builder \<Rightarrow> bool" where
  "step_post tok tb tb' \<longleftrightarrow> builder_inv tb' \<and>
     ids_used tb' \<le> ids_used tb + length (active_formatting tb) + 40 \<and>
     length (active_formatting tb') \<le> length (active_formatting tb) + 1 \<and>
     may_switch tok (tokenizer tb) (tokenizer tb')"

definition has_room :: "tree_builder \<Rightarrow> bool" where
  "has_room tb \<longleftrightarrow> ids_used tb + length (active_formatting tb) + 40 < 2 ^ 64"

text \<open>
  \<open>at k tb0 tb\<close>: a handler that started in \<open>tb0\<close> has reached \<open>tb\<close> and handed out at most \<open>k\<close>
  identifiers on the way.
\<close>

definition at :: "nat \<Rightarrow> tree_builder \<Rightarrow> tree_builder \<Rightarrow> bool" where
  "at k tb0 tb \<longleftrightarrow> keeps k 0 tb0 tb \<and> open_elements tb \<noteq> [] \<and> has_room tb0"

definition body_mode :: "tree_builder \<Rightarrow> bool" where
  "body_mode tb \<longleftrightarrow> builder_inv tb \<and> has_room tb \<and> mode tb \<notin> {Initial, BeforeHtml, InHead, mode.Text}"

lemma keeps_nonempty:
  assumes "good tb" "keeps k l tb tb'" "open_elements tb \<noteq> []"
  shows "open_elements tb' \<noteq> []"
  using html_on_stack [OF goodD(5) [OF assms(1)]] assms(2,3) by (auto simp: keeps_def anchors_def)

lemma atD:
  assumes "at k tb0 tb"
  shows "good tb" "keeps k 0 tb0 tb" "open_elements tb \<noteq> []"
    "ids_used tb \<le> ids_used tb0 + k" "length (active_formatting tb) \<le> length (active_formatting tb0)"
    "ids_used tb0 + length (active_formatting tb0) + 40 < 2 ^ 64"
  using assms by (simp_all add: at_def keeps_def has_room_def)

lemma at_start: "body_mode tb \<Longrightarrow> at 0 tb tb"
  by (auto simp: body_mode_def builder_inv_def at_def keeps_def mode_ok_def split: if_splits)

lemma at_step:
  assumes "at k tb0 tb" "keeps m 0 tb tb'" "k + m \<le> n"
  shows "at n tb0 tb'"
proof -
  have "keeps n 0 tb0 tb'" by (rule keeps_trans [OF atD(2) [OF assms(1)] assms(2,3)]) simp
  moreover have "open_elements tb' \<noteq> []" by (rule keeps_nonempty [OF atD(1) [OF assms(1)] assms(2) atD(3) [OF assms(1)]])
  ultimately show ?thesis using assms(1) by (simp add: at_def)
qed

lemma at_res:
  assumes "at k tb0 tb" "ok_res r (keeps m 0 tb)" "k + m \<le> n"
  shows "ok_res r (at n tb0)"
  by (rule ok_res_mono [OF assms(2)]) (rule at_step [OF assms(1) _ assms(3)])

lemma at_implied:
  assumes "at k tb0 tb"
  shows "ok_res (generate_implied_end_tags tb ex) (at k tb0)"
  by (rule ok_res_mono [OF generate_implied_ok [OF atD(1) [OF assms]]])
    (use at_step [OF assms, of 0 _ k] in auto)

lemma at_reconstruct:
  assumes "at k tb0 tb" "k \<le> 39"
  shows "ok_res (reconstruct_active_formatting_elements tb) (at (k + length (active_formatting tb0)) tb0)"
  using atD [OF assms(1)] assms(2) by (intro at_res [OF assms(1) reconstruct_keeps]) simp_all

lemma at_insert_element:
  assumes a: "at k tb0 tb" and "k < length (active_formatting tb0) + 40"
    and n: "name \<in> set VOID_ELEMENTS \<or> plain name"
  shows "ok_res (insert_element tb name as) (\<lambda>(i, tb'). at (Suc k) tb0 tb' \<and> opened tb name i tb')"
proof -
  have "name \<in> set VOID_ELEMENTS \<or> wf_stack (stack_tags tb @ [name])"
    using n goodD(5) [OF atD(1) [OF a]] atD(3) [OF a] by (auto intro: wf_stack_push_plain)
  moreover have "ids_used tb + 1 < 2 ^ 64" using atD(4,6) [OF a] assms(2) by simp
  ultimately show ?thesis
    using insert_element_opened [OF atD(1) [OF a]] at_step [OF a, of 1 _ "Suc k"]
    by (fastforce simp: opened_def elim: ok_res_mono)
qed

lemma at_element_inserted:
  assumes "at k tb0 tb" "k < length (active_formatting tb0) + 40" "chars name \<in> set VOID_ELEMENTS \<or> plain (chars name)"
  shows "ok_res (element_inserted tb name as) (\<lambda>tb'. at (Suc k) tb0 tb' \<and> (\<exists>i. opened tb (chars name) i tb'))"
  unfolding element_inserted_def
  by (rule ok_res_bind [OF at_insert_element [OF assms]]) auto

lemma at_insert_text:
  assumes a: "at k tb0 tb" and "k < length (active_formatting tb0) + 40"
  shows "ok_res (insert_text tb s) (at (Suc k) tb0)"
proof -
  have "ids_used tb + 1 < 2 ^ 64" using atD(4,6) [OF a] assms(2) by simp
  then show ?thesis
    by (rule ok_res_mono [OF insert_text_keeps [OF atD(1) [OF a]]]) (auto intro: at_step [OF a])
qed

lemma at_adoption:
  assumes a: "at k tb0 tb" and "k \<le> 7" "tag \<in> set FORMATTING_ELEMENTS"
  shows "ok_run (adoption_agency tb tag) (at (k + 32) tb0)"
proof -
  have "ids_used tb + 32 < 2 ^ 64" using atD(4,6) [OF a] assms(2) by simp
  then show ?thesis
    by (rule ok_run_mono [OF adoption_agency_ok [OF atD(1) [OF a] assms(3)]]) (auto intro: at_step [OF a])
qed

text \<open>A handler that ends in the mode it started in.\<close>

lemma may_switch_refl [simp]: "may_switch tok t t"
  by (simp add: may_switch_def)

lemma keeps_step_post:
  assumes "body_mode tb0" "keeps k l tb0 tb" "k \<le> length (active_formatting tb0) + 40" "l \<le> 1"
  shows "step_post tok tb0 tb"
proof -
  have k: "good tb" "mode tb = mode tb0" "original_mode tb = original_mode tb0" "tokenizer tb = tokenizer tb0"
    "anchors \<inter> set (stack_tags tb0) \<subseteq> set (stack_tags tb)" "ids_used tb \<le> ids_used tb0 + k"
    "length (active_formatting tb) \<le> length (active_formatting tb0) + l"
    using assms(2) by (simp_all add: keeps_def)
  have m: "mode tb0 \<notin> {Initial, BeforeHtml, InHead}" "mode tb0 \<noteq> mode.Text" "good tb0"
    "mode_ok (mode tb0) (stack_tags tb0)"
    using assms(1) by (auto simp: body_mode_def builder_inv_def)
  have "mode_ok (mode tb) (stack_tags tb)"
    using mode_ok_anchors [OF m(4,1) goodD(5) [OF m(3)] k(5)] k(2) by simp
  with k m assms(3,4) show ?thesis by (simp add: step_post_def builder_inv_def)
qed

text \<open>The token that a step asks to be processed again is its own, or what is left of its text.\<close>

definition follows :: "html_token \<Rightarrow> step_result \<Rightarrow> bool" where
  "follows tok r \<longleftrightarrow> (case r of Done \<Rightarrow> True | Reprocess t \<Rightarrow> t = tok \<or> is_character t \<and> is_character tok)"

abbreviation safe_run :: "html_token \<Rightarrow> tree_builder \<Rightarrow> step_run \<Rightarrow> bool" where
  "safe_run tok tb r \<equiv> ok_run r (\<lambda>(s, tb'). follows tok s \<and> step_post tok tb tb')"

lemma safe_finish [simp]: "safe_run tok tb0 (finish tb) = step_post tok tb0 tb"
  by (simp add: finish_def follows_def)

lemma safe_reprocess [simp]:
  "safe_run tok tb0 (reprocess t tb) = ((t = tok \<or> is_character t \<and> is_character tok) \<and> step_post tok tb0 tb)"
  by (simp add: reprocess_def follows_def)

lemma at_finish:
  assumes "at k tb0 tb" "body_mode tb0" "k \<le> length (active_formatting tb0) + 40"
  shows "step_post tok tb0 tb"
  using keeps_step_post [OF assms(2) atD(2) [OF assms(1)] assms(3)] by simp

text \<open>One rule per statement of a handler; the bounds come last, the rest of the handler first.\<close>

named_theorems statements

lemma seq_insert_element [statements]:
  assumes "at k tb0 tb" "\<And>i tb'. at (Suc k) tb0 tb' \<Longrightarrow> opened tb name i tb' \<Longrightarrow> ok_run (f i tb') Q"
    "name \<in> set VOID_ELEMENTS \<or> plain name" "k < length (active_formatting tb0) + 40"
  shows "ok_run (seq_run (insert_element tb name as) (\<lambda>(i, tb). f i tb)) Q"
  by (rule ok_seq_run [OF at_insert_element [OF assms(1,4,3)]]) (use assms(2) in auto)

lemma seq_element_inserted [statements]:
  assumes "at k tb0 tb" "\<And>i tb'. at (Suc k) tb0 tb' \<Longrightarrow> opened tb (chars name) i tb' \<Longrightarrow> ok_run (f tb') Q"
    "chars name \<in> set VOID_ELEMENTS \<or> plain (chars name)" "k < length (active_formatting tb0) + 40"
  shows "ok_run (seq_run (element_inserted tb name as) f) Q"
  by (rule ok_seq_run [OF at_element_inserted [OF assms(1,4,3)]]) (use assms(2) in blast)

lemma seq_keeps:
  assumes "at k tb0 tb" "good tb \<Longrightarrow> ok_res r (keeps 0 0 tb)" "\<And>tb'. at k tb0 tb' \<Longrightarrow> ok_run (f tb') Q"
  shows "ok_run (seq_run r f) Q"
  using at_res [OF assms(1) assms(2) [OF atD(1) [OF assms(1)]], of k] by (intro ok_seq_run [OF _ assms(3)]) simp

lemma seq_closing [statements]:
  assumes "at k tb0 tb" "\<And>tb'. at k tb0 tb' \<Longrightarrow> ok_run (f tb') Q"
  shows "ok_run (seq_run (close_p_in_button_scope tb) f) Q" "ok_run (seq_run (close_li_if_open tb) f) Q"
    "ok_run (seq_run (close_button tb) f) Q"
  by (rule seq_keeps [OF assms(1) close_p_in_button_scope_keeps assms(2)]
        seq_keeps [OF assms(1) close_li_if_open_keeps assms(2)]
        seq_keeps [OF assms(1) close_button_keeps assms(2)]; assumption)+

lemma seq_pop_select:
  assumes "at k tb0 tb" "in_scope tb {chars ''select''}" "\<And>tb'. at k tb0 tb' \<Longrightarrow> ok_run (f tb') Q"
  shows "ok_run (seq_run (pop_until_and_including tb (chars ''select'')) f) Q"
  using seq_keeps [OF assms(1) pop_select_keeps [OF _ assms(2)] assms(3)] .

lemma seq_implied [statements]:
  assumes "at k tb0 tb" "\<And>tb'. at k tb0 tb' \<Longrightarrow> ok_run (f tb') Q"
  shows "ok_run (seq_run (generate_implied_end_tags tb ex) f) Q"
  by (rule ok_seq_run [OF at_implied [OF assms(1)] assms(2)])

lemma seq_reconstruct [statements]:
  assumes "at k tb0 tb" "\<And>tb'. at (k + length (active_formatting tb0)) tb0 tb' \<Longrightarrow> ok_run (f tb') Q" "k \<le> 39"
  shows "ok_run (seq_run (reconstruct_active_formatting_elements tb) f) Q"
  by (rule ok_seq_run [OF at_reconstruct [OF assms(1,3)] assms(2)])

lemma seq_insert_text [statements]:
  assumes "at k tb0 tb" "\<And>tb'. at (Suc k) tb0 tb' \<Longrightarrow> ok_run (f tb') Q" "k < length (active_formatting tb0) + 40"
  shows "ok_run (seq_run (insert_text tb s) f) Q"
  by (rule ok_seq_run [OF at_insert_text [OF assms(1,3)] assms(2)])

lemma seq_scope [statements]:
  assumes "at k tb0 tb" "\<And>b. at k tb0 tb \<Longrightarrow> (b \<Longrightarrow> in_scope tb {tag}) \<Longrightarrow> ok_run (f b) Q"
  shows "ok_run (seq_run (has_tag_in_scope tb tag extra) f) Q"
  by (rule ok_seq_run [OF has_tag_in_scope_ok [OF atD(1) [OF assms(1)]]]) (use assms in auto)

text \<open>Fields that the invariant does not look at.\<close>

lemma good_update [simp]:
  "good (tb\<lparr>foster_parenting := b\<rparr>) = good tb" "good (tb\<lparr>strip_leading_newline := b\<rparr>) = good tb"
  "good (tb\<lparr>just_saw_dropped_comment_or_doctype := b\<rparr>) = good tb" "good (tb\<lparr>quirks_mode := b\<rparr>) = good tb"
  "good (tb\<lparr>mode := m\<rparr>) = good tb" "good (tb\<lparr>original_mode := m\<rparr>) = good tb" "good (tb\<lparr>tokenizer := t\<rparr>) = good tb"
  by (simp_all add: good_def)

lemma step_post_update [simp]:
  "step_post tok tb (tb'\<lparr>foster_parenting := b\<rparr>) = step_post tok tb tb'"
  "step_post tok tb (tb'\<lparr>strip_leading_newline := b\<rparr>) = step_post tok tb tb'"
  "step_post tok tb (tb'\<lparr>just_saw_dropped_comment_or_doctype := b\<rparr>) = step_post tok tb tb'"
  "step_post tok (tb\<lparr>foster_parenting := b\<rparr>) tb' = step_post tok tb tb'"
  "step_post tok (tb\<lparr>strip_leading_newline := b\<rparr>) tb' = step_post tok tb tb'"
  by (simp_all add: step_post_def builder_inv_def)

lemma body_mode_update [simp]:
  "body_mode (tb\<lparr>foster_parenting := b\<rparr>) = body_mode tb" "body_mode (tb\<lparr>strip_leading_newline := b\<rparr>) = body_mode tb"
  by (simp_all add: body_mode_def builder_inv_def has_room_def)

lemma seq_if: "seq_run (if b then r else s) f = (if b then seq_run r f else seq_run s f)"
  by simp

lemma seq_pure: "seq_run (res_bind r (\<lambda>x. Inr (g x))) f = seq_run r (\<lambda>x. f (g x))"
  by (cases r) simp_all

lemma ok_run_if: "(b \<Longrightarrow> ok_run r Q) \<Longrightarrow> (\<not> b \<Longrightarrow> ok_run s Q) \<Longrightarrow> ok_run (if b then r else s) Q"
  by simp

section \<open>Start tags\<close>

lemma void_or_plain:
  "chars t \<in> set VOID_ELEMENTS \<or> plain (chars t)" if "t \<in> {''li'', ''button'', ''a'', ''pre'', ''select'', ''option'',
    ''optgroup'', ''hr'', ''input'', ''p'', ''br'', ''form'', ''textarea'', ''script'', ''style'', ''title'', ''meta'', ''link'', ''col''}"
  using that by (auto simp: VOID_ELEMENTS_def plain_def table_sections_def chars_simps)

lemma start_li_safe: "body_mode tb \<Longrightarrow> safe_run tok tb (start_li tb as)"
  unfolding start_li_def
  by (frule at_start, (erule statements)+, simp, erule at_finish) (simp_all add: void_or_plain)

lemma start_pre_safe: "body_mode tb \<Longrightarrow> safe_run tok tb (start_pre tb as)"
  unfolding start_pre_def
  by (frule at_start, (erule statements)+, simp, erule at_finish) (simp_all add: void_or_plain)

lemma start_button_safe: "body_mode tb \<Longrightarrow> safe_run tok tb (start_button tb as)"
  unfolding start_button_def
  by (frule at_start, (erule statements)+, simp, erule at_finish) (simp_all add: void_or_plain)

lemma start_select_safe: "body_mode tb \<Longrightarrow> safe_run tok tb (start_select tb as)"
  unfolding start_select_def
  apply (frule at_start, (erule statements)+)
  apply (rule ok_run_if)
  apply (erule seq_pop_select, simp)
   apply (simp, erule at_finish; simp)
  by ((erule statements)+, simp, erule at_finish) (simp_all add: void_or_plain)

lemma start_input_safe: "body_mode tb \<Longrightarrow> safe_run tok tb (start_input tb as)"
  unfolding start_input_def seq_if seq_run_simps
  apply (frule at_start, (erule statements)+)
  apply (rule ok_run_if)
   apply (erule seq_pop_select, simp)
  by ((erule statements)+, simp, erule at_finish; simp add: void_or_plain)+

lemma start_hr_safe: "body_mode tb \<Longrightarrow> safe_run tok tb (start_hr tb as)"
  unfolding start_hr_def seq_if seq_run_simps
  apply (frule at_start, (erule statements)+)
  apply (rule ok_run_if)
  by ((erule statements)+, simp, erule at_finish; simp add: void_or_plain)+

lemma at_pop:
  assumes "at k tb0 tb" "elem_tag (document tb) (last (open_elements tb)) = Some t" "t \<notin> anchors"
  shows "at k tb0 (pop_element tb)"
proof -
  have "open_elements tb = butlast (open_elements tb) @ [last (open_elements tb)]" using atD(3) [OF assms(1)] by simp
  from keeps_pop(2) [OF atD(1) [OF assms(1)] this] show ?thesis
    using assms at_step [OF assms(1), of 0 _ k] by (simp add: pop_element_def)
qed

text \<open>The test for the current node, by a list of tags that are not anchors.\<close>

lemma seq_current:
  assumes "at k tb0 tb" "\<And>b. at k tb0 (if b then pop_element tb else tb) \<Longrightarrow> ok_run (f b) Q"
    and "\<And>t. t \<in> set T \<Longrightarrow> t \<notin> anchors"
  shows "ok_run (seq_run (res_bind (current_node tb) (has_tag tb T)) f) Q"
proof -
  let ?i = "last (open_elements tb)"
  have c: "current_node tb = Inr ?i"
    using atD(3) [OF assms(1)] by (cases "open_elements tb" rule: rev_cases) (simp_all add: current_node_def last_opt_def)
  obtain t where t: "elem_tag (document tb) ?i = Some t"
    using good_stack [OF atD(1) [OF assms(1)], of ?i] atD(3) [OF assms(1)] by simp
  have "at k tb0 (if t \<in> set T then pop_element tb else tb)"
    using at_pop [OF assms(1) t] assms(1,3) by simp
  from assms(2) [OF this] show ?thesis by (simp add: c has_tag_elem [OF t])
qed

lemma heading_tag:
  assumes "t \<in> set HEADING_ELEMENTS"
  shows "plain t" "t \<notin> anchors"
  using assms by (auto simp: HEADING_ELEMENTS_def plain_def anchors_def table_sections_def chars_simps)

lemma start_option_safe:
  assumes "body_mode tb" "name \<in> {''option'', ''optgroup''}"
  shows "safe_run tok tb (start_option tb name ex as)"
proof -
  have n: "chars name \<in> set VOID_ELEMENTS \<or> plain (chars name)" using assms(2) by (intro void_or_plain) auto
  have o: "\<And>t. t \<in> set [chars ''option''] \<Longrightarrow> t \<notin> anchors" by (simp add: anchors_def table_sections_def)
  show ?thesis
    using assms(1) unfolding start_option_def seq_if is_current_def seq_pure
    apply -
    apply (frule at_start, (erule statements)+)
    apply (rule ok_run_if)
     apply ((erule statements)+, simp, erule at_finish; simp add: n)
    apply (erule seq_current [OF _ _ o])
    by ((erule statements)+, simp, erule at_finish; simp add: n)+
qed

lemma start_heading_safe:
  assumes "body_mode tb" "name \<in> set HEADING_ELEMENTS"
  shows "safe_run tok tb (start_heading tb name as)"
  using assms(1) unfolding start_heading_def
  apply -
  apply (frule at_start, (erule statements)+)
  apply (erule seq_current [OF _ _ heading_tag(2)])
  by ((erule statements)+, simp, erule at_finish; simp add: assms heading_tag)+

lemma start_block_safe:
  assumes "body_mode tb" "name \<in> set VOID_ELEMENTS \<or> plain name"
  shows "safe_run tok tb (start_block tb name as)"
  using assms(1) unfolding start_block_def
  by - (frule at_start, (erule statements)+, simp, erule at_finish; simp add: assms)

lemma start_other_safe:
  assumes "body_mode tb" "name \<in> set VOID_ELEMENTS \<or> plain name"
  shows "safe_run tok tb (start_other tb name as)"
  using assms(1) unfolding start_other_def
  by - (frule at_start, (erule statements)+, simp, erule at_finish; simp add: assms)

text \<open>Changes of fields that leave the document and both lists alone.\<close>

lemma keeps_form:
  assumes "keeps k l tb0 tb" "\<And>f. fe = Some f \<Longrightarrow> elem_tag (document tb) f = Some (chars ''form'')"
  shows "keeps k l tb0 (tb\<lparr>form_element := fe\<rparr>)"
  using assms by (auto simp: keeps_def good_def)

lemma start_form_safe:
  assumes "body_mode tb"
  shows "safe_run tok tb (start_form tb as)"
proof -
  have "step_post tok tb (tb'\<lparr>form_element := Some i\<rparr>)" if "at 1 tb tb'" "opened tb1 (chars ''form'') i tb'" for i tb1 tb'
    using keeps_step_post [OF assms keeps_form [OF atD(2) [OF that(1)], of "Some i"]] that(2) by (simp add: opened_def)
  moreover have "step_post tok tb tb" by (rule at_finish [OF at_start [OF assms] assms]) simp
  ultimately show ?thesis
    using at_start [OF assms] unfolding start_form_def
    by - (rule ok_run_if, simp, (erule statements)+, simp_all add: void_or_plain)
qed

lemma start_table_safe:
  assumes "body_mode tb"
  shows "safe_run tok tb (start_table tb as)"
proof -
  have t: "chars ''table'' \<notin> set VOID_ELEMENTS" "plain (chars ''table'')"
    by (simp_all add: VOID_ELEMENTS_def plain_def table_sections_def)
  have "step_post tok tb (tb'\<lparr>mode := InTable\<rparr>)" if "at 1 tb tb'" "opened tb1 (chars ''table'') i tb'" for i tb1 tb'
    using atD(1,4,5) [OF that(1)] atD(2) [OF that(1)] that(2) t
    by (simp add: step_post_def builder_inv_def mode_ok_body opened_def keeps_def)
  with at_start [OF assms] t show ?thesis
    unfolding start_table_def seq_if seq_run_simps
    by - (rule ok_run_if; (erule statements)+; simp)
qed

lemma start_formatting_safe:
  assumes "body_mode tb0" "at k tb0 tb" "k < 40" "name \<in> set FORMATTING_ELEMENTS"
  shows "safe_run tok tb0 (start_formatting tb name as)"
proof -
  note t = formatting_tag [OF assms(4)]
  have "step_post tok tb0 (push_formatting tb2 i name as)"
    if a: "at m tb0 tb2" "m \<le> length (active_formatting tb0) + 40" and o: "opened tb1 name i tb2" and g: "good tb1"
    for m i tb1 tb2
  proof -
    have "i \<notin> set (afe_ids (active_formatting tb2))"
      using afe_alive [OF goodD(4) [OF g], of i] o by (auto simp: opened_def)
    then have "keeps 0 1 tb2 (push_formatting tb2 i name as)"
      using o t(2) by (intro push_formatting_keeps [OF atD(1) [OF a(1)] _ _ assms(4)]) (auto simp: opened_def)
    from keeps_step_post [OF assms(1) keeps_trans [OF atD(2) [OF a(1)] this]] a(2) show ?thesis by simp
  qed
  with assms t(1) show ?thesis
    unfolding start_formatting_def
    by - (erule statements, frule atD(1), erule statements; simp)
qed

lemma start_a_safe:
  assumes "body_mode tb"
  shows "safe_run tok tb (start_a tb as)"
proof -
  have a: "chars ''a'' \<in> set FORMATTING_ELEMENTS" by (simp add: FORMATTING_ELEMENTS_def)
  note at0 = at_start [OF assms]
  show ?thesis
  proof (cases "afe_formatting_rposition tb (chars ''a'')")
    case None
    then show ?thesis unfolding start_a_def using start_formatting_safe [OF assms at0 _ a] by simp
  next
    case (Some n)
    then obtain i as' where e: "afe_formatting_at tb n = Inr (i, chars ''a'', as')"
      "Formatting (i, chars ''a'', as') \<in> set (active_formatting tb)"
      by (elim afe_formatting_rposition_Some) (auto simp: afe_formatting_at_def nth_append)
    have i: "elem_tag (document tb) i = Some (chars ''a'')"
      using goodD(4) [OF atD(1) [OF at0]] e(2) by (auto simp: afe_inv_def)
    have "at 32 tb (forget_element tb' i)" if "at 32 tb tb'" for tb'
    proof -
      have "elem_tag (document tb') i = Some (chars ''a'')" using atD(2) [OF that] i by (simp add: keeps_def grows_def)
      then have "keeps 0 0 tb' (forget_element tb' i)"
        unfolding forget_element_def using formatting_tag(3) [OF a]
        by (intro keeps_remove [OF atD(1) [OF that]]) (auto simp: subseq_filter_left)
      from at_step [OF that this] show ?thesis by simp
    qed
    then have "ok_run (run_bind (adoption_agency tb (chars ''a'')) (\<lambda>tb. Some (Inr (forget_element tb i)))) (at 32 tb)"
      using at_adoption [OF at0 _ a] by (intro ok_run_bind [where P = "at 32 tb"]) simp_all
    with Some e(1) show ?thesis
      unfolding start_a_def
      by (auto intro!: ok_run_bind [where P = "at 32 tb"] start_formatting_safe [OF assms _ _ a])
  qed
qed

text \<open>A change that keeps the tags of the stack.\<close>

lemma same_stack_post:
  assumes "builder_inv tb" "keeps 1 0 tb tb'" "stack_tags tb' = stack_tags tb" "open_elements tb' = open_elements tb"
  shows "step_post tok tb tb'"
  using assms by (auto simp: step_post_def builder_inv_def keeps_def)

lemma same_tag_element:
  assumes "builder_inv tb" "i \<in> set (open_elements tb)" "\<And>t as. \<exists>as'. f (Element t as) = Element t as'"
  shows "ok_res (in_dom (data_mut (document tb) i f)) (\<lambda>d. step_post tok tb (tb\<lparr>document := d\<rparr>))"
proof -
  have g: "good tb" using assms(1) by (simp add: builder_inv_def)
  obtain r where r: "nodes (document tb) i = Some r" using good_stack [OF g assms(2)] elem_tag_alive by blast
  obtain d where d: "data_mut (document tb) i f = Inr d" "wf_document d" "up d = up (document tb)"
    "nodes d = (nodes (document tb))(i \<mapsto> r\<lparr>r_data := f (r_data r)\<rparr>)" "next_node_id d = next_node_id (document tb)"
    "doc_root d = doc_root (document tb)"
    using data_mut_up [OF goodD(1) [OF g] r, of f] by blast
  obtain t as where t: "r_data r = Element t as"
    using good_stack [OF g assms(2)] r by (auto simp: elem_tag_def split: node_data.splits)
  obtain as' where "f (Element t as) = Element t as'" using assms(3) by blast
  then have "elem_tag d = elem_tag (document tb)"
    using t r by (auto simp: elem_tag_def d(4))
  then have "extends (document tb) d" by (auto simp: extends_def grows_def d(3,4,6))
  note k = keeps_document [OF g d(2) this]
  show ?thesis using d(1,5) same_stack_post [OF assms(1) k(1) k(2)] by simp
qed

text \<open>Attributes of \<open>html\<close> and \<open>body\<close> that come late.\<close>

lemma builder_inv_finish: "builder_inv tb \<Longrightarrow> step_post tok tb tb"
  by (simp add: step_post_def)

lemma start_html_safe:
  assumes "builder_inv tb"
  shows "safe_run tok tb (start_html tb as)"
proof (cases "open_elements tb")
  case (Cons i S)
  show ?thesis
    unfolding start_html_def Cons list.case
    by (rule ok_seq_run [OF same_tag_element [OF assms]]) (simp_all add: Cons)
qed (simp add: start_html_def builder_inv_finish [OF assms])

lemma start_body_safe:
  assumes "builder_inv tb"
  shows "safe_run tok tb (start_body tb as)"
proof -
  consider "open_elements tb = []" | i where "open_elements tb = [i]" | i j S where "open_elements tb = i # j # S"
    by (metis list.exhaust)
  then show ?thesis
  proof cases
    case (3 i j S)
    show ?thesis
      unfolding start_body_def 3 list.case
      by (rule ok_seq_run [OF same_tag_element [OF assms]]) (simp_all add: 3)
  qed (simp_all add: start_body_def builder_inv_finish [OF assms])
qed

section \<open>Raw text\<close>

lemma text_tag:
  assumes "one_of name [''textarea'', ''script'', ''style'', ''title'']"
  shows "plain name" "name \<notin> set VOID_ELEMENTS"
  using assms by (auto simp: one_of_def plain_def VOID_ELEMENTS_def table_sections_def chars_simps)

lemma may_switch_model:
  assumes "model = ScriptData \<Longrightarrow> tok = StartTag (chars ''script'') as sc"
  shows "may_switch tok t (set_content_model t model)"
  using assms by (auto simp: may_switch_def)

lemma enter_text_mode:
  assumes "builder_inv tb" "mode tb \<noteq> mode.Text" "opened tb name i tb'" "name \<notin> set VOID_ELEMENTS"
    and "model = ScriptData \<Longrightarrow> tok = StartTag (chars ''script'') as sc"
  shows "step_post tok tb (tb'\<lparr>tokenizer := set_content_model (tokenizer tb') model,
     original_mode := mode tb', mode := mode.Text\<rparr>)"
  using assms may_switch_model [of model tok as sc "tokenizer tb"]
  by (auto simp: step_post_def builder_inv_def opened_def keeps_def)

lemma switch_to_text_mode_safe:
  assumes "builder_inv tb" "has_room tb" "mode tb \<noteq> mode.Text" "open_elements tb \<noteq> []"
    and "one_of name [''textarea'', ''script'', ''style'', ''title'']"
  shows "ok_res (switch_to_text_mode tb name as) (step_post (StartTag name as sc) tb)"
proof -
  note t = text_tag [OF assms(5)]
  have g: "good tb" using assms(1) by (simp add: builder_inv_def)
  have "wf_stack (stack_tags tb @ [name])" using wf_stack_push_plain [OF goodD(5) [OF g] _ t(1)] assms(4) by simp
  then have "ok_res (insert_element tb name as) (\<lambda>(i, tb'). opened tb name i tb')"
    using assms(2) by (intro insert_element_opened [OF g]) (simp_all add: has_room_def)
  then show ?thesis
    unfolding switch_to_text_mode_def Let_def
    by (rule ok_res_bind) (auto intro!: enter_text_mode [OF assms(1,3) _ t(2)] split: if_splits)
qed

lemma start_text_safe:
  assumes "body_mode tb" "one_of name [''textarea'', ''script'', ''style'', ''title'']"
  shows "safe_run (StartTag name as sc) tb (start_text tb name as)"
  unfolding start_text_def
  using assms at_start [OF assms(1)] switch_to_text_mode_safe [of tb name as sc]
  by (intro ok_seq_run [where P = "step_post (StartTag name as sc) tb"]) (auto simp: body_mode_def at_def)

section \<open>All start tags\<close>

lemma body_mode_inv: "body_mode tb \<Longrightarrow> builder_inv tb"
  by (simp add: body_mode_def)

text \<open>The names that the other arms of \<open>start_tag_in_body\<close> leave over.\<close>

lemma other_start_name:
  assumes "name \<noteq> chars ''html''" "\<not> one_of name [''caption'', ''col'', ''colgroup'', ''tbody'', ''td'', ''tfoot'', ''th'', ''thead'', ''tr'']"
  shows "plain name"
  using assms by (auto simp: one_of_def plain_def table_sections_def)

lemma start_tag_in_body_safe:
  assumes "body_mode tb"
  shows "safe_run (StartTag name as sc) tb (start_tag_in_body tb name as)"
  unfolding start_tag_in_body_def
  using body_mode_inv [OF assms] other_start_name [of name]
  by (intro ok_run_if start_html_safe start_body_safe start_table_safe start_form_safe start_li_safe start_button_safe
      start_a_safe start_text_safe start_pre_safe start_select_safe start_option_safe start_hr_safe start_input_safe
      start_formatting_safe [OF _ at_start] start_heading_safe start_block_safe start_other_safe assms)
    (simp_all add: builder_inv_finish)

section \<open>End tags\<close>

text \<open>
  The end tags that may reach \<open>end_tag_in_body\<close>: the table modes keep those of their own
  structure for themselves.
\<close>

definition end_ok :: "tree_builder \<Rightarrow> rstring \<Rightarrow> bool" where
  "end_ok tb name \<longleftrightarrow> name \<notin> anchors - {chars ''html''} \<or> mode tb = InBody \<or>
     (mode tb = InCaption \<and> name \<noteq> chars ''table'')"

lemma end_pop:
  assumes "body_mode tb0" "end_ok tb0 name" "name \<noteq> chars ''html''" "at k tb0 tb" "k \<le> length (active_formatting tb0) + 40"
    and "open_elements tb = S1 @ i # S2" "the (elem_tag (document tb) i) = name" "chars ''table'' \<notin> set (tags (document tb) S2)"
  shows "step_post tok tb0 (tb\<lparr>open_elements := S1\<rparr>)"
proof (cases "name \<in> anchors")
  case False
  then have "keeps 0 0 tb (tb\<lparr>open_elements := S1\<rparr>)"
    using keeps_pop_through [OF atD(1) [OF assms(4)] assms(6)] assms(7,8) by simp
  from at_finish [OF at_step [OF assms(4) this] assms(1,5)] show ?thesis by simp
next
  case True
  note g = atD(1) [OF assms(4)]
  have w: "wf_stack (tags (document tb) S1 @ name # tags (document tb) S2)"
    using goodD(5) [OF g] assms(6,7) by simp
  have ne: "tags (document tb) S1 \<noteq> []" using w assms(3) by (auto simp: wf_stack_def)
  have m: "mode_ok (mode tb0) (tags (document tb) S1)"
  proof (cases "mode tb0 = InBody")
    case False
    then have c: "mode tb0 = InCaption" "name \<noteq> chars ''table''" using assms(2,3) True by (auto simp: end_ok_def)
    have "wf_stack (tags (document tb) S1 @ [name])" using w wf_stack_prefix [of "tags (document tb) S1 @ [name]"] by simp
    from table_on_stack [OF this, of name] True c(2) assms(3) have "chars ''table'' \<in> set (tags (document tb) S1)" by auto
    with c(1) show ?thesis by (simp add: mode_ok_body)
  qed (use ne in \<open>simp add: mode_ok_body\<close>)
  have "mode tb0 \<noteq> mode.Text" using assms(1) by (simp add: body_mode_def)
  with m keeps_pop(1) [OF g assms(6)] atD(4,5) [OF assms(4)] atD(2) [OF assms(4)] assms(5) show ?thesis
    by (simp add: step_post_def builder_inv_def keeps_def)
qed

lemma safe_close:
  assumes "body_mode tb" "\<And>tb. good tb \<Longrightarrow> ok_res (r tb) (keeps 0 0 tb)"
  shows "safe_run tok tb (seq_run (r tb) finish)"
  using at_start [OF assms(1)]
  by - (erule seq_keeps [OF _ assms(2)], assumption, simp, erule at_finish; simp add: assms(1))

lemma end_br_safe: "body_mode tb \<Longrightarrow> safe_run tok tb (end_br tb)"
  unfolding end_br_def
  by (frule at_start, (erule statements)+, simp, erule at_finish) (simp_all add: void_or_plain)

lemma end_body_safe:
  assumes "body_mode tb"
  shows "safe_run (EndTag name) tb (end_body tb name)"
proof -
  have "step_post (EndTag name) tb tb" by (rule builder_inv_finish [OF body_mode_inv [OF assms]])
  moreover from this have "step_post (EndTag name) tb (tb\<lparr>mode := AfterBody\<rparr>)"
    using atD(1,3) [OF at_start [OF assms]] by (simp add: step_post_def builder_inv_def mode_ok_body)
  ultimately show ?thesis
    using at_start [OF assms] unfolding end_body_def Let_def
    by - (erule statements, intro ok_run_if, simp_all)
qed

lemma opened_in_scope:
  assumes "opened tb name i tb'" "name \<notin> set VOID_ELEMENTS"
  shows "in_scope tb' {name}"
  using assms unfolding in_scope_def opened_def
  by (intro exI [of _ "open_elements tb"] exI [of _ i] exI [of _ "[]"]) (simp add: tags_def)

lemma end_p_safe:
  assumes "body_mode tb"
  shows "safe_run tok tb (end_p tb)"
proof -
  have p: "chars ''p'' \<notin> set VOID_ELEMENTS" by (simp add: VOID_ELEMENTS_def)
  have close: "safe_run tok tb (seq_run (close_p_element tb') finish)" if "at k tb tb'" "in_scope tb' {chars ''p''}" "k \<le> 1" for k tb'
    using that(1,3) by - (erule seq_keeps [OF _ close_p_element_keeps [OF _ that(2)]], assumption, simp, erule at_finish; simp add: assms)
  note at0 = at_start [OF assms]
  show ?thesis
    unfolding end_p_def seq_if seq_run_simps has_p_in_button_scope_def
    using at0
    apply -
    apply (erule statements, rule ok_run_if, rule close, assumption, simp, simp)
    apply (erule statements, rule close, assumption, erule opened_in_scope [OF _ p]; simp add: void_or_plain)
    done
qed

lemma end_form_safe:
  assumes "body_mode tb"
  shows "safe_run tok tb (end_form tb)"
proof (cases "form_element tb")
  case None
  then show ?thesis by (simp add: end_form_def builder_inv_finish [OF body_mode_inv [OF assms]])
next
  case (Some f)
  let ?tb = "tb\<lparr>form_element := None\<rparr>"
  note at0 = at_start [OF assms]
  have k0: "keeps 0 0 tb ?tb" by (rule keeps_form) (simp_all add: keeps_refl [OF atD(1) [OF at0]])
  have at1: "at 0 tb ?tb" by (rule at_step [OF at0 k0]) simp
  have f: "elem_tag (document tb) f = Some (chars ''form'')"
    using atD(1) [OF at0] Some by (simp add: good_def)
  have remove: "step_post tok tb (tb'\<lparr>open_elements := filter (\<lambda>i. i \<noteq> f) (open_elements tb')\<rparr>)" if "at 0 tb tb'" for tb'
  proof -
    have "elem_tag (document tb') f = Some (chars ''form'')" using atD(2) [OF that] f by (simp add: keeps_def grows_def)
    then have "keeps 0 0 tb' (tb'\<lparr>open_elements := filter (\<lambda>i. i \<noteq> f) (open_elements tb')\<rparr>)"
      using keeps_remove [OF atD(1) [OF that] subseq_order.refl, of f] by (simp add: anchors_def table_sections_def)
    from at_finish [OF at_step [OF that this, of 0] assms] show ?thesis by simp
  qed
  have "safe_run tok tb (seq_run (generate_implied_end_tags ?tb None)
      (\<lambda>tb. finish (tb\<lparr>open_elements := filter (\<lambda>i. i \<noteq> f) (open_elements tb)\<rparr>)))"
    using at1 by - (erule statements, simp add: remove)
  moreover have "step_post tok tb ?tb" by (rule at_finish [OF at1 assms]) simp
  ultimately show ?thesis
    unfolding end_form_def Some option.case Let_def
    by (intro ok_seq_run [OF has_node_in_scope_ok [OF atD(1) [OF at1]]]) simp
qed

lemma end_heading_safe:
  assumes "body_mode tb"
  shows "safe_run tok tb (end_heading tb)"
proof -
  have h: "t \<notin> anchors \<and> (t \<in> set IMPLIED_END_TAGS \<longrightarrow> None = Some t)" if "t \<in> set HEADING_ELEMENTS" for t
    using that heading_tag(2) [OF that] by (auto simp: HEADING_ELEMENTS_def IMPLIED_END_TAGS_def)
  note g = atD(1) [OF at_start [OF assms]]
  have "safe_run tok tb (seq_run (res_bind (generate_implied_end_tags tb None)
      (\<lambda>tb. on_stack tb (pop_through (has_tag tb HEADING_ELEMENTS)))) finish)" if "in_scope tb (set HEADING_ELEMENTS)"
    using at_start [OF assms]
    by - (erule seq_keeps [OF _ close_in_scope_keeps [OF _ that h]], assumption, assumption, simp, erule at_finish; simp add: assms)
  then have "safe_run tok tb (seq_run (generate_implied_end_tags tb None)
      (\<lambda>tb. seq_run (on_stack tb (pop_through (has_tag tb HEADING_ELEMENTS))) finish))"
    if "in_scope tb (set HEADING_ELEMENTS)"
    using that by (cases "generate_implied_end_tags tb None") simp_all
  then show ?thesis
    unfolding end_heading_def
    by (intro ok_seq_run [OF has_any_heading_in_scope_ok [OF g]])
      (simp add: builder_inv_finish [OF body_mode_inv [OF assms]])
qed

lemma end_pop_scope:
  assumes "body_mode tb0" "end_ok tb0 name" "name \<noteq> chars ''html''" "at 0 tb0 tb" "in_scope tb {name}"
  shows "safe_run tok tb0 (seq_run (pop_until_and_including tb name) finish)"
  unfolding pop_until_and_including_def
proof (rule ok_seq_run [OF pop_through_scope [OF atD(1) [OF assms(4)]]])
  show "in_scope tb (set [name])" using assms(5) by simp
  show "safe_run tok tb0 (finish tb')" if "\<exists>S1 i S2. open_elements tb = S1 @ i # S2 \<and> the (elem_tag (document tb) i) \<in> set [name] \<and>
      chars ''table'' \<notin> set (tags (document tb) S2) \<and> tb' = tb\<lparr>open_elements := S1\<rparr>" for tb'
    using that end_pop [OF assms(1-4)] by auto
qed

lemma seq_implied_scope:
  assumes "at k tb0 tb" "in_scope tb T" "\<And>t. t \<in> T \<Longrightarrow> t \<notin> set IMPLIED_END_TAGS"
    and "\<And>tb'. at k tb0 tb' \<Longrightarrow> in_scope tb' T \<Longrightarrow> ok_run (f tb') Q"
  shows "ok_run (seq_run (generate_implied_end_tags tb ex) f) Q"
proof (rule ok_seq_run [OF generate_implied_ok [OF atD(1) [OF assms(1)]]], elim exE conjE)
  fix tb' S1 S2
  assume s: "open_elements tb = S1 @ S2" "tb' = tb\<lparr>open_elements := S1\<rparr>" "keeps 0 0 tb tb'"
    "\<forall>t\<in>set (tags (document tb) S2). t \<in> set IMPLIED_END_TAGS \<and> ex \<noteq> Some t"
  have "in_scope tb' T" unfolding s(2) by (rule in_scope_pop [OF assms(2) s(1)]) (use s(4) assms(3) in blast)
  moreover have "at k tb0 tb'" by (rule at_step [OF assms(1) s(3)]) simp
  ultimately show "ok_run (f tb') Q" by (rule assms(4) [rotated])
qed

lemma end_block_safe:
  assumes "body_mode tb" "end_ok tb name" "name \<noteq> chars ''html''" "name \<notin> set IMPLIED_END_TAGS"
  shows "safe_run tok tb (end_block tb name)"
  unfolding end_block_def using at_start [OF assms(1)]
  by - (erule statements, rule ok_run_if, erule seq_implied_scope [where T = "{name}"],
      simp_all add: assms(4) end_pop_scope [OF assms(1-3)] builder_inv_finish [OF body_mode_inv [OF assms(1)]])

lemma any_other_end_tag_safe:
  assumes "body_mode tb" "end_ok tb name" "name \<noteq> chars ''html''"
  shows "safe_run tok tb (seq_run (any_other_end_tag tb name) finish)"
  using end_pop [OF assms at_start [OF assms(1)]] builder_inv_finish [OF body_mode_inv [OF assms(1)]]
  by (intro ok_seq_run [OF any_other_end_tag_ok [OF atD(1) [OF at_start [OF assms(1)]]]]) auto

lemma end_formatting_safe:
  assumes "body_mode tb" "name \<in> set FORMATTING_ELEMENTS"
  shows "safe_run tok tb (run_bind (adoption_agency tb name) finish)"
  by (rule ok_run_bind [OF at_adoption [OF at_start [OF assms(1)] _ assms(2)]])
    (auto intro: at_finish [OF _ assms(1)])

lemma block_not_implied:
  "name \<in> set P_CLOSING_ELEMENTS \<Longrightarrow> name \<noteq> chars ''p'' \<Longrightarrow> name \<noteq> chars ''li'' \<Longrightarrow> name \<notin> set IMPLIED_END_TAGS"
  by (auto simp: P_CLOSING_ELEMENTS_def IMPLIED_END_TAGS_def)

lemma end_tag_in_body_safe:
  assumes "body_mode tb" "end_ok tb name"
  shows "safe_run (EndTag name) tb (end_tag_in_body tb name)"
  unfolding end_tag_in_body_def
  by (intro ok_run_if end_body_safe end_br_safe end_p_safe end_form_safe end_heading_safe end_block_safe
      end_formatting_safe any_other_end_tag_safe safe_close [where r = close_li_if_open] safe_close [where r = close_button]
      close_li_if_open_keeps close_button_keeps assms)
    (simp_all add: one_of_def block_not_implied)

section \<open>The mode\<close>

definition end_token_ok :: "tree_builder \<Rightarrow> html_token \<Rightarrow> bool" where
  "end_token_ok tb tok \<longleftrightarrow> (case tok of EndTag name \<Rightarrow> end_ok tb name | _ \<Rightarrow> True)"

lemma strip_text [statements]:
  assumes "at k tb0 tb" "\<And>s' tb'. at k tb0 tb' \<Longrightarrow> ok_run (f s' tb') Q"
  shows "ok_run (let (s', tb') = consume_leading_newline_strip tb s in f s' tb') Q"
  using assms by (simp add: consume_leading_newline_strip_def at_def keeps_def)

lemma step_in_body_safe:
  assumes "body_mode tb" "end_token_ok tb tok"
  shows "safe_run tok tb (step_in_body tb tok)"
proof (cases tok)
  case (Character s)
  show ?thesis
    unfolding step_in_body_def Character html_token.case Let_def [of "strip_null_characters s"]
    using at_start [OF assms(1)]
    by - ((erule statements)+, simp, erule at_finish; simp add: assms)
next
  case (EndTag name)
  then show ?thesis using assms end_tag_in_body_safe by (simp add: step_in_body_def end_token_ok_def)
next
  case (StartTag name as sc)
  then show ?thesis using start_tag_in_body_safe [OF assms(1)] by (simp add: step_in_body_def)
qed (simp_all add: step_in_body_def builder_inv_finish [OF body_mode_inv [OF assms(1)]])

end
