(* ===== verification/Html_Modes_Safe.thy ===== *)
theory Html_Modes_Safe
  imports Html_Body_Safe
begin

text \<open>
  The other insertion modes: each step returns and keeps the invariant of the tree builder.
\<close>

declare chars_simps [simp del]

definition ready :: "tree_builder \<Rightarrow> bool" where
  "ready tb \<longleftrightarrow> builder_inv tb \<and> has_room tb"

lemma readyD:
  assumes "ready tb"
  shows "builder_inv tb" "has_room tb" "good tb" "ids_used tb + 1 < 2 ^ 64" "step_post tok tb tb"
    "mode tb \<noteq> mode.Text \<Longrightarrow> mode_ok (mode tb) (stack_tags tb)"
  using assms by (auto simp: ready_def builder_inv_def has_room_def builder_inv_finish split: if_splits)

lemma at_ready: "ready tb \<Longrightarrow> open_elements tb \<noteq> [] \<Longrightarrow> at 0 tb tb"
  using readyD [of tb] by (simp add: at_def keeps_refl)

lemma body_mode_ready: "ready tb \<Longrightarrow> mode tb \<notin> {Initial, BeforeHtml, InHead, mode.Text} \<Longrightarrow> body_mode tb"
  by (simp add: ready_def body_mode_def)

text \<open>A step that ends in another mode.\<close>

lemma mode_post:
  assumes "keeps k l tb0 tb" "k \<le> length (active_formatting tb0) + 40" "l \<le> 1" "mode_ok m (stack_tags tb)"
  shows "step_post tok tb0 (tb\<lparr>mode := m\<rparr>)"
  using assms by (auto simp: step_post_def builder_inv_def keeps_def mode_ok_def)

lemma keeps_head:
  assumes "keeps k l tb0 tb" "\<And>h. he = Some h \<Longrightarrow> elem_tag (document tb) h = Some (chars ''head'')"
  shows "keeps k l tb0 (tb\<lparr>head_element := he\<rparr>)"
  using assms by (auto simp: keeps_def good_def)

section \<open>Up to the head\<close>

lemma split_off_cases:
  assumes "split_off_dropped_whitespace tok = Inl r"
  shows "follows tok r"
  using assms
  by (auto simp: split_off_dropped_whitespace_def follows_def is_character_def
      split: html_token.splits if_splits option.splits)

lemma split_off_same: "split_off_dropped_whitespace tok = Inr t \<Longrightarrow> t = tok"
  by (auto simp: split_off_dropped_whitespace_def split: html_token.splits if_splits option.splits)

lemma step_initial_safe:
  assumes "ready tb" "mode tb = Initial"
  shows "safe_run tok tb (step_initial tb tok)"
proof -
  have e: "stack_tags tb = []" using readyD(6) [OF assms(1)] assms(2) by (simp add: mode_ok_def)
  have "step_post tok tb (tb\<lparr>mode := BeforeHtml\<rparr>)" "step_post tok tb (tb\<lparr>quirks_mode := True, mode := BeforeHtml\<rparr>)"
    using readyD(3) [OF assms(1)] e by (simp_all add: step_post_def builder_inv_def mode_ok_def)
  with readyD(5) [OF assms(1)] show ?thesis
    by (auto simp: step_initial_def Let_def split: html_token.splits)
qed

lemma open_html:
  assumes "ready tb" "mode tb = BeforeHtml" "\<And>tb'. step_post tok tb (tb'\<lparr>mode := BeforeHead\<rparr>) \<Longrightarrow> ok_run (f tb') Q"
  shows "ok_run (seq_run (element_inserted tb ''html'' as) f) Q"
proof -
  have e: "open_elements tb = []" using readyD(6) [OF assms(1)] assms(2) by (simp add: mode_ok_def)
  have v: "chars ''html'' \<notin> set VOID_ELEMENTS" by (simp add: VOID_ELEMENTS_def)
  have "ok_res (insert_element tb (chars ''html'') as) (\<lambda>(i, tb'). opened tb (chars ''html'') i tb')"
    using readyD(3,4) [OF assms(1)] e by (intro insert_element_opened) simp_all
  then have "ok_res (element_inserted tb ''html'' as) (\<lambda>tb'. \<exists>i. opened tb (chars ''html'') i tb')"
    unfolding element_inserted_def by (rule ok_res_bind) auto
  moreover have "step_post tok tb (tb'\<lparr>mode := BeforeHead\<rparr>)" if "opened tb (chars ''html'') i tb'" for i tb'
    using that v by (intro mode_post [of 1 0]) (auto simp: opened_def mode_ok_body)
  ultimately show ?thesis
    by (auto intro: assms(3) ok_seq_run)
qed

lemma step_before_html_safe:
  assumes "ready tb" "mode tb = BeforeHtml"
  shows "safe_run tok tb (step_before_html tb tok)"
proof (cases "split_off_dropped_whitespace tok")
  case (Inr t)
  then have "t = tok" by (rule split_off_same)
  with Inr readyD(5) [OF assms(1)] show ?thesis
    by (auto simp: step_before_html_def Let_def intro!: open_html [OF assms, of tok] split: html_token.splits)
qed (simp_all add: step_before_html_def split_off_cases readyD(5) [OF assms(1)])

lemma open_head_safe:
  assumes "ready tb" "mode tb = BeforeHead"
  shows "ok_res (open_head tb as) (step_post tok tb)"
proof -
  have e: "open_elements tb \<noteq> []" using readyD(6) [OF assms(1)] assms(2) by (auto simp: mode_ok_body)
  have h: "plain (chars ''head'')" "chars ''head'' \<notin> set VOID_ELEMENTS"
    by (simp_all add: plain_def table_sections_def VOID_ELEMENTS_def)
  have "step_post tok tb (tb'\<lparr>head_element := Some i, mode := InHead\<rparr>)" if "opened tb (chars ''head'') i tb'" for i tb'
    using that h by (intro mode_post [of 1 0] keeps_head) (auto simp: opened_def mode_ok_def)
  then show ?thesis
    unfolding open_head_def using h(1)
    by (intro ok_res_bind [OF at_insert_element [OF at_ready [OF assms(1) e]]]) auto
qed

lemma step_before_head_safe:
  assumes "ready tb" "mode tb = BeforeHead"
  shows "safe_run tok tb (step_before_head tb tok)"
proof (cases "split_off_dropped_whitespace tok")
  case (Inr t)
  then have "t = tok" by (rule split_off_same)
  with Inr readyD(5) [OF assms(1)] step_in_body_safe [OF body_mode_ready [OF assms(1)], of tok] assms(2) show ?thesis
    by (auto simp: step_before_head_def Let_def end_token_ok_def
        intro!: ok_seq_run [OF open_head_safe [OF assms, where tok = tok]] split: html_token.splits)
qed (simp_all add: step_before_head_def split_off_cases readyD(5) [OF assms(1)])

section \<open>In and after the head\<close>

lemma keep_text:
  assumes "ready tb"
  shows "ok_res (insert_text tb s) (step_post tok tb)"
  by (rule ok_res_mono [OF insert_text_keeps [OF readyD(3,4) [OF assms]]])
    (auto intro: same_stack_post [OF readyD(1) [OF assms]])

lemma keep_whitespace_safe:
  assumes "ready tb" "safe_run tok tb k"
  shows "safe_run tok tb (keep_whitespace tb tok k)"
  using assms(2)
  by (auto simp: keep_whitespace_def is_character_def intro!: ok_seq_run [OF keep_text [OF assms(1)]]
      split: html_token.splits option.splits)

lemma void_post:
  assumes "ready tb" "opened tb name i tb'" "name \<in> set VOID_ELEMENTS"
  shows "step_post tok tb tb'"
  using assms(2,3) by (intro same_stack_post [OF readyD(1) [OF assms(1)]]) (auto simp: opened_def)

lemma step_in_head_text:
  assumes "ready tb" "mode tb \<noteq> mode.Text" "open_elements tb \<noteq> []" "one_of name [''title'', ''style'', ''script'']"
  shows "safe_run (StartTag name as sc) tb (step_in_head tb (StartTag name as sc))"
proof -
  have "one_of name [''textarea'', ''script'', ''style'', ''title'']" using assms(4) by (auto simp: one_of_def)
  note sw = switch_to_text_mode_safe [OF readyD(1,2) [OF assms(1)] assms(2,3) this, of as sc]
  have "step_in_head tb (StartTag name as sc) = seq_run (switch_to_text_mode tb name as) finish"
    using assms(4) by (auto simp: step_in_head_def keep_whitespace_def one_of_def)
  then show ?thesis by (auto intro: ok_seq_run [OF sw])
qed

lemma step_in_head_void:
  assumes "one_of name [''meta'', ''link'']"
  shows "step_in_head tb (StartTag name as sc) = seq_run (insert_element tb name as) (\<lambda>(_, tb). finish tb)"
    "name \<in> set VOID_ELEMENTS"
  using assms by (auto simp: step_in_head_def keep_whitespace_def one_of_def VOID_ELEMENTS_def)

lemma leave_head_post:
  assumes "ready tb" "mode tb = InHead"
  shows "step_post tok tb (leave_head tb)"
proof -
  have m: "stack_tags tb \<noteq> []" "last (stack_tags tb) = chars ''head''"
    using readyD(6) [OF assms(1)] assms(2) by (simp_all add: mode_ok_def)
  then obtain S i where s: "open_elements tb = S @ [i]" by (cases "open_elements tb" rule: rev_cases) simp_all
  then have w: "wf_stack (tags (document tb) S @ [chars ''head''])"
    using goodD(5) [OF readyD(3) [OF assms(1)]] m(2) by simp
  then have "tags (document tb) S \<noteq> []" by (auto simp: wf_stack_def)
  moreover have "keeps 0 0 tb (tb\<lparr>open_elements := S\<rparr>)"
    using keeps_pop(2) [OF readyD(3) [OF assms(1)] s] m(2) s by (simp add: anchors_def table_sections_def)
  ultimately show ?thesis
    using mode_post [of 0 0 tb "tb\<lparr>open_elements := S\<rparr>" AfterHead] s
    by (simp add: leave_head_def pop_element_def mode_ok_body)
qed

lemma step_in_head_safe:
  assumes "ready tb" "mode tb = InHead"
  shows "safe_run tok tb (step_in_head tb tok)"
proof -
  have ne: "open_elements tb \<noteq> []" using readyD(6) [OF assms(1)] assms(2) by (auto simp: mode_ok_def)
  have p: "step_post tok tb tb" "step_post tok tb (leave_head tb)"
    using readyD(5) [OF assms(1)] leave_head_post [OF assms] by blast+
  show ?thesis
  proof (cases tok)
    case (StartTag name as sc)
    consider "name = chars ''html''" | "one_of name [''meta'', ''link'']" | "one_of name [''title'', ''style'', ''script'']"
      | "name \<noteq> chars ''html''" "\<not> one_of name [''meta'', ''link'']" "\<not> one_of name [''title'', ''style'', ''script'']" by blast
    then show ?thesis
    proof cases
      case 1
      then show ?thesis
        using start_html_safe [OF readyD(1) [OF assms(1)]]
        by (simp add: StartTag step_in_head_def keep_whitespace_def step_in_body_def start_tag_in_body_def)
    next
      case 2
      then show ?thesis
        unfolding StartTag step_in_head_void(1) [OF 2]
        using at_insert_element [OF at_ready [OF assms(1) ne]] step_in_head_void(2) [OF 2] void_post [OF assms(1)]
        by (intro ok_seq_run [where P = "\<lambda>(i, tb'). at 1 tb tb' \<and> opened tb name i tb'"]) auto
    next
      case 3
      then show ?thesis using step_in_head_text [OF assms(1) _ ne 3] assms(2) by (simp add: StartTag)
    next
      case 4
      then show ?thesis using p by (auto simp: StartTag step_in_head_def keep_whitespace_def)
    qed
  qed (use p in \<open>auto simp: step_in_head_def intro!: keep_whitespace_safe [OF assms(1)]\<close>)
qed

lemma open_body_safe:
  assumes "ready tb" "open_elements tb \<noteq> []"
  shows "ok_res (open_body tb as) (step_post tok tb)"
proof -
  have b: "plain (chars ''body'')" "chars ''body'' \<notin> set VOID_ELEMENTS"
    by (simp_all add: plain_def table_sections_def VOID_ELEMENTS_def)
  have "step_post tok tb (tb'\<lparr>mode := InBody\<rparr>)" if "at 1 tb tb'" for tb'
    using atD(2,3) [OF that] by (intro mode_post [of 1 0]) (simp_all add: mode_ok_body)
  then show ?thesis
    unfolding open_body_def using b(1)
    by (intro ok_res_bind [OF at_element_inserted [OF at_ready [OF assms]]]) auto
qed

text \<open>
  A late \<open>meta\<close>, \<open>link\<close>, \<open>title\<close>, \<open>style\<close> or \<open>script\<close> goes into the head, which is on the
  stack while the element is inserted and taken off again.
\<close>

abbreviation with_head :: "tree_builder \<Rightarrow> node_id \<Rightarrow> tree_builder" where
  "with_head tb h \<equiv> tb\<lparr>open_elements := open_elements tb @ [h]\<rparr>"

abbreviation without :: "node_id \<Rightarrow> tree_builder \<Rightarrow> tree_builder" where
  "without h tb \<equiv> tb\<lparr>open_elements := filter (\<lambda>i. i \<noteq> h) (open_elements tb)\<rparr>"

lemma insert_in_head:
  assumes "ready tb" "elem_tag (document tb) h = Some (chars ''head'')" "open_elements tb \<noteq> []"
    and "name \<in> set VOID_ELEMENTS \<or> plain name"
  shows "ok_res (insert_element (with_head tb h) name as) (\<lambda>(i, tb'). \<exists>tb1. opened tb name i tb1 \<and>
     tb' = tb1\<lparr>open_elements := open_elements tb @ [h] @ (if name \<in> set VOID_ELEMENTS then [] else [i])\<rparr> \<and>
     keeps 1 0 tb (without h tb1) \<and> without h tb' = without h tb1 \<and> i \<noteq> h)"
proof -
  note g = readyD(3) [OF assms(1)]
  have can: "can_insert (with_head tb h)" using good_can_insert [OF g] assms(2) by (simp add: can_insert_def)
  have ids: "ids_used (with_head tb h) + 1 < 2 ^ 64" using readyD(4) [OF assms(1)] by simp
  have w: "name \<in> set VOID_ELEMENTS \<or> wf_stack (stack_tags tb @ [name])"
    using assms(3,4) wf_stack_push_plain [OF goodD(5) [OF g]] by auto
  show ?thesis
  proof (rule ok_res_mono [OF insert_element_ok [OF can ids]], elim case_prodE exE conjE)
    fix p i tb' d'
    assume ins: "inserted (document (with_head tb h)) name i d'" and p: "p = (i, tb')"
      "tb' = (with_head tb h)\<lparr>document := d',
         open_elements := open_elements (with_head tb h) @ (if name \<in> set VOID_ELEMENTS then [] else [i])\<rparr>"
    let ?tb1 = "tb\<lparr>document := d', open_elements := open_elements tb @ (if name \<in> set VOID_ELEMENTS then [] else [i])\<rparr>"
    have o: "opened tb name i ?tb1" using inserted_opened [OF g _ w] ins by simp
    then have k: "keeps 1 0 tb ?tb1" by (simp add: opened_def)
    have ih: "i \<noteq> h" using ins elem_tag_alive [OF assms(2)] by (auto simp: inserted_def)
    have "elem_tag d' h = Some (chars ''head'')" using k assms(2) by (simp add: keeps_def grows_def)
    then have "keeps 0 0 ?tb1 (without h ?tb1)"
      using keeps_remove [of ?tb1 "active_formatting ?tb1" h 0 0] k
      by (simp add: keeps_def anchors_def table_sections_def)
    then have "keeps 1 0 tb (without h ?tb1)" using keeps_trans [OF k] by simp
    with o ih p show "case p of (i, tb') \<Rightarrow> \<exists>tb1. opened tb name i tb1 \<and>
        tb' = tb1\<lparr>open_elements := open_elements tb @ [h] @ (if name \<in> set VOID_ELEMENTS then [] else [i])\<rparr> \<and>
        keeps 1 0 tb (without h tb1) \<and> without h tb' = without h tb1 \<and> i \<noteq> h"
      by (auto intro!: exI [of _ ?tb1])
  qed
qed

lemma text_in_head_post:
  assumes "body_mode tb" "mode tb = AfterHead" "opened tb name i tb1" "keeps 1 0 tb (without h tb1)" "i \<noteq> h"
    and "name \<notin> set VOID_ELEMENTS" "name \<noteq> chars ''html''"
    and "model = ScriptData \<Longrightarrow> tok = StartTag (chars ''script'') as sc"
  shows "step_post tok tb (without h (tb1\<lparr>tokenizer := set_content_model (tokenizer tb1) model,
     original_mode := mode tb1, mode := mode.Text\<rparr>))"
proof -
  have S: "open_elements tb1 = open_elements tb @ [i]" and m: "mode tb1 = mode tb" "tokenizer tb1 = tokenizer tb"
    "elem_tag (document tb1) i = Some name"
    using assms(3,6) by (simp_all add: opened_def keeps_def)
  have "chars ''html'' \<in> set (stack_tags tb)"
    by (rule html_on_stack [OF goodD(5)]) (use at_start [OF assms(1)] in \<open>simp_all add: at_def keeps_def\<close>)
  then have "chars ''html'' \<in> set (stack_tags (without h tb1))"
    using assms(4) by (auto simp: keeps_def anchors_def)
  then have "filter (\<lambda>i. i \<noteq> h) (open_elements tb) \<noteq> []" using S m(3) assms(5,7) by (auto simp: tags_def filter_empty_conv)
  then show ?thesis
    using assms(2,4,5) may_switch_model [of model tok as sc "tokenizer tb", OF assms(8)] m S
    by (simp add: step_post_def builder_inv_def keeps_def mode_ok_body good_def)
qed

lemma head_content_tag:
  assumes "one_of name [''meta'', ''link'', ''title'', ''style'', ''script'']"
  shows "name \<in> set VOID_ELEMENTS \<or> plain name" "name \<noteq> chars ''html''"
  using assms unfolding one_of_def list_ex_Cons_iff list_ex_Nil_iff
  by (elim disjE FalseE, simp_all add: plain_def VOID_ELEMENTS_def table_sections_def)+

lemma step_in_pushed_head:
  assumes "ready tb" "mode tb = AfterHead" "head_element tb = Some h"
    and "one_of name [''meta'', ''link'', ''title'', ''style'', ''script'']"
  shows "safe_run (StartTag name as sc) tb (run_bind (step_in_head (with_head tb h) (StartTag name as sc))
     (\<lambda>(r, tb). Some (Inr (r, without h tb))))"
proof -
  have b: "body_mode tb" using body_mode_ready [OF assms(1)] assms(2) by simp
  have ne: "open_elements tb \<noteq> []" using at_start [OF b] by (simp add: at_def)
  have h: "elem_tag (document tb) h = Some (chars ''head'')" using readyD(3) [OF assms(1)] assms(3) by (simp add: good_def)
  note n = head_content_tag [OF assms(4)]
  note ins = insert_in_head [OF assms(1) h ne n(1), of as]
  show ?thesis
  proof (cases "one_of name [''meta'', ''link'']")
    case True
    then show ?thesis
      unfolding step_in_head_void(1) [OF True] using ins keeps_step_post [OF b]
      by (auto elim!: ok_resE simp: finish_def follows_def)
  next
    case False
    then have t: "one_of name [''title'', ''style'', ''script'']" "name \<notin> set VOID_ELEMENTS"
      using assms(4) by (auto simp: one_of_def VOID_ELEMENTS_def)
    then have e: "step_in_head (with_head tb h) (StartTag name as sc) = seq_run (switch_to_text_mode (with_head tb h) name as) finish"
      by (auto simp: step_in_head_def keep_whitespace_def one_of_def)
    from ins obtain i tb1 where i: "insert_element (with_head tb h) name as = Inr (i, tb1\<lparr>open_elements := open_elements tb @ [h, i]\<rparr>)"
      "opened tb name i tb1" "keeps 1 0 tb (without h tb1)" "i \<noteq> h"
      using t(2) by (auto elim!: ok_resE)
    have "open_elements tb1 = open_elements tb @ [i]" using i(2) t(2) by (simp add: opened_def)
    then show ?thesis
      using text_in_head_post [OF b assms(2) i(2-4) t(2) n(2), of _ "StartTag name as sc" as sc] i(4)
      by (auto simp: e i(1) switch_to_text_mode_def finish_def follows_def Let_def)
  qed
qed

lemma step_after_head_safe:
  assumes "ready tb" "mode tb = AfterHead"
  shows "safe_run tok tb (step_after_head tb tok)"
proof -
  have b: "body_mode tb" using body_mode_ready [OF assms(1)] assms(2) by simp
  have ne: "open_elements tb \<noteq> []" using at_start [OF b] by (simp add: at_def)
  note body = ok_seq_run [OF open_body_safe [OF assms(1) ne, where tok = tok]]
  have p: "step_post tok tb tb" by (rule readyD(5) [OF assms(1)])
  have other: "safe_run tok tb (seq_run (open_body tb []) (reprocess tok))" by (rule body) simp
  show ?thesis
  proof (cases tok)
    case (StartTag name as sc)
    have head: "safe_run tok tb (case head_element tb of None \<Rightarrow> seq_run (open_body tb []) (reprocess tok)
       | Some h \<Rightarrow> run_bind (step_in_head (with_head tb h) tok) (\<lambda>(r, tb). Some (Inr (r, without h tb))))"
      if "one_of name [''meta'', ''link'', ''title'', ''style'', ''script'']"
      using step_in_pushed_head [OF assms _ that] other by (auto simp: StartTag split: option.splits)
    have "safe_run tok tb (seq_run (open_body tb as) finish)" by (rule body) simp
    with head other p step_in_body_safe [OF b, of tok] show ?thesis
      unfolding step_after_head_def keep_whitespace_def end_token_ok_def StartTag html_token.case Let_def
      by - (intro ok_run_if, simp_all)
  qed (use p other in \<open>auto simp: step_after_head_def Let_def intro!: keep_whitespace_safe [OF assms(1)]\<close>)
qed

section \<open>Raw text\<close>

lemma leave_text_post:
  assumes "ready tb" "mode tb = mode.Text"
  shows "step_post tok tb (leave_text tb)"
proof -
  have t: "open_elements tb \<noteq> []" "mode_ok (original_mode tb) (butlast (stack_tags tb))"
    using readyD(1) [OF assms(1)] assms(2) by (simp_all add: builder_inv_def)
  then obtain S i where s: "open_elements tb = S @ [i]" by (meson rev_exhaust)
  have "original_mode tb \<noteq> mode.Text" using t(2) by (simp add: mode_ok_def)
  then show ?thesis
    using keeps_pop(1) [OF readyD(3) [OF assms(1)] s] t(2) s may_switch_model [of content_model.Data tok]
    by (simp add: leave_text_def pop_element_def step_post_def builder_inv_def)
qed

lemma step_text_safe:
  assumes "ready tb" "mode tb = mode.Text"
  shows "safe_run tok tb (step_text tb tok)"
proof -
  have r: "ready (tb\<lparr>strip_leading_newline := b\<rparr>)" for b
    using assms(1) by (simp add: ready_def builder_inv_def has_room_def)
  have "safe_run tok tb (seq_run (insert_text (tb\<lparr>strip_leading_newline := b\<rparr>) s) finish)" for b s
    by (rule ok_seq_run [OF keep_text [OF r, where tok = tok]]) simp
  moreover have "safe_run tok tb (seq_run (insert_text tb s) finish)" for s
    using keep_text [OF assms(1), of s tok] by (intro ok_seq_run) simp_all
  ultimately have "safe_run tok tb (let (s', tb') = consume_leading_newline_strip tb s in seq_run (insert_text tb' s') finish)" for s
    unfolding consume_leading_newline_strip_def by (simp add: Let_def)
  then show ?thesis
    using leave_text_post [OF assms] readyD(5) [OF assms(1)]
    by (auto simp: step_text_def split: html_token.splits)
qed

end
