(* ===== verification/Html_Table_Safe.thy ===== *)
theory Html_Table_Safe
  imports Html_Modes_Safe
begin

text \<open>
  The insertion modes of tables, the dispatch, and the safety of the tree builder: no state that
  it can reach makes the tokenizer or a step panic.
\<close>

declare chars_simps [simp del]

section \<open>Clearing the stack\<close>

lemma step_post_start [simp]:
  "step_post tok (tb\<lparr>open_elements := S\<rparr>) tb' = step_post tok tb tb'"
  "step_post tok (tb\<lparr>mode := m\<rparr>) tb' = step_post tok tb tb'"
  by (simp_all add: step_post_def)

lemma opened_tags:
  assumes "opened tb name i tb'" "name \<notin> set VOID_ELEMENTS"
  shows "stack_tags tb' = stack_tags tb @ [name]" "keeps 1 0 tb tb'"
proof -
  have "stack_tags tb' = stack_tags tb @ (if name \<in> set VOID_ELEMENTS then [] else [name])"
    using assms(1) unfolding opened_def by (elim conjE)
  then show "stack_tags tb' = stack_tags tb @ [name]" "keeps 1 0 tb tb'"
    using assms by (simp_all add: opened_def)
qed

lemma clear_stack_ok:
  assumes "good tb" "s \<in> set stops" "chars s \<in> set (stack_tags tb)" "''html'' \<notin> set stops"
  shows "ok_res (clear_stack_back_to tb stops) (\<lambda>tb'. \<exists>S1. tb' = tb\<lparr>open_elements := S1\<rparr> \<and> good tb' \<and> S1 \<noteq> [] \<and>
     last (tags (document tb) S1) \<in> chars ` set stops)"
proof -
  let ?T = "chars ''html'' # map chars stops"
  let ?P = "\<lambda>i. the (elem_tag (document tb) i) \<notin> set ?T"
  have "ok_res (clear_stack_back_to tb stops) (\<lambda>tb'. \<exists>S1 S2. open_elements tb = S1 @ S2 \<and>
    tb' = tb\<lparr>open_elements := S1\<rparr> \<and> (\<forall>j\<in>set S2. ?P j) \<and> (S1 \<noteq> [] \<longrightarrow> \<not> ?P (last S1)))"
    unfolding clear_stack_back_to_def
    by (rule pop_while_stack) (simp add: has_tag_elem [OF good_stack [OF assms(1)]])
  moreover have "good (tb\<lparr>open_elements := S1\<rparr>) \<and> S1 \<noteq> [] \<and> last (tags (document tb) S1) \<in> chars ` set stops"
    if s: "open_elements tb = S1 @ S2" "\<forall>j\<in>set S2. ?P j" "S1 \<noteq> [] \<longrightarrow> \<not> ?P (last S1)" for S1 S2
  proof -
    have "chars s \<noteq> the (elem_tag (document tb) j)" if "j \<in> set S2" for j
      using bspec [OF s(2) that] imageI [OF assms(2), of chars] by (metis list.set_intros(2) list.set_map)
    then have "chars s \<in> set (tags (document tb) S1)"
      using assms(3) s(1) by (auto simp: tags_def)
    then have ne: "S1 \<noteq> []" "tags (document tb) S1 \<noteq> [chars ''html'']" using assms(2,4) by auto
    obtain R i where r: "S1 = R @ [i]" using ne(1) by (meson rev_exhaust)
    have "wf_stack (tags (document tb) R @ the (elem_tag (document tb) i) # tags (document tb) S2)"
      using goodD(5) [OF assms(1)] s(1) r by simp
    from wf_stack_split [OF this] have "the (elem_tag (document tb) i) \<noteq> chars ''html''" using ne(2) r by auto
    then show ?thesis using keeps_pop(1) [OF assms(1) s(1)] s(3) r ne(1) by auto
  qed
  ultimately show ?thesis by (elim ok_res_mono) blast
qed

lemma insert_cleared:
  assumes "ready tb" "s \<in> set stops" "chars s \<in> set (stack_tags tb)" "''html'' \<notin> set stops"
    and "name \<notin> set VOID_ELEMENTS" "\<And>t. t \<in> set stops \<Longrightarrow> stack_next (chars t) name"
    and "\<And>t ts. t \<in> set stops \<Longrightarrow> chars t \<in> set ts \<Longrightarrow> mode_ok m (ts @ [name])"
  shows "ok_res (insert_structure tb stops name as m)
    (\<lambda>tb'. step_post tok tb tb' \<and> active_formatting tb' = active_formatting tb)"
  unfolding insert_structure_def
proof (rule ok_res_bind [OF clear_stack_ok [OF readyD(3) [OF assms(1)] assms(2-4)]], elim exE conjE)
  fix tb1 S
  assume c: "tb1 = tb\<lparr>open_elements := S\<rparr>" "good tb1" "S \<noteq> []" "last (tags (document tb) S) \<in> chars ` set stops"
  then obtain t where t: "t \<in> set stops" "chars t = last (stack_tags tb1)" by auto
  have "wf_stack (stack_tags tb1 @ [name])"
    using assms(6) [OF t(1)] t(2) c(1,3) by (intro wf_stack_push [OF goodD(5) [OF c(2)]]) simp_all
  then have "ok_res (insert_element tb1 name as) (\<lambda>(i, tb'). opened tb1 name i tb')"
    using readyD(4) [OF assms(1)] c(1) by (intro insert_element_opened [OF c(2)]) simp_all
  moreover have "step_post tok tb (tb'\<lparr>mode := m\<rparr>) \<and> active_formatting tb' = active_formatting tb" if o: "opened tb1 name i tb'" for i tb'
  proof -
    have "chars t \<in> set (stack_tags tb1)" using t(2) c(1,3) by (simp add: last_in_set del: last_map)
    from assms(7) [OF t(1) this] have "mode_ok m (stack_tags tb')" unfolding opened_tags(1) [OF o assms(5)] .
    with mode_post [OF opened_tags(2) [OF o assms(5)], of m tok] show ?thesis using c(1) o by (simp add: opened_def)
  qed
  ultimately show "ok_res (res_bind (insert_element tb1 name as) (\<lambda>(_, tb). Inr (tb\<lparr>mode := m\<rparr>)))
      (\<lambda>tb'. step_post tok tb tb' \<and> active_formatting tb' = active_formatting tb)"
    by (auto elim!: ok_resE)
qed

section \<open>In a table\<close>

definition table_mode :: "tree_builder \<Rightarrow> bool" where
  "table_mode tb \<longleftrightarrow> ready tb \<and> mode tb \<in> {InTable, InTableBody, InRow}"

lemma table_modeD:
  assumes "table_mode tb"
  shows "ready tb" "body_mode tb" "chars ''table'' \<in> set (stack_tags tb)" "mode tb \<noteq> mode.Text" "open_elements tb \<noteq> []"
proof -
  have r: "ready tb" "mode tb \<in> {InTable, InTableBody, InRow}" using assms by (simp_all add: table_mode_def)
  then show "ready tb" "mode tb \<noteq> mode.Text" "body_mode tb" using body_mode_ready by auto
  have m: "mode_ok (mode tb) (stack_tags tb)" using readyD(6) [OF r(1)] r(2) by auto
  then show "open_elements tb \<noteq> []" using r(2) by (auto simp: mode_ok_def)
  have w: "wf_stack (stack_tags tb)" by (rule goodD(5) [OF readyD(3) [OF r(1)]])
  have "t \<in> anchors \<and> t \<noteq> chars ''html''" if "t \<in> {chars ''table'', chars ''tr''} \<union> table_sections" for t
    using that by (auto simp: anchors_def table_sections_def)
  moreover have "\<exists>t\<in>{chars ''table'', chars ''tr''} \<union> table_sections. t \<in> set (stack_tags tb)"
    using m r(2) by (auto simp: mode_ok_body)
  ultimately show "chars ''table'' \<in> set (stack_tags tb)" using table_on_stack [OF w] by blast
qed

lemma table_structure:
  assumes "name \<in> {chars ''caption'', chars ''colgroup''} \<union> table_sections"
  shows "stack_next (chars ''table'') name" "name \<notin> set VOID_ELEMENTS"
  using assms by (auto simp: stack_next_def table_sections_def VOID_ELEMENTS_def)

lemma one_of_sections: "one_of name [''tbody'', ''thead'', ''tfoot''] \<longleftrightarrow> name \<in> table_sections"
  by (auto simp: one_of_def table_sections_def)

lemmas insert_cleared_post = ok_res_mono [OF insert_cleared conjunct1]

lemma insert_table_structure:
  assumes "table_mode tb"
  shows "ok_res (insert_structure tb [''table''] (chars ''colgroup'') as InColumnGroup) (step_post tok tb)"
    "name \<in> table_sections \<Longrightarrow> ok_res (insert_structure tb [''table''] name as InTableBody) (step_post tok tb)"
  using table_structure [of "chars ''colgroup''"] table_structure [of name]
  by (intro insert_cleared_post [OF table_modeD(1) [OF assms], where s = "''table''"];
      (auto simp: table_modeD(3) [OF assms] mode_ok_body)?)+

lemma insert_caption:
  assumes "table_mode tb"
  shows "ok_run (seq_run (clear_stack_back_to tb [''table'']) (\<lambda>tb. seq_run (element_inserted (insert_afe_marker tb) ''caption'' as)
    (\<lambda>tb. finish (tb\<lparr>mode := InCaption\<rparr>)))) (\<lambda>(r, tb'). follows tok r \<and> step_post tok tb tb')"
proof -
  have "''html'' \<notin> set [''table'']" by simp
  note clear = clear_stack_ok [OF readyD(3) [OF table_modeD(1) [OF assms]] list.set_intros(1) table_modeD(3) [OF assms] this]
  show ?thesis
  proof (rule ok_seq_run [OF clear], elim exE conjE)
    fix tb1 S
    let ?tb = "insert_afe_marker tb1"
    assume c: "tb1 = tb\<lparr>open_elements := S\<rparr>" "good tb1" "S \<noteq> []" "last (tags (document tb) S) \<in> chars ` set [''table'']"
    have cap: "stack_next (chars ''table'') (chars ''caption'')" "chars ''caption'' \<notin> set VOID_ELEMENTS"
      using table_structure [of "chars ''caption''"] by simp_all
    have k: "keeps 0 1 tb1 ?tb" by (rule insert_afe_marker_keeps [OF c(2)])
    have t: "stack_tags ?tb = tags (document tb) S" "ids_used ?tb = ids_used tb" by (simp_all add: insert_afe_marker_def c(1))
    have g: "good ?tb" using k by (simp add: keeps_def)
    have "wf_stack (stack_tags ?tb @ [chars ''caption''])"
      using cap(1) c(3,4) t by (intro wf_stack_push [OF goodD(5) [OF g]]) auto
    then have "ok_res (insert_element ?tb (chars ''caption'') as) (\<lambda>(i, tb'). opened ?tb (chars ''caption'') i tb')"
      using readyD(4) [OF table_modeD(1) [OF assms]] t(2) by (intro insert_element_opened [OF g]) simp_all
    moreover have "step_post tok tb (tb'\<lparr>mode := InCaption\<rparr>)" if o: "opened ?tb (chars ''caption'') i tb'" for i tb'
    proof -
      note o = opened_tags [OF o cap(2)]
      have "last (tags (document tb) S) \<in> set (tags (document tb) S)" using c(3) by (intro last_in_set) simp
      then have "chars ''table'' \<in> set (tags (document tb) S)" using c(4) by simp
      then have "mode_ok InCaption (stack_tags tb')" unfolding o(1) t(1) by (simp add: mode_ok_body)
      with mode_post [OF keeps_trans [OF k o(2), of 1 1], of InCaption tok] show ?thesis using c(1) by simp
    qed
    ultimately show "ok_run (seq_run (element_inserted ?tb ''caption'' as) (\<lambda>tb. finish (tb\<lparr>mode := InCaption\<rparr>)))
        (\<lambda>(r, tb'). follows tok r \<and> step_post tok tb tb')"
      by (auto simp: element_inserted_def elim!: ok_resE)
  qed
qed

lemma close_table_safe:
  assumes "ready tb"
  shows "ok_res (close_table tb) (step_post tok tb)"
proof -
  note g = readyD(3) [OF assms]
  have "ok_res (res_bind (pop_until_and_including tb (chars ''table'')) reset_insertion_mode) (step_post tok tb)"
    if "in_scope tb (set [chars ''table''])"
    unfolding pop_until_and_including_def
  proof (rule ok_res_bind [OF pop_through_scope [OF g that]], elim exE conjE)
    fix tb1 S1 i S2
    assume s: "open_elements tb = S1 @ i # S2" "the (elem_tag (document tb) i) \<in> set [chars ''table'']" "tb1 = tb\<lparr>open_elements := S1\<rparr>"
    have "wf_stack (tags (document tb) S1 @ chars ''table'' # tags (document tb) S2)"
      using goodD(5) [OF g] s(1,2) by simp
    then have "open_elements tb1 \<noteq> []" using s(3) by (auto simp: wf_stack_def)
    moreover have "good tb1" unfolding s(3) by (rule keeps_pop(1) [OF g s(1)])
    ultimately show "ok_res (reset_insertion_mode tb1) (step_post tok tb)"
      using mode_post [OF keeps_refl [of tb1 0 0]] s(3)
      by (intro ok_res_mono [OF reset_insertion_mode_ok]) auto
  qed
  then show ?thesis
    unfolding close_table_def
    by (intro ok_res_bind [OF has_tag_in_scope_ok [OF g]]) (simp add: readyD(5) [OF assms])
qed

lemma with_foster_parenting_safe:
  assumes "safe_run tok tb (f (tb\<lparr>foster_parenting := True\<rparr>))"
  shows "safe_run tok tb (with_foster_parenting f tb)"
  unfolding with_foster_parenting_def by (rule ok_run_bind [OF assms]) auto

lemma end_token_update [simp]:
  "end_token_ok (tb\<lparr>foster_parenting := b\<rparr>) tok = end_token_ok tb tok"
  "end_token_ok (tb\<lparr>strip_leading_newline := b\<rparr>) tok = end_token_ok tb tok"
  by (cases tok; simp add: end_token_ok_def end_ok_def)+

lemma foster_body_safe:
  assumes "body_mode tb" "end_token_ok tb tok"
  shows "safe_run tok tb (with_foster_parenting (\<lambda>tb. step_in_body tb tok) tb)"
  using step_in_body_safe [of "tb\<lparr>foster_parenting := True\<rparr>" tok] assms
  by (intro with_foster_parenting_safe) simp

lemma table_text_safe:
  assumes "table_mode tb"
  shows "safe_run tok tb (table_text tb s)"
proof -
  let ?tb = "tb\<lparr>foster_parenting := True\<rparr>"
  have b: "body_mode ?tb" using table_modeD(2) [OF assms] by simp
  have "safe_run tok ?tb (seq_run (reconstruct_active_formatting_elements ?tb) (\<lambda>tb. seq_run (insert_text tb s') finish))" for s'
    using at_start [OF b] by - ((erule statements)+, simp only: safe_finish, erule at_finish [OF _ b]; simp)
  then have "safe_run tok tb (seq_run (reconstruct_active_formatting_elements ?tb) (\<lambda>tb. seq_run (insert_text tb s') finish))" for s'
    by simp
  moreover have "safe_run tok tb (seq_run (insert_text tb s') finish)" for s'
    by (rule ok_seq_run [OF keep_text [OF table_modeD(1) [OF assms], where tok = tok]]) simp
  ultimately show ?thesis
    unfolding table_text_def Let_def by (intro ok_run_if with_foster_parenting_safe)
qed

lemma table_form_safe:
  assumes "table_mode tb"
  shows "safe_run tok tb (table_form tb as)"
proof -
  have f: "chars ''form'' \<notin> set VOID_ELEMENTS" "plain (chars ''form'')" "chars ''form'' \<notin> anchors"
    by (simp_all add: VOID_ELEMENTS_def plain_def table_sections_def anchors_def)
  note b = table_modeD(2) [OF assms]
  have "step_post tok tb (pop_element (tb'\<lparr>form_element := Some i\<rparr>))"
    if a: "at 1 tb tb'" and o: "opened tb1 (chars ''form'') i tb'" for i tb1 tb'
  proof -
    have e: "elem_tag (document tb') i = Some (chars ''form'')" "last (open_elements tb') = i"
      using o f(1) by (simp_all add: opened_def)
    have "keeps 1 0 tb ((pop_element tb')\<lparr>form_element := Some i\<rparr>)"
      using e(1) by (intro keeps_form [OF atD(2) [OF at_pop [OF a _ f(3)]]]) (simp_all add: e pop_element_def)
    moreover have "pop_element (tb'\<lparr>form_element := Some i\<rparr>) = (pop_element tb')\<lparr>form_element := Some i\<rparr>"
      by (cases tb') (simp add: pop_element_def)
    ultimately show ?thesis using keeps_step_post [OF b, of 1 0] by simp
  qed
  then show ?thesis
    using at_start [OF b] f readyD(5) [OF table_modeD(1) [OF assms]] unfolding table_form_def
    by - (rule ok_run_if, simp, erule statements; simp)
qed

lemma start_tag_in_table_safe:
  assumes "table_mode tb"
  shows "safe_run (StartTag name as sc) tb (start_tag_in_table tb (StartTag name as sc) name as)"
proof -
  let ?tok = "StartTag name as sc"
  note r = table_modeD [OF assms]
  have tb: "chars ''tbody'' \<in> table_sections" by (simp add: table_sections_def)
  have "safe_run ?tok tb (seq_run (element_inserted tb ''input'' as) finish)"
    using at_start [OF r(2)] by - (erule statements, simp only: safe_finish, erule at_finish [OF _ r(2)]; simp add: void_or_plain)
  moreover have "safe_run ?tok tb (step_in_head tb ?tok)" if "one_of name [''style'', ''script'']"
    using that by (intro step_in_head_text [OF r(1,4,5)]) (auto simp: one_of_def)
  moreover have "safe_run ?tok tb (with_foster_parenting (\<lambda>tb. step_in_body tb ?tok) tb)"
    by (rule foster_body_safe [OF r(2)]) (simp add: end_token_ok_def)
  ultimately show ?thesis
    unfolding start_tag_in_table_def
    by (intro ok_run_if insert_caption [OF assms] table_form_safe [OF assms]
        ok_seq_run [OF insert_table_structure(1) [OF assms, where tok = ?tok]]
        ok_seq_run [OF insert_table_structure(2) [OF assms, where tok = ?tok]]
        ok_seq_run [OF close_table_safe [OF r(1), where tok = ?tok]])
      (simp_all add: one_of_sections tb)
qed

lemma step_in_table_safe:
  assumes "table_mode tb"
  shows "safe_run tok tb (step_in_table tb tok)"
proof (cases tok)
  case (EndTag name)
  have "end_token_ok tb tok" if "name \<noteq> chars ''table''" "\<not> one_of name [''body'', ''caption'', ''col'', ''colgroup'', ''html'', ''tbody'', ''td'',
                               ''tfoot'', ''th'', ''thead'', ''tr'']"
    using that by (auto simp: EndTag end_token_ok_def end_ok_def anchors_def table_sections_def one_of_def)
  then have "safe_run tok tb (with_foster_parenting (\<lambda>tb. step_in_body tb tok) tb)"
    if "name \<noteq> chars ''table''" "\<not> one_of name [''body'', ''caption'', ''col'', ''colgroup'', ''html'', ''tbody'', ''td'',
                               ''tfoot'', ''th'', ''thead'', ''tr'']"
    using that foster_body_safe [OF table_modeD(2) [OF assms]] by blast
  moreover have "safe_run tok tb (seq_run (close_table tb) finish)"
    by (rule ok_seq_run [OF close_table_safe [OF table_modeD(1) [OF assms], where tok = tok]]) simp
  ultimately show ?thesis
    unfolding step_in_table_def EndTag html_token.case
    using readyD(5) [OF table_modeD(1) [OF assms]] by (intro ok_run_if) simp_all
qed (use readyD(5) [OF table_modeD(1) [OF assms]] foster_body_safe [OF table_modeD(2) [OF assms], of Eof] in
    \<open>simp_all add: step_in_table_def table_text_safe [OF assms] start_tag_in_table_safe [OF assms] end_token_ok_def\<close>)

section \<open>Captions and column groups\<close>

lemma anchor_kept: "keeps k l tb tb' \<Longrightarrow> t \<in> anchors \<Longrightarrow> t \<in> set (stack_tags tb) \<Longrightarrow> t \<in> set (stack_tags tb')"
  by (auto simp: keeps_def)

lemma keeps_good: "keeps k l tb tb' \<Longrightarrow> good tb'"
  by (simp add: keeps_def)

lemma table_anchors [simp]: "chars ''table'' \<in> anchors" "chars ''tr'' \<in> anchors"
  by (simp_all add: anchors_def)

lemma close_caption_keeps:
  assumes "good tb"
  shows "ok_res (close_caption tb clear) (\<lambda>(b, tb'). keeps 0 0 tb tb')"
proof -
  have c: "t \<notin> anchors \<and> (t \<in> set IMPLIED_END_TAGS \<longrightarrow> None = Some t)" if "t \<in> set [chars ''caption'']" for t
    using that by (simp add: anchors_def table_sections_def IMPLIED_END_TAGS_def)
  have pop: "ok_res (res_bind (generate_implied_end_tags tb None) (\<lambda>tb. pop_until_and_including tb (chars ''caption'')))
      (keeps 0 0 tb)" if "in_scope tb {chars ''caption''}"
    unfolding pop_until_and_including_def using that by (intro close_in_scope_keeps [OF assms _ c]) simp_all
  have split: "res_bind r (\<lambda>tb. res_bind (g tb) f) = res_bind (res_bind r g) f" for r :: "tree_builder tb_res"
    and g :: "tree_builder \<Rightarrow> tree_builder tb_res" and f :: "tree_builder \<Rightarrow> (bool \<times> tree_builder) tb_res"
    by (cases r) simp_all
  have "keeps 0 0 tb (if clear then clear_afe_up_to_last_marker tb' else tb')" if k: "keeps 0 0 tb tb'" for tb'
    using keeps_trans [OF k clear_afe_keeps [OF keeps_good [OF k], of 0 0]] k by simp
  then show ?thesis
    unfolding close_caption_def split
    by (intro ok_res_bind [OF has_tag_in_scope_ok [OF assms]]) (auto intro!: ok_res_bind [OF pop] keeps_refl [OF assms])
qed

lemma step_in_caption_safe:
  assumes "ready tb" "mode tb = InCaption"
  shows "safe_run tok tb (step_in_caption tb tok)"
proof -
  have b: "body_mode tb" using body_mode_ready [OF assms(1)] assms(2) by simp
  have t: "chars ''table'' \<in> set (stack_tags tb)" using readyD(6) [OF assms(1)] assms(2) by (simp add: mode_ok_body)
  have p: "step_post tok tb tb'" "step_post tok tb (tb'\<lparr>mode := InTable\<rparr>)" if k: "keeps 0 0 tb tb'" for tb'
    using keeps_step_post [OF b k] mode_post [OF k] anchor_kept [OF k _ t] by (simp_all add: mode_ok_body)
  note close = ok_seq_run [OF close_caption_keeps [OF readyD(3) [OF assms(1)]]]
  have again: "safe_run tok tb (seq_run (close_caption tb c) (\<lambda>(closed, tb).
      reprocess tok (if closed then tb\<lparr>mode := InTable\<rparr> else tb)))" for c
    by (rule close) (auto intro: p)
  have fin: "safe_run tok tb (seq_run (close_caption tb c) (\<lambda>(_, tb). finish (tb\<lparr>mode := InTable\<rparr>)))" for c
    by (rule close) (auto intro: p)
  show ?thesis
  proof (cases tok)
    case (EndTag name)
    have "end_token_ok tb tok" if "name \<noteq> chars ''table''"
      using that assms(2) by (simp add: EndTag end_token_ok_def end_ok_def)
    with again fin step_in_body_safe [OF b, of tok] show ?thesis
      unfolding step_in_caption_def EndTag html_token.case by (intro ok_run_if) simp_all
  qed (use again step_in_body_safe [OF b, of tok] in \<open>simp_all add: step_in_caption_def end_token_ok_def\<close>)
qed

lemma leave_column_group_safe:
  assumes "ready tb" "mode tb = InColumnGroup"
  shows "ok_res (leave_column_group tb) (step_post tok tb)"
proof -
  have b: "body_mode tb" using body_mode_ready [OF assms(1)] assms(2) by simp
  have t: "chars ''table'' \<in> set (stack_tags tb)" using readyD(6) [OF assms(1)] assms(2) by (simp add: mode_ok_body)
  have c: "\<And>t. t \<in> set [chars ''colgroup''] \<Longrightarrow> t \<notin> anchors" by (simp add: anchors_def table_sections_def)
  have "ok_run (seq_run (res_bind (current_node tb) (has_tag tb [chars ''colgroup'']))
      (\<lambda>b. Some (Inr ((if b then pop_element tb else tb)\<lparr>mode := InTable\<rparr>)))) (step_post tok tb)"
    using at_start [OF b]
  proof (rule seq_current [OF _ _ c])
    fix cur
    let ?tb = "if cur then pop_element tb else tb"
    assume "at 0 tb ?tb"
    then have k: "keeps 0 0 tb ?tb" by (rule atD(2))
    then show "ok_run (Some (Inr (?tb\<lparr>mode := InTable\<rparr>))) (step_post tok tb)"
      using mode_post [OF k] anchor_kept [OF k _ t] by (simp only: ok_simps) (simp add: mode_ok_body)
  qed
  then show ?thesis
    unfolding leave_column_group_def is_current_def
    by (cases "res_bind (current_node tb) (has_tag tb [chars ''colgroup''])") (auto simp: ok_res_def ok_run_def)
qed

lemma step_in_column_group_safe:
  assumes "ready tb" "mode tb = InColumnGroup"
  shows "safe_run tok tb (step_in_column_group tb tok)"
proof -
  have b: "body_mode tb" using body_mode_ready [OF assms(1)] assms(2) by simp
  note leave = ok_seq_run [OF leave_column_group_safe [OF assms, where tok = tok]]
  have "safe_run tok tb (seq_run (leave_column_group tb) (reprocess tok))" by (rule leave) simp
  moreover have "safe_run tok tb (seq_run (leave_column_group tb) finish)" by (rule leave) simp
  moreover have "safe_run tok tb (seq_run (element_inserted tb ''col'' as) finish)" for as
    using at_start [OF b] by - (erule statements, simp only: safe_finish, erule at_finish [OF _ b]; simp add: void_or_plain)
  ultimately show ?thesis
    unfolding step_in_column_group_def Let_def using readyD(5) [OF assms(1)]
    by (intro keep_whitespace_safe [OF assms(1)]) (auto split: html_token.splits)
qed

section \<open>Sections and rows\<close>

lemma close_table_section_safe:
  assumes "ready tb" "mode tb = InTableBody"
  shows "ok_res (close_table_section tb) (\<lambda>tb'. step_post tok tb (tb'\<lparr>mode := InTable\<rparr>))"
proof -
  let ?T = "[chars ''tbody'', chars ''thead'', chars ''tfoot'']"
  let ?P = "\<lambda>i. the (elem_tag (document tb) i) \<in> set ?T"
  note g = readyD(3) [OF assms(1)]
  have "\<exists>i\<in>set (open_elements tb). ?P i"
    using readyD(6) [OF assms(1)] assms(2) by (auto simp: mode_ok_body table_sections_def tags_def)
  from split_list_last_prop [OF this] obtain S1 i S2 where
    s: "open_elements tb = S1 @ i # S2" "?P i" "\<forall>j\<in>set S2. \<not> ?P j" by blast
  have pop: "close_table_section tb = Inr (tb\<lparr>open_elements := S1\<rparr>)"
    unfolding close_table_section_def
    by (rule pop_through_stack [OF _ s(1), of _ ?P]) (use s(2,3) has_tag_elem [OF good_stack [OF g]] in auto)
  have "wf_stack (tags (document tb) S1 @ the (elem_tag (document tb) i) # tags (document tb) S2)"
    using goodD(5) [OF g] s(1) by simp
  from wf_stack_split [OF this] s(2) have "tags (document tb) S1 \<noteq> []" "last (tags (document tb) S1) = chars ''table''"
    by (auto simp: stack_next_def plain_def table_sections_def)
  then have "chars ''table'' \<in> set (tags (document tb) S1)" using last_in_set by metis
  then have "step_post tok (tb\<lparr>open_elements := S1\<rparr>) (tb\<lparr>open_elements := S1, mode := InTable\<rparr>)"
    by (intro mode_post [OF keeps_refl [OF keeps_pop(1) [OF g s(1)]], of 0 0]) (simp_all add: mode_ok_body)
  then show ?thesis by (simp add: pop)
qed

lemma section_structure:
  assumes "ready tb" "mode tb = InTableBody"
  shows "ok_res (insert_structure tb sections (chars ''tr'') as InRow) (step_post tok tb)"
proof -
  obtain s where s: "s \<in> set sections" "chars s \<in> set (stack_tags tb)"
    using readyD(6) [OF assms(1)] assms(2) by (auto simp: mode_ok_body table_sections_def sections_def)
  show ?thesis
    by (rule insert_cleared_post [OF assms(1) s])
      (auto simp: sections_def VOID_ELEMENTS_def stack_next_def table_sections_def mode_ok_body)
qed

lemma table_body_mode:
  assumes "ready tb" "mode tb = InTableBody"
  shows "table_mode tb" "step_post tok tb (tb\<lparr>mode := InTable\<rparr>)"
proof -
  show t: "table_mode tb" using assms by (simp add: table_mode_def)
  show "step_post tok tb (tb\<lparr>mode := InTable\<rparr>)"
    using table_modeD(3) [OF t] by (intro mode_post [OF keeps_refl [OF readyD(3) [OF assms(1)]], of 0 0]) (simp_all add: mode_ok_body)
qed

lemma step_in_table_body_safe:
  assumes "ready tb" "mode tb = InTableBody"
  shows "safe_run tok tb (step_in_table_body tb tok)"
proof -
  note tm = table_body_mode [OF assms]
  have leave: "ok_res (leave_section tb) (step_post tok tb)"
    unfolding leave_section_def by (rule ok_res_bind [OF close_table_section_safe [OF assms]]) simp
  have again: "safe_run tok tb (seq_run (leave_section tb) (reprocess tok))" by (rule ok_seq_run [OF leave]) simp
  have row: "safe_run tok tb (seq_run (insert_structure tb sections (chars ''tr'') as InRow) finish)"
    "safe_run tok tb (seq_run (insert_structure tb sections (chars ''tr'') as InRow) (reprocess tok))" for as
    by (rule ok_seq_run [OF section_structure [OF assms, where tok = tok]], simp)+
  have close: "safe_run tok tb (seq_run (has_tag_in_scope tb name []) (\<lambda>b.
      seq_run (if b then close_table_section tb else Inr tb) (\<lambda>tb. finish (tb\<lparr>mode := InTable\<rparr>))))" for name
    unfolding seq_if seq_run_simps
    by (rule ok_seq_run [OF has_tag_in_scope_ok [OF readyD(3) [OF assms(1)]]], rule ok_run_if,
        rule ok_seq_run [OF close_table_section_safe [OF assms, where tok = tok]]) (simp_all add: tm(2))
  show ?thesis
  proof (cases tok)
    case (StartTag name as sc)
    show ?thesis
      using row again step_in_table_safe [OF tm(1), of tok]
      unfolding step_in_table_body_def StartTag html_token.case by (intro ok_run_if)
  next
    case (EndTag name)
    show ?thesis
      using close again step_in_table_safe [OF tm(1), of tok]
      unfolding step_in_table_body_def EndTag html_token.case by (intro ok_run_if)
  qed (simp_all add: step_in_table_body_def step_in_table_safe [OF tm(1)])
qed

lemma row_mode:
  assumes "ready tb" "mode tb = InRow"
  shows "table_mode tb" "chars ''tr'' \<in> set (stack_tags tb)" "step_post tok tb (tb\<lparr>mode := InTableBody\<rparr>)"
proof -
  show "table_mode tb" using assms by (simp add: table_mode_def)
  show t: "chars ''tr'' \<in> set (stack_tags tb)" using readyD(6) [OF assms(1)] assms(2) by (simp add: mode_ok_body)
  show "step_post tok tb (tb\<lparr>mode := InTableBody\<rparr>)"
    using below_on_stack(2) [OF goodD(5) [OF readyD(3) [OF assms(1)]] t]
    by (intro mode_post [OF keeps_refl [OF readyD(3) [OF assms(1)]], of 0 0]) (simp_all add: mode_ok_body)
qed

lemma leave_row_safe:
  assumes "ready tb" "mode tb = InRow"
  shows "ok_res (leave_row tb) (\<lambda>tb'. step_post tok tb tb' \<and> step_post tok tb (tb'\<lparr>mode := InTableBody\<rparr>))"
proof -
  note g = readyD(3) [OF assms(1)]
  have "ok_res (res_bind (pop_until_and_including tb (chars ''tr'')) (\<lambda>tb. Inr (tb\<lparr>mode := InTableBody\<rparr>)))
      (\<lambda>tb'. step_post tok tb tb' \<and> step_post tok tb (tb'\<lparr>mode := InTableBody\<rparr>))"
    if "in_scope tb (set [chars ''tr''])"
    unfolding pop_until_and_including_def
  proof (rule ok_res_bind [OF pop_through_scope [OF g that]], elim exE conjE)
    fix tb1 S1 i S2
    assume s: "open_elements tb = S1 @ i # S2" "the (elem_tag (document tb) i) \<in> set [chars ''tr'']" "tb1 = tb\<lparr>open_elements := S1\<rparr>"
    have "wf_stack (tags (document tb) S1 @ chars ''tr'' # tags (document tb) S2)"
      using goodD(5) [OF g] s(1,2) by simp
    from wf_stack_split [OF this] have "tags (document tb) S1 \<noteq> []" "last (tags (document tb) S1) \<in> table_sections"
      by (auto simp: stack_next_def plain_def table_sections_def)
    then have "mode_ok InTableBody (tags (document tb) S1)" unfolding mode_ok_body using last_in_set by blast
    then have "step_post tok (tb\<lparr>open_elements := S1\<rparr>) (tb\<lparr>open_elements := S1, mode := InTableBody\<rparr>)"
      by (intro mode_post [OF keeps_refl [OF keeps_pop(1) [OF g s(1)]], of 0 0]) simp_all
    then show "ok_res (Inr (tb1\<lparr>mode := InTableBody\<rparr>)) (\<lambda>tb'. step_post tok tb tb' \<and> step_post tok tb (tb'\<lparr>mode := InTableBody\<rparr>))"
      by (simp add: s(3))
  qed
  then show ?thesis
    unfolding leave_row_def
    by (intro ok_res_bind [OF has_tag_in_scope_ok [OF g]]) (simp add: readyD(5) [OF assms(1)] row_mode(3) [OF assms])
qed

lemma step_post_marker:
  assumes "step_post tok tb tb'" "length (active_formatting tb') \<le> length (active_formatting tb)"
  shows "step_post tok tb (insert_afe_marker tb')"
  using assms by (simp add: step_post_def builder_inv_def insert_afe_marker_def good_def afe_inv_def)

lemma row_structure:
  assumes "ready tb" "mode tb = InRow" "one_of name [''td'', ''th'']"
  shows "safe_run tok tb (seq_run (insert_structure tb [''tr''] name as InCell) (\<lambda>tb. finish (insert_afe_marker tb)))"
proof -
  have n: "name \<notin> set VOID_ELEMENTS" "stack_next (chars ''tr'') name"
    using assms(3) by (auto simp: one_of_def VOID_ELEMENTS_def stack_next_def)
  have "ok_res (insert_structure tb [''tr''] name as InCell) (\<lambda>tb'. step_post tok tb tb' \<and> active_formatting tb' = active_formatting tb)"
    using row_mode(2) [OF assms(1,2)] n by (intro insert_cleared [OF assms(1), of "''tr''"]) (simp_all add: mode_ok_body)
  then show ?thesis by (rule ok_seq_run) (simp add: step_post_marker)
qed

lemma step_in_row_safe:
  assumes "ready tb" "mode tb = InRow"
  shows "safe_run tok tb (step_in_row tb tok)"
proof -
  note leave = ok_seq_run [OF leave_row_safe [OF assms, where tok = tok]]
  have again: "safe_run tok tb (seq_run (leave_row tb) (reprocess tok))" by (rule leave) simp
  have fin: "safe_run tok tb (seq_run (leave_row tb) (\<lambda>tb. finish (tb\<lparr>mode := InTableBody\<rparr>)))" by (rule leave) simp
  note table = step_in_table_safe [OF row_mode(1) [OF assms], of tok]
  show ?thesis
  proof (cases tok)
    case (StartTag name as sc)
    show ?thesis
      using again table row_structure [OF assms, where name = name and tok = tok and as = as]
      unfolding step_in_row_def StartTag html_token.case by (intro ok_run_if)
  next
    case (EndTag name)
    show ?thesis
      using again fin table unfolding step_in_row_def EndTag html_token.case by (intro ok_run_if)
  qed (use table in \<open>simp_all add: step_in_row_def\<close>)
qed

section \<open>Cells\<close>

lemma cell_tags: "t \<in> set [chars ''td'', chars ''th''] \<Longrightarrow> t \<notin> anchors \<and> (t \<in> set IMPLIED_END_TAGS \<longrightarrow> None = Some t)"
  by (auto simp: anchors_def table_sections_def IMPLIED_END_TAGS_def)

lemma close_cell_safe:
  assumes "ready tb" "mode tb = InCell" "set T \<subseteq> set [chars ''td'', chars ''th'']" "in_scope tb (set T)"
  shows "ok_res (res_bind (generate_implied_end_tags tb None) (\<lambda>tb. on_stack tb (pop_through (has_tag tb T))))
    (\<lambda>tb'. step_post tok tb ((clear_afe_up_to_last_marker tb')\<lparr>mode := InRow\<rparr>))"
proof -
  note g = readyD(3) [OF assms(1)]
  have t: "chars ''tr'' \<in> set (stack_tags tb)" using readyD(6) [OF assms(1)] assms(2) by (simp add: mode_ok_body)
  have "step_post tok tb ((clear_afe_up_to_last_marker tb')\<lparr>mode := InRow\<rparr>)" if k: "keeps 0 0 tb tb'" for tb'
  proof -
    have k': "keeps 0 0 tb (clear_afe_up_to_last_marker tb')"
      using keeps_trans [OF k clear_afe_keeps [OF keeps_good [OF k], of 0 0]] by simp
    show ?thesis using mode_post [OF k'] anchor_kept [OF k' _ t] by (simp add: mode_ok_body)
  qed
  moreover have "ok_res (res_bind (generate_implied_end_tags tb None) (\<lambda>tb. on_stack tb (pop_through (has_tag tb T)))) (keeps 0 0 tb)"
    by (rule close_in_scope_keeps [OF g assms(4)]) (use cell_tags assms(3) in blast)
  ultimately show ?thesis by (auto elim: ok_res_mono)
qed

lemma in_scope_cell:
  assumes "in_scope tb {t}" "t \<in> {chars ''td'', chars ''th''}"
  shows "in_scope tb (set [chars ''td'', chars ''th''])"
proof -
  have "{chars ''td'', chars ''th''} \<subseteq> set DEFAULT_SCOPE_BLOCKERS" by (simp add: DEFAULT_SCOPE_BLOCKERS_def)
  then have "{t} \<union> set DEFAULT_SCOPE_BLOCKERS = set [chars ''td'', chars ''th''] \<union> set DEFAULT_SCOPE_BLOCKERS" using assms(2) by auto
  then show ?thesis using assms unfolding in_scope_def by (metis empty_set insert_iff list.simps(15) singletonD)
qed

lemma leave_cell_safe:
  assumes "ready tb" "mode tb = InCell"
  shows "ok_res (leave_cell tb) (step_post tok tb)"
proof -
  note g = readyD(3) [OF assms(1)]
  have scope: "ok_res (has_tag_in_scope tb t []) (\<lambda>b. b \<longrightarrow> in_scope tb (set [chars ''td'', chars ''th'']))"
    if "t \<in> {chars ''td'', chars ''th''}" for t
    by (rule ok_res_mono [OF has_tag_in_scope_ok [OF g]]) (use in_scope_cell that in blast)
  have cell: "ok_res (cell_in_scope tb) (\<lambda>b. b \<longrightarrow> in_scope tb (set [chars ''td'', chars ''th'']))"
    unfolding cell_in_scope_def by (rule ok_res_bind [OF scope]) (use scope in auto)
  have "ok_res (close_current_cell tb) (step_post tok tb)" if "in_scope tb (set [chars ''td'', chars ''th''])"
    using close_cell_safe [OF assms subset_refl that, of tok]
    by (cases "generate_implied_end_tags tb None") (auto simp: close_current_cell_def elim!: ok_resE)
  then show ?thesis
    unfolding leave_cell_def by (intro ok_res_bind [OF cell]) (auto simp: readyD(5) [OF assms(1)])
qed

lemma end_cell_safe:
  assumes "ready tb" "mode tb = InCell" "one_of name [''td'', ''th'']"
  shows "safe_run tok tb (end_cell tb name)"
proof -
  note g = readyD(3) [OF assms(1)]
  have t: "chars ''tr'' \<in> set (stack_tags tb)" using readyD(6) [OF assms(1)] assms(2) by (simp add: mode_ok_body)
  have n: "set [name] \<subseteq> set [chars ''td'', chars ''th'']" using assms(3) by (auto simp: one_of_def)
  have "step_post tok tb (tb\<lparr>mode := InRow\<rparr>)"
    using t by (intro mode_post [OF keeps_refl [OF g], of 0 0]) (simp_all add: mode_ok_body)
  moreover have "ok_res (res_bind (generate_implied_end_tags tb None) (\<lambda>tb.
      res_bind (pop_until_and_including tb name) (\<lambda>tb. Inr (clear_afe_up_to_last_marker tb))))
      (\<lambda>tb'. step_post tok tb (tb'\<lparr>mode := InRow\<rparr>))" if "in_scope tb {name}"
    using close_cell_safe [OF assms(1,2) n, of tok] that
    by (cases "generate_implied_end_tags tb None") (auto simp: pop_until_and_including_def elim!: ok_resE)
  ultimately show ?thesis
    unfolding end_cell_def
    by (intro ok_seq_run [OF has_tag_in_scope_ok [OF g]]
        ok_seq_run [where P = "\<lambda>tb'. step_post tok tb (tb'\<lparr>mode := InRow\<rparr>)"]) auto
qed

lemma step_in_cell_safe:
  assumes "ready tb" "mode tb = InCell"
  shows "safe_run tok tb (step_in_cell tb tok)"
proof -
  have b: "body_mode tb" using body_mode_ready [OF assms(1)] assms(2) by simp
  have again: "safe_run tok tb (seq_run (leave_cell tb) (reprocess tok))"
    by (rule ok_seq_run [OF leave_cell_safe [OF assms, where tok = tok]]) simp
  show ?thesis
  proof (cases tok)
    case (EndTag name)
    have "safe_run tok tb (seq_run (has_tag_in_table_scope tb name) (\<lambda>b.
        if \<not> b then finish tb else seq_run (leave_cell tb) (reprocess tok)))"
      using again readyD(5) [OF assms(1)]
      by (intro ok_seq_run [OF has_tag_in_table_scope_ok [OF readyD(3) [OF assms(1)]]]) auto
    moreover have "end_token_ok tb tok" if "\<not> one_of name [''table'', ''tbody'', ''tfoot'', ''thead'', ''tr'']"
      using that by (auto simp: EndTag end_token_ok_def end_ok_def anchors_def table_sections_def one_of_def)
    ultimately show ?thesis
      using step_in_body_safe [OF b, of tok] end_cell_safe [OF assms, of name tok]
      unfolding step_in_cell_def EndTag html_token.case by (intro ok_run_if) blast+
  qed (use again step_in_body_safe [OF b, of tok] in \<open>simp_all add: step_in_cell_def end_token_ok_def\<close>)
qed

section \<open>After the body\<close>

lemma to_body_post:
  assumes "body_mode tb0" "step_post tok tb0 tb" "open_elements tb \<noteq> []"
  shows "step_post tok tb0 (tb\<lparr>mode := InBody\<rparr>)" "step_post tok tb0 (tb\<lparr>mode := AfterAfterBody\<rparr>)"
  using assms(2,3) by (auto simp: step_post_def builder_inv_def mode_ok_body)

lemma body_text:
  assumes "body_mode tb"
  shows "ok_run (step_in_body tb (Character s)) (\<lambda>(r, tb'). step_post tok tb tb' \<and> open_elements tb' \<noteq> [])"
  unfolding step_in_body_def html_token.case Let_def [of "strip_null_characters s"]
  using at_start [OF assms]
  by - ((erule statements)+, simp add: finish_def, frule atD(3), drule at_finish [OF _ assms]; simp)

lemma body_whitespace_safe:
  assumes "ready tb" "mode tb \<in> {AfterBody, AfterAfterBody}" "safe_run tok tb k"
  shows "safe_run tok tb (body_whitespace tb tok k)"
proof -
  have b: "body_mode tb" using body_mode_ready [OF assms(1)] assms(2) by auto
  have "safe_run tok tb (run_bind (step_in_body tb (Character ws)) (\<lambda>(_, tb). reprocess (Character r) (tb\<lparr>mode := InBody\<rparr>)))"
    if "tok = Character s" for s ws r
    by (rule ok_run_bind [OF body_text [OF b, where tok = tok]])
      (auto simp: that is_character_def to_body_post [OF b])
  then show ?thesis
    using step_in_body_safe [OF b, of tok] assms(3)
    by (auto simp: body_whitespace_def end_token_ok_def split: html_token.splits option.splits)
qed

lemma step_after_body_safe:
  assumes "ready tb"
  shows "mode tb = AfterBody \<Longrightarrow> safe_run tok tb (step_after_body tb tok)"
    "mode tb = AfterAfterBody \<Longrightarrow> safe_run tok tb (step_after_after_body tb tok)"
proof -
  have p: "step_post tok tb (tb\<lparr>mode := InBody\<rparr>)" "step_post tok tb (tb\<lparr>mode := AfterAfterBody\<rparr>)" "step_post tok tb tb"
    if "mode tb \<in> {AfterBody, AfterAfterBody}"
  proof -
    have b: "body_mode tb" using body_mode_ready [OF assms] that by auto
    show "step_post tok tb tb" by (rule readyD(5) [OF assms])
    from to_body_post [OF b this atD(3) [OF at_start [OF b]]]
    show "step_post tok tb (tb\<lparr>mode := InBody\<rparr>)" "step_post tok tb (tb\<lparr>mode := AfterAfterBody\<rparr>)" .
  qed
  show "safe_run tok tb (step_after_body tb tok)" if "mode tb = AfterBody"
    unfolding step_after_body_def Let_def using p that
    by (intro body_whitespace_safe [OF assms]) (auto split: html_token.splits)
  show "safe_run tok tb (step_after_after_body tb tok)" if "mode tb = AfterAfterBody"
    unfolding step_after_after_body_def using p that
    by (intro body_whitespace_safe [OF assms]) (auto split: html_token.splits)
qed

section \<open>Every step\<close>

lemma dispatch_safe:
  assumes "ready tb"
  shows "safe_run tok tb (dispatch tb tok)"
proof -
  have "safe_run tok tb (step_in_body tb tok)" if "mode tb = InBody"
    using that body_mode_ready [OF assms] by (intro step_in_body_safe) (auto simp: end_token_ok_def end_ok_def split: html_token.splits)
  moreover have "table_mode tb" if "mode tb = InTable" using that assms by (simp add: table_mode_def)
  ultimately show ?thesis
    unfolding dispatch_def
    by (cases "mode tb") (simp_all add: assms step_initial_safe step_before_html_safe step_before_head_safe
        step_in_head_safe step_after_head_safe step_text_safe step_in_table_safe step_in_caption_safe
        step_in_column_group_safe step_in_table_body_safe step_in_row_safe step_in_cell_safe step_after_body_safe)
qed

theorem step_safe:
  assumes "ready tb"
  shows "safe_run tok tb (step tb tok)"
proof -
  have r: "ready (tb\<lparr>strip_leading_newline := b\<rparr>)" for b
    using assms by (simp add: ready_def builder_inv_def has_room_def)
  have "safe_run tok tb (dispatch (if is_character tok then tb else tb\<lparr>strip_leading_newline := False\<rparr>) tok)"
    using dispatch_safe [OF r, of False tok] dispatch_safe [OF assms, of tok] by simp
  then show ?thesis unfolding step_def Let_def by (rule ok_run_bind) auto
qed

end
