(* ===== verification/Html_Safety.thy ===== *)
theory Html_Safety
  imports Html_Table_Safe
begin

text \<open>
  The run of the tree builder over a whole input, as a sequence of configurations: reading a
  token, processing it step by step, finished. No configuration that a parse reaches panics, as
  long as the identifiers last, and a parse that returns has built a well-formed document.
\<close>

declare chars_simps [simp del]

section \<open>Configurations\<close>

text \<open>\<open>Processing t tok\<close>: the token read was \<open>t\<close>, the one to be processed (again) is \<open>tok\<close>.\<close>

datatype phase = Reading | Processing html_token html_token | Finished

inductive parses :: "nat \<Rightarrow> tree_builder \<times> phase \<Rightarrow> tree_builder \<times> phase \<Rightarrow> bool" where
  start: "parses 0 c c"
| read: "parses n c (tb, Reading) \<Longrightarrow> next_html_token (tokenizer tb) = Inr (tok, t) \<Longrightarrow>
    parses n c (tb\<lparr>tokenizer := t\<rparr>, Processing tok tok)"
| again: "parses n c (tb, Processing t0 tok) \<Longrightarrow> step tb tok = Some (Inr (Reprocess t, tb')) \<Longrightarrow>
    parses (Suc n) c (tb', Processing t0 t)"
| complete: "parses n c (tb, Processing t0 tok) \<Longrightarrow> step tb tok = Some (Inr (Done, tb')) \<Longrightarrow>
    parses (Suc n) c (tb', if t0 = Eof then Finished else Reading)"

inductive_cases parses_Finished: "parses n c (tb, Finished)"

section \<open>The invariant of a parse\<close>

definition phase_ok :: "html_tokenizer \<Rightarrow> phase \<Rightarrow> bool" where
  "phase_ok t ph \<longleftrightarrow>
     (case ph of
        Processing t0 tok \<Rightarrow> (tok = t0 \<or> is_character tok \<and> is_character t0) \<and>
          (\<exists>u0 u. token_ok u0 t0 u \<and> may_switch t0 u t)
      | _ \<Rightarrow> tok_ready t)"

definition parse_inv :: "nat \<Rightarrow> u64 \<Rightarrow> tree_builder \<times> phase \<Rightarrow> bool" where
  "parse_inv n i c \<longleftrightarrow> builder_inv (fst c) \<and> ids_used (fst c) \<le> unat i + 1 + n * (n + 40) \<and>
     length (active_formatting (fst c)) \<le> n \<and> phase_ok (tokenizer (fst c)) (snd c)"

definition enough_ids :: "u64 \<Rightarrow> nat \<Rightarrow> bool" where
  "enough_ids i n \<longleftrightarrow> unat i + (n + 1) * (n + 41) < 2 ^ 64"

lemma parse_inv_ready:
  assumes "parse_inv n i (tb, ph)" "enough_ids i n"
  shows "ready tb"
  using assms by (auto simp: parse_inv_def enough_ids_def ready_def has_room_def algebra_simps)

lemma may_switch_trans:
  assumes "may_switch t0 u t" "may_switch tok t t'" "tok = t0 \<or> is_character tok \<and> is_character t0"
  shows "may_switch t0 u t'"
proof -
  have c: "set_content_model (set_content_model u a) b = set_content_model u b" for a b
    by (simp add: set_content_model_def)
  have "may_switch t0 t t'" using assms(2,3) by (auto simp: may_switch_def is_character_def split: html_token.splits)
  then show ?thesis using assms(1) by (auto simp: may_switch_def c)
qed

lemma step_inv:
  assumes "parse_inv n i (tb, Processing t0 tok)" "enough_ids i n" "step tb tok = Some (Inr (r, tb'))"
  shows "parse_inv (Suc n) i (tb', case r of Reprocess t \<Rightarrow> Processing t0 t | Done \<Rightarrow> if t0 = Eof then Finished else Reading)"
proof -
  have p: "follows tok r" "step_post tok tb tb'"
    using step_safe [OF parse_inv_ready [OF assms(1,2)], of tok] assms(3) by simp_all
  obtain u0 u where u: "token_ok u0 t0 u" "may_switch t0 u (tokenizer tb)" "tok = t0 \<or> is_character tok \<and> is_character t0"
    using assms(1) by (auto simp: parse_inv_def phase_ok_def)
  have sw: "may_switch t0 u (tokenizer tb')"
    using may_switch_trans [OF u(2) _ u(3)] p(2) by (simp add: step_post_def)
  then have rdy: "tok_ready (tokenizer tb')" using may_switch_ready [OF u(1)] by blast
  have "phase_ok (tokenizer tb') (case r of Reprocess t \<Rightarrow> Processing t0 t | Done \<Rightarrow> if t0 = Eof then Finished else Reading)"
    using p(1) u(1,3) sw rdy by (auto simp: phase_ok_def follows_def split: step_result.splits)
  moreover have "ids_used tb' \<le> unat i + 1 + Suc n * (Suc n + 40)" "length (active_formatting tb') \<le> Suc n"
    using p(2) assms(1) by (simp_all add: step_post_def parse_inv_def algebra_simps)
  ultimately show ?thesis using p(2) by (simp add: parse_inv_def step_post_def)
qed

lemma read_inv:
  assumes "parse_inv n i (tb, Reading)" "next_html_token (tokenizer tb) = Inr (tok, t)"
  shows "parse_inv n i (tb\<lparr>tokenizer := t\<rparr>, Processing tok tok)"
proof -
  have "tok_inv (tokenizer tb)" using assms(1) by (simp add: parse_inv_def phase_ok_def tok_ready_def)
  from next_html_token_ok [OF this] assms(2) have "token_ok (tokenizer tb) tok t" by simp
  then have "phase_ok t (Processing tok tok)" unfolding phase_ok_def phase.case using may_switch_refl by blast
  then show ?thesis using assms(1) by (simp add: parse_inv_def builder_inv_def)
qed

lemma new_builder_inv:
  assumes "unat i + 1 < 2 ^ 64"
  shows "parse_inv 0 i (new_tree_builder s i, Reading)"
proof -
  have "wf_document (new_continuing_from i)"
    using new_continuing_from_represents [OF assms] by (auto simp: wf_document_def)
  moreover have "unat (i + 1) = unat i + 1" using assms by (simp add: unat_word_ariths(1))
  ultimately show ?thesis
    by (auto simp: parse_inv_def builder_inv_def good_def new_tree_builder_def phase_ok_def new_html_tokenizer_ready
        stack_inv_def afe_inv_def mode_ok_def root_ok_def new_continuing_from_def create_node_def allocate_def
        next_node_id_def)
qed

lemma enough_ids_mono: "enough_ids i n \<Longrightarrow> m \<le> n \<Longrightarrow> enough_ids i m"
  unfolding enough_ids_def by (erule le_less_trans [rotated]) (intro add_mono mult_mono; simp)

lemma parses_inv:
  assumes "parses n c c'" "parse_inv 0 i c" "enough_ids i n"
  shows "parse_inv n i c'"
  using assms
proof (induction rule: parses.induct)
  case (again n c tb t0 tok t tb')
  then have "enough_ids i n" using enough_ids_mono [of i "Suc n" n] by simp
  with again step_inv [of n i tb t0 tok "Reprocess t"] show ?case by simp
next
  case (complete n c tb t0 tok tb')
  then have "enough_ids i n" using enough_ids_mono [of i "Suc n" n] by simp
  with complete step_inv [of n i tb t0 tok Done] show ?case by simp
qed (auto intro: read_inv)

lemma parses_new:
  assumes "parses n (new_tree_builder s i, Reading) (tb, ph)" "enough_ids i n"
  shows "parse_inv n i (tb, ph)"
  using parses_inv [OF assms(1) new_builder_inv assms(2)] assms(2) by (simp add: enough_ids_def)

section \<open>Safety\<close>

lemma tree_builder_safe:
  assumes "parses n (new_tree_builder s i, Reading) (tb, ph)" "enough_ids i n"
  shows "wf_document (document tb) \<and>
    (case ph of
       Reading \<Rightarrow> \<exists>tok t. next_html_token (tokenizer tb) = Inr (tok, t)
     | Processing t0 tok \<Rightarrow> \<exists>r tb'. step tb tok = Some (Inr (r, tb'))
     | Finished \<Rightarrow> True)"
proof -
  note inv = parses_new [OF assms]
  note r = parse_inv_ready [OF inv assms(2)]
  have "\<exists>tok t. next_html_token (tokenizer tb) = Inr (tok, t)" if "ph = Reading"
    using inv that next_html_token_ok [of "tokenizer tb"] by (auto simp: parse_inv_def phase_ok_def tok_ready_def)
  moreover have "\<exists>r tb'. step tb tok = Some (Inr (r, tb'))" for tok
    using step_safe [OF r, of tok] by (auto simp: ok_run_def)
  ultimately show ?thesis using goodD(1) [OF readyD(3) [OF r]] by (auto split: phase.splits)
qed

text \<open>
  C21. The tree builder never gets stuck: in every configuration that the parse of an input
  reaches in \<open>n\<close> steps, the document is a well-formed tree; if a token is to be read the
  tokenizer does not panic, and if a token is to be processed the next step of the insertion
  mode returns and does not panic. The only hypothesis is that the node identifiers last:
  \<open>(n + 1) * (n + 41)\<close> of them, beyond the first one, are enough for \<open>n\<close> steps.
\<close>

theorem tree_builder_never_stuck:
  assumes "parses n (new_tree_builder s i, Reading) (tb, ph)" "enough_ids i n"
  shows "wf_document (document tb) \<and>
    (case ph of
       Reading \<Rightarrow> \<exists>tok t. next_html_token (tokenizer tb) = Inr (tok, t)
     | Processing t0 tok \<Rightarrow> \<exists>r tb'. step tb tok = Some (Inr (r, tb'))
     | Finished \<Rightarrow> True)"
  using assms by (rule tree_builder_safe)

text \<open>
  C22. The stack of open elements keeps its grammar: in every configuration of a parse the
  open elements are distinct, alive and attached to the tree, none is an ancestor-or-self of one
  below it, \<open>html\<close> is at the bottom and nowhere else, a cell stands on a row, a row on a
  section and a section, a caption or a column group on its table; the active formatting
  elements are distinct, each an element with the tag and of a formatting tag.
\<close>

theorem open_elements_well_formed:
  assumes "parses n (new_tree_builder s i, Reading) (tb, ph)" "enough_ids i n"
  shows "stack_inv (document tb) (open_elements tb) \<and> distinct (open_elements tb) \<and>
    wf_stack (stack_tags tb) \<and> afe_inv (document tb) (active_formatting tb) (open_elements tb)"
  using goodD [OF readyD(3) [OF parse_inv_ready [OF parses_new [OF assms] assms(2)]]] by blast

section \<open>The value of a parse\<close>









end
