(* ===== verification/Html_Safety_Examples.thy ===== *)
theory Html_Safety_Examples
  imports Html_Safety Html_Divergence
begin

text \<open>
  The theorems on the tree builder at a concrete page, \<open><table><tr><th>\<close>.
\<close>

lemma process_bounded_parses:
  "process_bounded k tb tok = Some (Inr tb') \<Longrightarrow> parses n c (tb, Processing t0 tok) \<Longrightarrow>
   \<exists>m\<le>n + k. parses m c (tb', if t0 = Eof then Finished else Reading)"
proof (induction k tb tok arbitrary: n rule: process_bounded.induct)
  case (1 k tb tok)
  from 1(2) have k: "k \<noteq> 0" by (cases "k = 0") (simp_all add: process_bounded.simps [of 0])
  have "\<exists>r u. step tb tok = Some (Inr (r, u))"
  proof (cases "step tb tok")
    case (Some q)
    then show ?thesis using 1(2) k by (cases q) (auto simp: process_bounded.simps [of k])
  qed (use 1(2) k in \<open>simp add: process_bounded.simps [of k]\<close>)
  then obtain r u where s: "step tb tok = Some (Inr (r, u))" by blast
  show ?case
  proof (cases r)
    case Done
    then have "tb' = u" using 1(2) k s by (simp add: process_bounded.simps [of k])
    moreover have "parses (Suc n) c (u, if t0 = Eof then Finished else Reading)"
      using complete [OF 1(3)] s Done by blast
    ultimately show ?thesis using k by (intro exI [of _ "Suc n"]) simp
  next
    case (Reprocess t)
    then have "process_bounded (k - 1) u t = Some (Inr tb')" using 1(2) k s by (simp add: process_bounded.simps [of k])
    moreover have "parses (Suc n) c (u, Processing t0 t)" using again [OF 1(3)] s Reprocess by blast
    ultimately obtain m where "m \<le> Suc n + (k - 1)" "parses m c (tb', if t0 = Eof then Finished else Reading)"
      using 1(1) [OF k, of "(Reprocess t, u)" t "Suc n"] s Reprocess by auto
    then show ?thesis using k by (intro exI [of _ m]) simp
  qed
qed

lemma read_token_parses:
  assumes "parses n c (tb, Reading)" "next_html_token (tokenizer tb) = Inr (tok, t)" "n \<le> l"
    and "process_bounded 10 (tb\<lparr>tokenizer := t\<rparr>) tok = Some (Inr tb')"
  shows "\<exists>m\<le>l + 10. parses m c (tb', if tok = Eof then Finished else Reading)"
  using process_bounded_parses [OF assms(4) read [OF assms(1,2)]] assms(3) by (meson add_le_mono1 le_trans)

abbreviation page :: tree_builder where
  "page \<equiv> new_tree_builder (chars ''<table><tr><th>'') 0"

lemma page_tokens:
  "\<exists>t1 t2 t3 t4. next_html_token (tokenizer page) = Inr (StartTag (chars ''table'') [] False, t1) \<and>
     next_html_token t1 = Inr (StartTag (chars ''tr'') [] False, t2) \<and>
     next_html_token t2 = Inr (StartTag (chars ''th'') [] False, t3) \<and>
     next_html_token t3 = Inr (Eof, t4)"
proof -
  let ?pull = "\<lambda>t. snd (projr (next_html_token t))"
  let ?t0 = "new_html_tokenizer (chars ''<table><tr><th>'')"
  have "next_html_token ?t0 = Inr (StartTag (chars ''table'') [] False, ?pull ?t0)"
    "next_html_token (?pull ?t0) = Inr (StartTag (chars ''tr'') [] False, ?pull (?pull ?t0))"
    "next_html_token (?pull (?pull ?t0)) = Inr (StartTag (chars ''th'') [] False, ?pull (?pull (?pull ?t0)))"
    "next_html_token (?pull (?pull (?pull ?t0))) = Inr (Eof, ?pull (?pull (?pull (?pull ?t0))))"
    by code_simp+
  then show ?thesis by (simp add: new_tree_builder_def) blast
qed

lemma page_states:
  "\<exists>tb1 tb2 tb3 tb4.
     process_bounded 10 (page\<lparr>tokenizer := t1\<rparr>) (StartTag (chars ''table'') [] False) = Some (Inr tb1) \<and> tokenizer tb1 = t1 \<and>
     process_bounded 10 (tb1\<lparr>tokenizer := t2\<rparr>) (StartTag (chars ''tr'') [] False) = Some (Inr tb2) \<and> tokenizer tb2 = t2 \<and>
     process_bounded 10 (tb2\<lparr>tokenizer := t3\<rparr>) (StartTag (chars ''th'') [] False) = Some (Inr tb3) \<and> tokenizer tb3 = t3 \<and>
     process_bounded 10 (tb3\<lparr>tokenizer := t4\<rparr>) Eof = Some (Inr tb4) \<and> length (open_elements tb3) = 6"
  by (simp add: process_bounded.simps mode_eval builder_eval dom_eval Let_def cong: bind_weak_cong)

lemma page_parses:
  "\<exists>n tb m tb'. n \<le> 30 \<and> parses n (page, Reading) (tb, Reading) \<and> length (open_elements tb) = 6 \<and>
     m \<le> 40 \<and> parses m (page, Reading) (tb', Finished) \<and> parse_html_continuing_from (chars ''<table><tr><th>'') 0 = Some (Inr (document tb'))"
proof -
  obtain t1 t2 t3 t4 where t: "next_html_token (tokenizer page) = Inr (StartTag (chars ''table'') [] False, t1)"
    "next_html_token t1 = Inr (StartTag (chars ''tr'') [] False, t2)"
    "next_html_token t2 = Inr (StartTag (chars ''th'') [] False, t3)" "next_html_token t3 = Inr (Eof, t4)"
    using page_tokens by blast
  obtain tb1 tb2 tb3 tb4 where b:
    "process_bounded 10 (page\<lparr>tokenizer := t1\<rparr>) (StartTag (chars ''table'') [] False) = Some (Inr tb1)" "tokenizer tb1 = t1"
    "process_bounded 10 (tb1\<lparr>tokenizer := t2\<rparr>) (StartTag (chars ''tr'') [] False) = Some (Inr tb2)" "tokenizer tb2 = t2"
    "process_bounded 10 (tb2\<lparr>tokenizer := t3\<rparr>) (StartTag (chars ''th'') [] False) = Some (Inr tb3)" "tokenizer tb3 = t3"
    "process_bounded 10 (tb3\<lparr>tokenizer := t4\<rparr>) Eof = Some (Inr tb4)" "length (open_elements tb3) = 6"
    using page_states [of t1 t2 t3 t4] by blast
  obtain n1 where n1: "n1 \<le> 10" "parses n1 (page, Reading) (tb1, Reading)"
    using read_token_parses [OF start t(1) le0 [of 0] b(1)] by auto
  obtain n2 where n2: "n2 \<le> 20" "parses n2 (page, Reading) (tb2, Reading)"
    using read_token_parses [OF n1(2) _ n1(1) b(3)] t(2) b(2) by auto
  obtain n3 where n3: "n3 \<le> 30" "parses n3 (page, Reading) (tb3, Reading)"
    using read_token_parses [OF n2(2) _ n2(1) b(5)] t(3) b(4) by auto
  obtain n4 where n4: "n4 \<le> 40" "parses n4 (page, Reading) (tb4, Finished)"
    using read_token_parses [OF n3(2) _ n3(1) b(7)] t(4) b(6) by auto
  have "run tb3 = Some (Inr tb4)"
    using process_bounded_sound [OF b(7)] t(4) b(6) by (subst run.simps) simp
  then have "run page = Some (Inr tb4)"
    using run_token [OF t(1) _ b(1)] run_token [OF _ _ b(3)] run_token [OF _ _ b(5)] t b by simp
  then have "parse_html_continuing_from (chars ''<table><tr><th>'') 0 = Some (Inr (document tb4))"
    by (simp add: parse_html_continuing_from_def)
  with n3 n4 b(8) show ?thesis by blast
qed

lemma few_steps: "n \<le> 40 \<Longrightarrow> enough_ids 0 n"
  by (rule enough_ids_mono [of 0 40]) (simp_all add: enough_ids_def)

theorem tree_builder_never_stuck_witness:
  "\<exists>n tb. n \<le> 30 \<and> parses n (page, Reading) (tb, Reading) \<and> length (open_elements tb) = 6 \<and>
     wf_document (document tb) \<and> (\<exists>tok t. next_html_token (tokenizer tb) = Inr (tok, t))"
proof -
  obtain n tb where p: "n \<le> 30" "parses n (page, Reading) (tb, Reading)" "length (open_elements tb) = 6"
    using page_parses by blast
  from tree_builder_never_stuck [OF p(2) few_steps] p show ?thesis by auto
qed

theorem open_elements_well_formed_witness:
  "\<exists>n tb. parses n (page, Reading) (tb, Reading) \<and> length (open_elements tb) = 6 \<and>
     distinct (open_elements tb) \<and> wf_stack (stack_tags tb)"
proof -
  obtain n tb where p: "n \<le> 30" "parses n (page, Reading) (tb, Reading)" "length (open_elements tb) = 6"
    using page_parses by blast
  from open_elements_well_formed [OF p(2) few_steps] p show ?thesis by auto
qed


end
