(* ===== verification/Machine_Int.thy ===== *)
theory Machine_Int
  imports Prelude "HOL-Library.Signed_Division"
begin

text \<open>
  Rust's fixed-width integers as mathematical integers: the ranges of the types, arithmetic
  that panics when its result leaves the range (the default build of the workspace checks
  overflow), the wrapping \<open>as\<close> casts and the fallible \<open>try_from\<close>. Division of the source
  truncates and is \<open>sdiv\<close>; \<open>div_euclid\<close> and \<open>rem_euclid\<close> by a positive number are \<open>div\<close>
  and \<open>mod\<close>, and so is truncating division of numbers that are not negative.
\<close>

datatype arith_panic = Overflow | Divide_By_Zero | Unreachable | Expect_Failed

type_synonym 'a arith = "arith_panic + 'a"

definition in_signed :: "nat \<Rightarrow> int \<Rightarrow> bool" where
  "in_signed w x \<longleftrightarrow> - (2 ^ (w - 1)) \<le> x \<and> x < 2 ^ (w - 1)"

definition in_unsigned :: "nat \<Rightarrow> int \<Rightarrow> bool" where
  "in_unsigned w x \<longleftrightarrow> 0 \<le> x \<and> x < 2 ^ w"

abbreviation is_i32 :: "int \<Rightarrow> bool" where
  "is_i32 \<equiv> in_signed 32"

abbreviation is_i64 :: "int \<Rightarrow> bool" where
  "is_i64 \<equiv> in_signed 64"

abbreviation is_u8 :: "int \<Rightarrow> bool" where
  "is_u8 \<equiv> in_unsigned 8"

definition checked :: "nat \<Rightarrow> int \<Rightarrow> int arith" where
  "checked w x = (if in_signed w x then Inr x else Inl Overflow)"

abbreviation chk32 :: "int \<Rightarrow> int arith" where
  "chk32 \<equiv> checked 32"

abbreviation chk64 :: "int \<Rightarrow> int arith" where
  "chk64 \<equiv> checked 64"

definition try_signed :: "nat \<Rightarrow> int \<Rightarrow> int option" where
  "try_signed w x = (if in_signed w x then Some x else None)"

definition as_signed :: "nat \<Rightarrow> int \<Rightarrow> int" where
  "as_signed w x = (x + 2 ^ (w - 1)) mod 2 ^ w - 2 ^ (w - 1)"

definition as_unsigned :: "nat \<Rightarrow> int \<Rightarrow> int" where
  "as_unsigned w x = x mod 2 ^ w"

lemma in_signed_iff:
  "in_signed 32 x \<longleftrightarrow> - 2147483648 \<le> x \<and> x < 2147483648"
  "in_signed 64 x \<longleftrightarrow> - 9223372036854775808 \<le> x \<and> x < 9223372036854775808"
  "in_unsigned 8 x \<longleftrightarrow> 0 \<le> x \<and> x < 256"
  "in_unsigned 16 x \<longleftrightarrow> 0 \<le> x \<and> x < 65536"
  by (simp_all add: in_signed_def in_unsigned_def)

lemma checked_in [simp]: "in_signed w x \<Longrightarrow> checked w x = Inr x"
  by (simp add: checked_def)

lemma checked_Inr_iff: "checked w x = Inr y \<longleftrightarrow> in_signed w x \<and> y = x"
  by (auto simp: checked_def)

lemma as_signed_id:
  assumes "0 < w" "in_signed w x"
  shows "as_signed w x = x"
proof -
  have "(2::int) ^ w = 2 * 2 ^ (w - 1)" using assms(1) by (cases w) simp_all
  then show ?thesis using assms(2) by (simp add: as_signed_def in_signed_def mod_pos_pos_trivial)
qed

lemma as_unsigned_id: "in_unsigned w x \<Longrightarrow> as_unsigned w x = x"
  by (simp add: as_unsigned_def in_unsigned_def)

lemma try_signed_in [simp]: "in_signed w x \<Longrightarrow> try_signed w x = Some x"
  by (simp add: try_signed_def)

lemma in_signed_mono:
  assumes "in_signed v x" "v \<le> w"
  shows "in_signed w x"
proof -
  have "(2::int) ^ (v - 1) \<le> 2 ^ (w - 1)" using assms(2) by (intro power_increasing) simp_all
  then show ?thesis using assms(1) unfolding in_signed_def by linarith
qed

end
