(* ===== verification/Temporal_Iso.thy ===== *)
theory Temporal_Iso
  imports Machine_Int
begin

text \<open>
  The ISO calendar of \<open>bluejs/src/vm/temporal/plain_date/iso_date.rs\<close>: conversion between
  civil dates and day numbers, the week getters, and the operations that balance, regulate and
  add to a date.
\<close>

type_synonym civil_date = "int \<times> int \<times> int"

definition is_civil_date :: "civil_date \<Rightarrow> bool" where
  "is_civil_date = (\<lambda>(y, m, d). is_i32 y \<and> is_u8 m \<and> is_u8 d)"

definition is_iso_leap_year :: "int \<Rightarrow> bool" where
  "is_iso_leap_year year \<longleftrightarrow> (year mod 4 = 0 \<and> year mod 100 \<noteq> 0) \<or> year mod 400 = 0"

definition iso_days_in_month :: "int \<Rightarrow> int \<Rightarrow> int arith" where
  "iso_days_in_month year month =
     (if month \<in> {1, 3, 5, 7, 8, 10, 12} then Inr 31
      else if month \<in> {4, 6, 9, 11} then Inr 30
      else if month = 2 then Inr (if is_iso_leap_year year then 29 else 28)
      else Inl Unreachable)"

definition iso_date_to_epoch_days :: "civil_date \<Rightarrow> int" where
  "iso_date_to_epoch_days = (\<lambda>(year, month, day).
     let adjusted_year = year - (if month \<le> 2 then 1 else 0);
         era = adjusted_year div 400;
         year_of_era = adjusted_year - era * 400;
         march_month = month + (if month > 2 then - 3 else 9);
         day_of_year = (153 * march_month + 2) div 5 + day - 1;
         day_of_era = year_of_era * 365 + year_of_era div 4 - year_of_era div 100 + day_of_year
     in era * 146097 + day_of_era - 719468)"

definition civil_from_days :: "int \<Rightarrow> civil_date" where
  "civil_from_days z =
     (let era = z div 146097;
          day_of_era = z mod 146097;
          year_of_era = (day_of_era - day_of_era div 1460 + day_of_era div 36524 - day_of_era div 146096) div 365;
          year = year_of_era + era * 400;
          day_of_year = day_of_era - (365 * year_of_era + year_of_era div 4 - year_of_era div 100);
          month_prime = (5 * day_of_year + 2) div 153;
          day = as_unsigned 8 (day_of_year - (153 * month_prime + 2) div 5 + 1);
          month = as_unsigned 8 (if month_prime < 10 then month_prime + 3 else month_prime - 9);
          year = as_signed 32 (if month \<le> 2 then year + 1 else year)
      in (year, month, day))"

definition epoch_days_to_iso_date :: "int \<Rightarrow> civil_date arith" where
  "epoch_days_to_iso_date days = res_bind (chk64 (days + 719468)) (\<lambda>z. Inr (civil_from_days z))"

definition iso_day_of_week :: "civil_date \<Rightarrow> int" where
  "iso_day_of_week date = as_unsigned 8 ((iso_date_to_epoch_days date mod 7 + 3) mod 7) + 1"

definition iso_day_of_year :: "civil_date \<Rightarrow> int" where
  "iso_day_of_year date =
     as_unsigned 16 (iso_date_to_epoch_days date - iso_date_to_epoch_days (fst date, 1, 1) + 1)"

definition iso_weeks_in_year :: "int \<Rightarrow> int" where
  "iso_weeks_in_year year =
     (let p = (\<lambda>y. (y + y div 4 - y div 100 + y div 400) mod 7)
      in if p year = 4 \<or> p (year - 1) = 3 then 53 else 52)"

definition iso_week_of_year :: "civil_date \<Rightarrow> (int \<times> int) arith" where
  "iso_week_of_year date =
     (let day_of_year = iso_day_of_year date;
          day_of_week = iso_day_of_week date;
          week = (day_of_year - day_of_week + 10) div 7
      in if week < 1 then res_bind (chk32 (fst date - 1)) (\<lambda>y. Inr (iso_weeks_in_year y, y))
         else if week > iso_weeks_in_year (fst date) then res_bind (chk32 (fst date + 1)) (\<lambda>y. Inr (1, y))
         else Inr (as_unsigned 8 week, fst date))"

text \<open>The order of Rust's tuples is lexicographic.\<close>

datatype ordering = Less | Equal | Greater

fun cmp_int :: "int \<Rightarrow> int \<Rightarrow> ordering" where
  "cmp_int a b = (if a < b then Less else if a = b then Equal else Greater)"

fun compare_date_tuple :: "int \<times> int \<times> int \<Rightarrow> int \<times> int \<times> int \<Rightarrow> ordering" where
  "compare_date_tuple (y1, m1, d1) (y2, m2, d2) =
     (case cmp_int y1 y2 of
        Equal \<Rightarrow> (case cmp_int m1 m2 of Equal \<Rightarrow> cmp_int d1 d2 | c \<Rightarrow> c)
      | c \<Rightarrow> c)"

definition compare_iso_date :: "civil_date \<Rightarrow> civil_date \<Rightarrow> ordering" where
  "compare_iso_date a b = compare_date_tuple a b"

definition surpasses :: "int \<Rightarrow> int \<times> int \<times> int \<Rightarrow> int \<times> int \<times> int \<Rightarrow> bool" where
  "surpasses sign one two \<longleftrightarrow>
     (case compare_date_tuple one two of Less \<Rightarrow> - 1 | Equal \<Rightarrow> 0 | Greater \<Rightarrow> 1) * sign > 0"

definition balance_iso_year_month :: "int \<Rightarrow> int \<Rightarrow> (int \<times> int) arith" where
  "balance_iso_year_month year month =
     res_bind (chk64 (month - 1)) (\<lambda>zero_based.
     res_bind (chk64 (year + zero_based div 12)) (\<lambda>carried_year.
     Inr (carried_year, as_unsigned 8 (zero_based mod 12 + 1))))"

definition regulate_iso_date :: "int \<Rightarrow> int \<Rightarrow> int \<Rightarrow> bool \<Rightarrow> civil_date option arith" where
  "regulate_iso_date year month day reject =
     res_bind (iso_days_in_month year month) (\<lambda>mx.
     Inr (if reject then
            if \<not> (1 \<le> day \<and> day \<le> mx) then None else Some (year, month, as_unsigned 8 day)
          else Some (year, month, as_unsigned 8 (max 1 (min day mx)))))"

definition balance_iso_date :: "int \<Rightarrow> int \<Rightarrow> int \<Rightarrow> civil_date arith" where
  "balance_iso_date year month day =
     (let start_of_month = iso_date_to_epoch_days (year, month, 1)
      in res_bind (chk64 (start_of_month + day)) (\<lambda>s.
         res_bind (chk64 (s - 1)) epoch_days_to_iso_date))"

definition add_iso_date ::
  "civil_date \<Rightarrow> int \<Rightarrow> int \<Rightarrow> int \<Rightarrow> int \<Rightarrow> bool \<Rightarrow> civil_date option arith" where
  "add_iso_date date years months weeks days reject =
     (case date of (y, m, d) \<Rightarrow>
        res_bind (chk64 (y + years)) (\<lambda>cy.
        res_bind (chk64 (m + months)) (\<lambda>cm.
        res_bind (balance_iso_year_month cy cm) (\<lambda>(carried_year, carried_month).
        case try_signed 32 carried_year of
          None \<Rightarrow> Inr None
        | Some carried_year \<Rightarrow>
            res_bind (regulate_iso_date carried_year carried_month d reject) (\<lambda>r.
            case r of
              None \<Rightarrow> Inr None
            | Some (year, month, day) \<Rightarrow>
                res_bind (chk64 (day + days)) (\<lambda>s.
                res_bind (chk64 (weeks * 7)) (\<lambda>w.
                res_bind (chk64 (s + w)) (\<lambda>total.
                res_bind (balance_iso_date year month total) (\<lambda>c. Inr (Some c))))))))))"

end
