(* ===== verification/Temporal_Days.thy ===== *)
theory Temporal_Days
  imports Temporal_Iso
begin

text \<open>
  The conversion between dates and day numbers is exact: the day number counts the days of the
  calendar from 1970-01-01, and the inverse finds the date again.
\<close>

section \<open>Valid dates\<close>

definition month_length :: "int \<Rightarrow> int \<Rightarrow> int" where
  "month_length year month = (case iso_days_in_month year month of Inr n \<Rightarrow> n | Inl _ \<Rightarrow> 0)"

definition valid_date :: "civil_date \<Rightarrow> bool" where
  "valid_date = (\<lambda>(y, m, d). 1 \<le> m \<and> m \<le> 12 \<and> 1 \<le> d \<and> d \<le> month_length y m)"

text \<open>
  The reference: the day after a date. Day numbers are what counting with it gives.
\<close>

definition next_day :: "civil_date \<Rightarrow> civil_date" where
  "next_day = (\<lambda>(y, m, d).
     if d < month_length y m then (y, m, d + 1)
     else if m < 12 then (y, m + 1, 1)
     else (y + 1, 1, 1))"

lemma months_of_the_year: "1 \<le> m \<and> m \<le> 12 \<longleftrightarrow> m \<in> {1, 2, 3, 4, 5, 6, 7, 8, 9, 10, 11, 12 :: int}"
  unfolding insert_iff empty_iff by presburger

lemma iso_days_in_month_Inr: "1 \<le> m \<Longrightarrow> m \<le> 12 \<Longrightarrow> iso_days_in_month y m = Inr (month_length y m)"
  using months_of_the_year [of m] by (auto simp: iso_days_in_month_def month_length_def)

lemma month_length_bounds: "1 \<le> m \<Longrightarrow> m \<le> 12 \<Longrightarrow> 28 \<le> month_length y m \<and> month_length y m \<le> 31"
  using months_of_the_year [of m] by (auto simp: iso_days_in_month_def month_length_def)

section \<open>Years of an era\<close>

text \<open>
  The algorithm counts years from March, so that the leap day is the last of its year, in eras
  of 400 years: \<open>year_start Y\<close> is the first day of year \<open>Y\<close> of an era.
\<close>

definition year_start :: "int \<Rightarrow> int" where
  "year_start Y = Y * 365 + Y div 4 - Y div 100 + Y div 400"

definition year_of :: "int \<Rightarrow> int" where
  "year_of doe = (doe - doe div 1460 + doe div 36524 - doe div 146096) div 365"

lemma year_of_mono:
  assumes "x \<le> y"
  shows "year_of x \<le> year_of y"
proof -
  have q: "a - a div n \<le> b - b div n" if "a \<le> b" "0 < n" for a b n :: int
  proof -
    have "(b - a) * 1 \<le> (b - a) * n" using that by (intro mult_left_mono) simp_all
    then have "b div n \<le> (a + (b - a) * n) div n" using that by (intro zdiv_mono1) simp_all
    also have "\<dots> = a div n + (b - a)" using that by simp
    finally show ?thesis by simp
  qed
  have "z div 146096 = z div 36524 div 4" for z :: int by (simp add: div_mult2_eq [symmetric])
  then have "x div 36524 - x div 146096 \<le> y div 36524 - y div 146096"
    using q [of "x div 36524" "y div 36524" 4] zdiv_mono1 [OF assms, of 36524] by simp
  with q [OF assms, of 1460]
  have "x - x div 1460 + x div 36524 - x div 146096 \<le> y - y div 1460 + y div 36524 - y div 146096" by simp
  then show ?thesis unfolding year_of_def by (rule zdiv_mono1) simp
qed

lemma year_ends: "list_all (\<lambda>Y. year_of (year_start Y) = Y \<and> year_of (year_start (Y + 1) - 1) = Y) [0..399]"
  by code_simp

lemma year_of_bounds:
  assumes "0 \<le> Y" "Y < 400" "year_start Y \<le> doe" "doe < year_start (Y + 1)"
  shows "year_of doe = Y"
proof -
  have "Y \<in> set [0..399]" using assms by simp
  then have "year_of (year_start Y) = Y" "year_of (year_start (Y + 1) - 1) = Y"
    using year_ends by (simp_all add: list_all_iff)
  then show ?thesis
    using year_of_mono [OF assms(3)] year_of_mono [of doe "year_start (Y + 1) - 1"] assms(4) by simp
qed

lemma year_exists:
  assumes "0 \<le> doe" "doe < year_start (int n)"
  shows "\<exists>Y. 0 \<le> Y \<and> Y < int n \<and> year_start Y \<le> doe \<and> doe < year_start (Y + 1)"
  using assms
proof (induction n)
  case (Suc n)
  show ?case
  proof (cases "doe < year_start (int n)")
    case True
    with Suc show ?thesis by force
  next
    case False
    with Suc.prems show ?thesis by (intro exI [of _ "int n"]) (simp add: add.commute)
  qed
qed (simp add: year_start_def)

section \<open>Months from March\<close>

definition month_start :: "int \<Rightarrow> int" where
  "month_start mp = (153 * mp + 2) div 5"

lemma month_starts:
  "list_all (\<lambda>doy. let mp = (5 * doy + 2) div 153 in 0 \<le> mp \<and> mp \<le> 11 \<and> month_start mp \<le> doy \<and>
     (mp < 11 \<longrightarrow> doy < month_start (mp + 1))) [0..365]"
  by code_simp

lemma month_of_bounds:
  assumes "0 \<le> doy" "doy \<le> 365"
  shows "0 \<le> (5 * doy + 2) div 153" "(5 * doy + 2) div 153 \<le> 11" "month_start ((5 * doy + 2) div 153) \<le> doy"
    "(5 * doy + 2) div 153 < 11 \<Longrightarrow> doy < month_start ((5 * doy + 2) div 153 + 1)"
  using month_starts assms by (simp_all add: list_all_iff Let_def)

text \<open>The months counted from March, and the length of each.\<close>

lemma month_start_simps:
  "month_start 0 = 0" "month_start 1 = 31" "month_start 2 = 61" "month_start 3 = 92" "month_start 4 = 122"
  "month_start 5 = 153" "month_start 6 = 184" "month_start 7 = 214" "month_start 8 = 245" "month_start 9 = 275"
  "month_start 10 = 306" "month_start 11 = 337"
  by (simp_all add: month_start_def)

lemma month_of_start:
  assumes "0 \<le> mp" "mp \<le> 11" "month_start mp \<le> doy" "doy \<le> 365" "mp < 11 \<Longrightarrow> doy < month_start (mp + 1)"
  shows "(5 * doy + 2) div 153 = mp"
proof -
  have "mp \<in> {0, 1, 2, 3, 4, 5, 6, 7, 8, 9, 10, 11}" unfolding insert_iff empty_iff using assms(1,2) by presburger
  then have "153 * mp \<le> 5 * doy + 2" "5 * doy + 2 < 153 * mp + 153"
    using assms(3-5) by (auto simp: month_start_simps)
  then show ?thesis by (intro int_div_pos_eq [of _ 153 mp "5 * doy + 2 - 153 * mp"]) simp_all
qed

section \<open>Dates in the count from March\<close>

lemma div_succ:
  assumes "0 < (n::int)"
  shows "(Y + 1) div n = Y div n + (if n dvd Y + 1 then 1 else 0)"
proof -
  have Y: "Y = n * (Y div n) + Y mod n" "0 \<le> Y mod n" "Y mod n < n" using assms by simp_all
  show ?thesis
  proof (cases "Y mod n = n - 1")
    case True
    then have "Y + 1 = n * (Y div n) + n" using Y(1) by linarith
    then have e: "Y + 1 = n * (Y div n + 1)" by (simp add: distrib_left)
    then have "n dvd Y + 1" by (metis dvd_triv_left)
    moreover have "(Y + 1) div n = Y div n + 1" unfolding e using assms by simp
    ultimately show ?thesis by simp
  next
    case False
    then have r: "0 \<le> Y mod n + 1" "Y mod n + 1 < n" using Y by simp_all
    have e: "Y + 1 = n * (Y div n) + (Y mod n + 1)" using Y(1) by linarith
    then have "(Y + 1) div n = Y div n" "(Y + 1) mod n = Y mod n + 1"
      using r int_div_pos_eq int_mod_pos_eq by blast+
    then show ?thesis using r Y(2) by (auto simp: dvd_eq_mod_eq_0)
  qed
qed

lemma leap_dvd: "is_iso_leap_year y \<longleftrightarrow> (4 dvd y \<and> \<not> 100 dvd y) \<or> 400 dvd y"
  by (simp only: is_iso_leap_year_def dvd_eq_mod_eq_0)

lemma year_step_count:
  assumes "c \<Longrightarrow> b" "b \<Longrightarrow> a"
  shows "(Y + 1) * 365 + (q + (if a then 1 else 0)) - (r + (if b then 1 else 0)) + (s + (if c then 1 else 0)) =
    Y * 365 + q - r + s + (if a \<and> \<not> b \<or> c then 366 else (365::int))"
  using assms by (cases a; cases b; cases c) simp_all

lemma year_start_step: "year_start (Y + 1) = year_start Y + (if is_iso_leap_year (Y + 1) then 366 else 365)"
proof -
  have d: "(400::int) dvd z \<Longrightarrow> 100 dvd z" "(100::int) dvd z \<Longrightarrow> 4 dvd z" for z
    by (erule dvd_trans [rotated], simp)+
  have s: "(Y + 1) div 4 = Y div 4 + (if 4 dvd Y + 1 then 1 else 0)"
    "(Y + 1) div 100 = Y div 100 + (if 100 dvd Y + 1 then 1 else 0)"
    "(Y + 1) div 400 = Y div 400 + (if 400 dvd Y + 1 then 1 else 0)" by (rule div_succ, simp)+
  show ?thesis unfolding year_start_def leap_dvd s by (rule year_step_count) (erule d)+
qed

lemma leap_period: "is_iso_leap_year (era * 400 + Y) = is_iso_leap_year Y"
proof -
  have "(era * 400 + Y) mod 400 = Y mod 400" by simp
  moreover have "z mod 4 = z mod 400 mod 4" "z mod 100 = z mod 400 mod 100" for z :: int
    by (simp_all add: mod_mod_cancel)
  ultimately show ?thesis unfolding is_iso_leap_year_def by metis
qed

text \<open>\<open>march era Y mp doy\<close>: the date of year \<open>era * 400 + Y\<close>, month \<open>mp\<close> and day \<open>doy\<close>, all from March.\<close>

definition march_ok :: "int \<Rightarrow> int \<Rightarrow> int \<Rightarrow> bool" where
  "march_ok Y mp doy \<longleftrightarrow> 0 \<le> Y \<and> Y < 400 \<and> 0 \<le> mp \<and> mp \<le> 11 \<and> month_start mp \<le> doy \<and>
     (mp < 11 \<longrightarrow> doy < month_start (mp + 1)) \<and> year_start Y + doy < year_start (Y + 1)"

definition march_date :: "int \<Rightarrow> int \<Rightarrow> int \<Rightarrow> int \<Rightarrow> civil_date" where
  "march_date era Y mp doy =
     (era * 400 + Y + (if mp < 10 then 0 else 1), if mp < 10 then mp + 3 else mp - 9, doy - month_start mp + 1)"

lemma march_ok_doy: "march_ok Y mp doy \<Longrightarrow> 0 \<le> doy \<and> doy \<le> 365"
proof -
  assume "march_ok Y mp doy"
  moreover have "0 \<le> month_start mp" if "0 \<le> mp" using that by (simp add: month_start_def)
  ultimately show ?thesis using year_start_step [of Y] by (auto simp: march_ok_def split: if_splits)
qed

lemma epoch_days_split:
  assumes "ay = y - (if m \<le> 2 then 1 else 0)" "ay div 400 = era" "ay - era * 400 = Y"
    and "mp = m + (if m > 2 then - 3 else 9)"
  shows "iso_date_to_epoch_days (y, m, d) = era * 146097 + (Y * 365 + Y div 4 - Y div 100 + (month_start mp + d - 1)) - 719468"
  unfolding iso_date_to_epoch_days_def month_start_def case_prod_conv Let_def
  by (simp only: assms(1) [symmetric] assms(2,3) assms(4) [symmetric])

lemma march_days:
  assumes "march_ok Y mp doy"
  shows "iso_date_to_epoch_days (march_date era Y mp doy) = era * 146097 + year_start Y + doy - 719468"
proof -
  have Y: "0 \<le> Y" "Y < 400" "0 \<le> mp" "mp \<le> 11" using assms by (simp_all add: march_ok_def)
  have era: "(era * 400 + Y) div 400 = era" "Y div 400 = 0" using Y by simp_all
  have "iso_date_to_epoch_days (march_date era Y mp doy) =
      era * 146097 + (Y * 365 + Y div 4 - Y div 100 + (month_start mp + (doy - month_start mp + 1) - 1)) - 719468"
    unfolding march_date_def
    by (rule epoch_days_split [where ay = "era * 400 + Y"]) (use Y era in \<open>auto split: if_splits\<close>)
  then show ?thesis using era by (simp only: year_start_def)
qed

lemma march_valid:
  assumes "march_ok Y mp doy"
  shows "valid_date (march_date era Y mp doy)"
proof -
  have mp: "mp \<in> {0, 1, 2, 3, 4, 5, 6, 7, 8, 9, 10, 11}"
    unfolding insert_iff empty_iff using assms unfolding march_ok_def by presburger
  have "doy \<le> 364 \<or> is_iso_leap_year (era * 400 + Y + 1) \<and> doy = 365"
    using assms year_start_step [of Y] leap_period [of era "Y + 1"] by (auto simp: march_ok_def add.assoc split: if_splits)
  then show ?thesis
    using mp assms
    by (elim insertE emptyE)
      (auto simp: march_date_def valid_date_def march_ok_def month_start_simps month_length_def iso_days_in_month_def)
qed

lemma valid_march:
  assumes "valid_date (y, m, d)"
  obtains era Y mp doy where "march_ok Y mp doy" "(y, m, d) = march_date era Y mp doy"
proof -
  define ay where "ay = y - (if m \<le> 2 then 1 else 0)"
  define mp where "mp = m + (if m > 2 then - 3 else 9)"
  define doy where "doy = month_start mp + d - 1"
  have m: "1 \<le> m" "m \<le> 12" "1 \<le> d" "d \<le> month_length y m" using assms by (simp_all add: valid_date_def)
  have m': "m \<in> {1, 2, 3, 4, 5, 6, 7, 8, 9, 10, 11, 12}" using months_of_the_year m by blast
  have y: "y = ay div 400 * 400 + ay mod 400 + (if m \<le> 2 then 1 else 0)" by (simp add: ay_def)
  have leap: "is_iso_leap_year y = is_iso_leap_year (ay mod 400 + 1)" if "m = 2"
    using leap_period [of "ay div 400" "ay mod 400 + 1"] y that by (simp add: add.assoc)
  have "march_ok (ay mod 400) mp doy"
    unfolding march_ok_def using m' m(3,4) year_start_step [of "ay mod 400"] leap
    by (elim insertE emptyE)
      (auto simp: mp_def doy_def month_start_simps month_length_def iso_days_in_month_def split: if_splits)
  moreover have "(y, m, d) = march_date (ay div 400) (ay mod 400) mp doy"
    using m' y by (elim insertE emptyE) (auto simp: march_date_def mp_def doy_def)
  ultimately show thesis by (rule that)
qed

lemma year_start_mono: "a \<le> b \<Longrightarrow> year_start a \<le> year_start b"
proof (induction rule: int_ge_induct)
  case (step i)
  then show ?case using year_start_step [of i] by (simp split: if_splits)
qed simp

lemma march_ok_parts:
  assumes "march_ok Y mp doy"
  shows "0 \<le> year_start Y + doy" "year_start Y + doy < 146097" "0 \<le> doy - month_start mp" "doy - month_start mp \<le> 30"
proof -
  have Y: "0 \<le> Y" "Y < 400" "0 \<le> mp" "mp \<le> 11" "month_start mp \<le> doy" "mp < 11 \<Longrightarrow> doy < month_start (mp + 1)"
    "year_start Y + doy < year_start (Y + 1)" using assms by (simp_all add: march_ok_def)
  have "year_start 0 = 0" "year_start 400 = 146097" by (simp_all add: year_start_def)
  then show "0 \<le> year_start Y + doy" "year_start Y + doy < 146097"
    using year_start_mono [of 0 Y] year_start_mono [of "Y + 1" 400] Y march_ok_doy [OF assms] by simp_all
  show "0 \<le> doy - month_start mp" using Y by simp
  have "mp \<in> {0, 1, 2, 3, 4, 5, 6, 7, 8, 9, 10, 11}" unfolding insert_iff empty_iff using Y(3,4) by presburger
  then show "doy - month_start mp \<le> 30"
    using Y(6) march_ok_doy [OF assms] by (auto simp: month_start_simps)
qed

lemma civil_from_march:
  assumes "march_ok Y mp doy" "is_i32 (fst (march_date era Y mp doy))"
  shows "civil_from_days (era * 146097 + year_start Y + doy) = march_date era Y mp doy"
proof -
  have Y: "0 \<le> Y" "Y < 400" "0 \<le> mp" "mp \<le> 11" using assms by (simp_all add: march_ok_def)
  have doy: "0 \<le> doy" "doy \<le> 365" using march_ok_doy [OF assms(1)] by simp_all
  note parts = march_ok_parts [OF assms(1)]
  have e: "era * 146097 + year_start Y + doy = 146097 * era + (year_start Y + doy)" by simp
  have z: "(era * 146097 + year_start Y + doy) div 146097 = era" "(era * 146097 + year_start Y + doy) mod 146097 = year_start Y + doy"
    using int_div_pos_eq [OF e parts(1,2)] int_mod_pos_eq [OF e parts(1,2)] .
  have "year_of (year_start Y + doy) = Y"
    using assms(1) doy by (intro year_of_bounds) (simp_all add: march_ok_def)
  note y = this [unfolded year_of_def]
  have "Y div 400 = 0" using Y by simp
  then have r: "year_start Y + doy - (365 * Y + Y div 4 - Y div 100) = doy" by (simp add: year_start_def)
  have mp: "(5 * doy + 2) div 153 = mp" using assms(1) doy by (intro month_of_start) (simp_all add: march_ok_def)
  have d: "as_unsigned 8 (doy - month_start mp + 1) = doy - month_start mp + 1"
    "as_unsigned 8 (if mp < 10 then mp + 3 else mp - 9) = (if mp < 10 then mp + 3 else mp - 9)"
    using parts Y by (simp_all add: as_unsigned_id in_signed_iff)
  have month: "(if mp < 10 then mp + 3 else mp - 9) \<le> 2 \<longleftrightarrow> \<not> mp < 10" using Y by auto
  show ?thesis
    unfolding civil_from_days_def Let_def z y r mp month_start_def [symmetric] d month
    using assms(2) by (auto simp: march_date_def as_signed_id algebra_simps split: if_splits)
qed

section \<open>Day numbers\<close>

lemma epoch_days_bounds:
  assumes "valid_date (y, m, d)" "is_i32 y"
  shows "- 900000000000 < iso_date_to_epoch_days (y, m, d)" "iso_date_to_epoch_days (y, m, d) < 900000000000"
proof -
  obtain era Y mp doy where c: "march_ok Y mp doy" "(y, m, d) = march_date era Y mp doy"
    using valid_march [OF assms(1)] .
  note parts = march_ok_parts [OF c(1)]
  have "0 \<le> Y" "Y < 400" using c(1) by (simp_all add: march_ok_def)
  then have "- 2147483648 \<le> era * 400 + 400" "era * 400 \<le> 2147483648"
    using assms(2) c(2) by (auto simp: march_date_def in_signed_iff split: if_splits)
  then show "- 900000000000 < iso_date_to_epoch_days (y, m, d)" "iso_date_to_epoch_days (y, m, d) < 900000000000"
    using parts unfolding c(2) march_days [OF c(1)] by linarith+
qed

lemma days_to_date_of_days:
  assumes "valid_date c" "is_i32 (fst c)"
  shows "epoch_days_to_iso_date (iso_date_to_epoch_days c) = Inr c"
proof -
  obtain y m d where p: "c = (y, m, d)" by (cases c)
  have v: "valid_date (y, m, d)" using assms(1) p by simp
  obtain era Y mp doy where c: "march_ok Y mp doy" "(y, m, d) = march_date era Y mp doy"
    using valid_march [OF v] .
  have "is_i64 (iso_date_to_epoch_days c + 719468)"
    using epoch_days_bounds [of y m d] assms by (simp add: p in_signed_iff)
  moreover have "iso_date_to_epoch_days c + 719468 = era * 146097 + year_start Y + doy"
    by (simp add: p c(2) march_days [OF c(1)])
  moreover have "civil_from_days (era * 146097 + year_start Y + doy) = c"
    using civil_from_march [OF c(1)] assms(2) p c(2) by simp
  ultimately show ?thesis by (simp add: epoch_days_to_iso_date_def)
qed

lemma date_of_days:
  obtains c where "valid_date c" "iso_date_to_epoch_days c = n"
proof -
  define z where "z = n + 719468"
  define doe where "doe = z mod 146097"
  have doe: "0 \<le> doe" "doe < 146097" by (simp_all add: doe_def)
  have "year_start (int 400) = 146097" by (simp add: year_start_def)
  then obtain Y where Y: "0 \<le> Y" "Y < 400" "year_start Y \<le> doe" "doe < year_start (Y + 1)"
    using year_exists [OF doe(1), of 400] doe(2) by auto
  define doy where "doy = doe - year_start Y"
  have d: "0 \<le> doy" "doy \<le> 365" using Y year_start_step [of Y] by (auto simp: doy_def split: if_splits)
  have ok: "march_ok Y ((5 * doy + 2) div 153) doy"
    using Y month_of_bounds [OF d] by (simp add: march_ok_def doy_def)
  have "z = z div 146097 * 146097 + doe" by (simp add: doe_def)
  then have "n = z div 146097 * 146097 + year_start Y + doy - 719468" by (simp add: z_def doy_def)
  with that [OF march_valid [OF ok, of "z div 146097"]] show thesis by (simp add: march_days [OF ok])
qed

lemma year_start_era: "year_start (era * 400 + Y) = era * 146097 + year_start Y"
proof -
  have e: "era * 400 = era * 100 * 4" "era * 400 = era * 4 * 100" by simp_all
  have "(era * 400 + Y) div 4 = era * 100 + Y div 4" unfolding e(1) by (rule div_mult_self3) simp
  moreover have "(era * 400 + Y) div 100 = era * 4 + Y div 100" unfolding e(2) by (rule div_mult_self3) simp
  moreover have "(era * 400 + Y) div 400 = era + Y div 400" by (rule div_mult_self3) simp
  ultimately show ?thesis by (simp add: year_start_def)
qed

lemma epoch_days_eq:
  "iso_date_to_epoch_days (y, m, d) =
     year_start (y - (if m \<le> 2 then 1 else 0)) + month_start (m + (if m > 2 then - 3 else 9)) + d - 719469"
proof -
  define ay where ay: "ay = y - (if m \<le> 2 then 1 else 0)"
  have "year_start (ay div 400 * 400 + ay mod 400) = ay div 400 * 146097 + year_start (ay mod 400)"
    by (rule year_start_era)
  then have "year_start ay = ay div 400 * 146097 + year_start (ay mod 400)" by (simp only: div_mult_mod_eq)
  moreover have "year_start (ay mod 400) = ay mod 400 * 365 + ay mod 400 div 4 - ay mod 400 div 100"
    by (simp add: year_start_def)
  ultimately show ?thesis
    using epoch_days_split [OF ay refl minus_div_mult_eq_mod refl, of d] unfolding ay [symmetric] by linarith
qed

section \<open>Counting days\<close>

lemma next_day_counts:
  assumes "valid_date c"
  shows "valid_date (next_day c)" "iso_date_to_epoch_days (next_day c) = iso_date_to_epoch_days c + 1"
proof -
  obtain y m d where p: "c = (y, m, d)" by (cases c)
  have v: "1 \<le> m" "m \<le> 12" "1 \<le> d" "d \<le> month_length y m" using assms by (simp_all add: p valid_date_def)
  have m: "m \<in> {1, 2, 3, 4, 5, 6, 7, 8, 9, 10, 11, 12}" using months_of_the_year v by blast
  have l: "1 \<le> month_length y (m + 1)" if "m < 12" using month_length_bounds [of "m + 1" y] v that by simp
  have j: "1 \<le> month_length (y + 1) 1" using month_length_bounds [of 1 "y + 1"] by simp
  show "valid_date (next_day c)" using v l j by (auto simp: p next_day_def valid_date_def)
  have s: "year_start y = year_start (y - 1) + (if is_iso_leap_year y then 366 else 365)"
    using year_start_step [of "y - 1"] by simp
  show "iso_date_to_epoch_days (next_day c) = iso_date_to_epoch_days c + 1"
  proof (cases "d < month_length y m")
    case True
    then show ?thesis by (simp add: p next_day_def epoch_days_eq)
  next
    case False
    then have "d = month_length y m" using v by simp
    then show ?thesis
      using m s by (elim insertE emptyE)
        (simp_all add: p next_day_def epoch_days_eq month_start_simps month_length_def iso_days_in_month_def)
  qed
qed

lemma next_days_count:
  "valid_date c \<Longrightarrow> valid_date ((next_day ^^ n) c) \<and>
   iso_date_to_epoch_days ((next_day ^^ n) c) = iso_date_to_epoch_days c + int n"
  by (induction n) (auto simp: next_day_counts)

lemma march_unique:
  assumes "march_ok Y mp doy" "march_ok Y' mp' doy'"
    and "era * 146097 + year_start Y + doy = era' * 146097 + year_start Y' + doy'"
  shows "era = era'" "Y = Y'" "mp = mp'" "doy = doy'"
proof -
  note p = march_ok_parts [OF assms(1)] and q = march_ok_parts [OF assms(2)]
  let ?z = "era * 146097 + year_start Y + doy"
  have "?z = 146097 * era + (year_start Y + doy)" "?z = 146097 * era' + (year_start Y' + doy')"
    using assms(3) by simp_all
  then have "?z div 146097 = era" "?z div 146097 = era'" "?z mod 146097 = year_start Y + doy" "?z mod 146097 = year_start Y' + doy'"
    using p(1,2) q(1,2) int_div_pos_eq int_mod_pos_eq by blast+
  then have e: "era = era' \<and> year_start Y + doy = year_start Y' + doy'" by simp
  then show "era = era'" by blast
  have d: "0 \<le> doy" "doy \<le> 365" "0 \<le> doy'" "doy' \<le> 365"
    using march_ok_doy [OF assms(1)] march_ok_doy [OF assms(2)] by simp_all
  have "year_of (year_start Y + doy) = Y" "year_of (year_start Y' + doy') = Y'"
    using assms(1,2) d by (auto intro!: year_of_bounds simp: march_ok_def)
  then show Y: "Y = Y'" using e by simp
  then show doy: "doy = doy'" using e by simp
  have "(5 * doy + 2) div 153 = mp" "(5 * doy' + 2) div 153 = mp'"
    using assms(1,2) d by (auto intro!: month_of_start simp: march_ok_def)
  then show "mp = mp'" using doy by simp
qed

lemma epoch_days_inject:
  assumes "valid_date a" "valid_date b" "iso_date_to_epoch_days a = iso_date_to_epoch_days b"
  shows "a = b"
proof -
  have rep: "\<exists>era Y mp doy. march_ok Y mp doy \<and> c = march_date era Y mp doy" if "valid_date c" for c
    using that valid_march by (cases c) metis
  obtain era Y mp doy where a: "march_ok Y mp doy" "a = march_date era Y mp doy" using rep [OF assms(1)] by blast
  obtain era' Y' mp' doy' where b: "march_ok Y' mp' doy'" "b = march_date era' Y' mp' doy'" using rep [OF assms(2)] by blast
  have "era * 146097 + year_start Y + doy = era' * 146097 + year_start Y' + doy'"
    using assms(3) by (simp add: a(2) b(2) march_days [OF a(1)] march_days [OF b(1)])
  from march_unique [OF a(1) b(1) this] show ?thesis by (simp add: a(2) b(2))
qed

text \<open>The order of dates is the order of their day numbers.\<close>

lemma cmp_less_trans: "compare_date_tuple a b = Less \<Longrightarrow> compare_date_tuple b c = Less \<Longrightarrow> compare_date_tuple a c = Less"
  by (cases a; cases b; cases c) (auto split: if_splits)

lemma next_day_later: "compare_date_tuple c (next_day c) = Less"
  by (cases c) (auto simp: next_day_def)

lemma later_date:
  assumes "valid_date a" "valid_date b" "iso_date_to_epoch_days a < iso_date_to_epoch_days b"
  shows "compare_date_tuple a b = Less"
proof -
  define n where "n = nat (iso_date_to_epoch_days b - iso_date_to_epoch_days a) - 1"
  have "iso_date_to_epoch_days b = iso_date_to_epoch_days a + int (Suc n)" using assms(3) by (simp add: n_def)
  then have "b = (next_day ^^ Suc n) a"
    using next_days_count [OF assms(1), of "Suc n"] by (intro epoch_days_inject [OF assms(2)]) auto
  moreover have "compare_date_tuple a ((next_day ^^ Suc k) a) = Less" for k
    by (induction k) (auto intro: next_day_later cmp_less_trans)
  ultimately show ?thesis by simp
qed

lemma cmp_swap: "compare_date_tuple a b = Less \<longleftrightarrow> compare_date_tuple b a = Greater"
  by (cases a; cases b) auto

lemma cmp_equal [simp]: "compare_date_tuple a b = Equal \<longleftrightarrow> a = b"
  by (cases a; cases b) auto

lemma compare_days:
  assumes "valid_date a" "valid_date b"
  shows "compare_iso_date a b = cmp_int (iso_date_to_epoch_days a) (iso_date_to_epoch_days b)"
proof -
  consider "iso_date_to_epoch_days a < iso_date_to_epoch_days b" | "a = b"
    | "iso_date_to_epoch_days b < iso_date_to_epoch_days a"
    using epoch_days_inject [OF assms] by fastforce
  then show ?thesis
    using later_date [OF assms] later_date [OF assms(2,1)] by cases (auto simp: compare_iso_date_def cmp_swap [of b a])
qed

lemma year_range:
  assumes "valid_date c" "\<bar>iso_date_to_epoch_days c\<bar> \<le> 784000000000"
  shows "is_i32 (fst c)"
proof -
  obtain y m d where p: "c = (y, m, d)" by (cases c)
  let ?ay = "y - (if m \<le> 2 then 1 else 0)" and ?mp = "m + (if m > 2 then - 3 else 9)"
  have v: "1 \<le> m" "m \<le> 12" "1 \<le> d" "d \<le> 31" using assms(1) month_length_bounds [of m y] by (auto simp: p valid_date_def)
  then have ms: "0 \<le> month_start ?mp" "month_start ?mp \<le> 337"
    using months_of_the_year [of m] by (auto simp: month_start_simps)
  have e: "iso_date_to_epoch_days c = year_start ?ay + month_start ?mp + d - 719469" by (simp only: p epoch_days_eq)
  have k: "year_start (- 2147483648) = - 784352296305" "year_start 2147483646 = 784352295574"
    by (simp_all add: year_start_def)
  have "\<not> y < - 2147483648"
  proof
    assume "y < - 2147483648"
    then have "year_start ?ay \<le> year_start (- 2147483648)" by (intro year_start_mono) simp
    then show False using assms(2) e ms v k by simp
  qed
  moreover have "\<not> y \<ge> 2147483648"
  proof
    assume "y \<ge> 2147483648"
    then have "year_start 2147483646 \<le> year_start ?ay" by (intro year_start_mono) simp
    then show False using assms(2) e ms v k by simp
  qed
  ultimately show ?thesis by (simp add: p in_signed_iff)
qed

lemma days_to_date:
  assumes "\<bar>n\<bar> \<le> 784000000000"
  obtains c where "epoch_days_to_iso_date n = Inr c" "valid_date c" "is_i32 (fst c)" "iso_date_to_epoch_days c = n"
proof -
  obtain c where c: "valid_date c" "iso_date_to_epoch_days c = n" by (rule date_of_days)
  then have "is_i32 (fst c)" using assms year_range by blast
  with days_to_date_of_days [OF c(1)] c that show thesis by simp
qed

text \<open>
  C25. The day number of a date is what counting the days of the Gregorian calendar gives:
  1970-01-01 is day 0, the date \<open>n\<close> days after a valid date, found by stepping \<open>n\<close> times to the
  next day, has the number \<open>n\<close> higher, and dates compare exactly as their numbers do.
\<close>

theorem epoch_days_count:
  assumes "valid_date a" "valid_date b"
  shows "iso_date_to_epoch_days (1970, 1, 1) = 0 \<and>
    iso_date_to_epoch_days ((next_day ^^ n) a) = iso_date_to_epoch_days a + int n \<and>
    compare_iso_date a b = cmp_int (iso_date_to_epoch_days a) (iso_date_to_epoch_days b)"
proof -
  have "iso_date_to_epoch_days (1970, 1, 1) = 0" by code_simp
  then show ?thesis using next_days_count [OF assms(1)] compare_days [OF assms] by blast
qed

text \<open>
  C26. Dates and day numbers convert into each other without loss: every valid date with a
  32-bit year comes back from its day number, and every day number up to \<open>784 * 10 ^ 9\<close> days
  from the epoch is that of the valid date it is converted to, without an overflow.
\<close>

theorem epoch_days_round_trip:
  assumes "valid_date c" "is_i32 (fst c)" "\<bar>n\<bar> \<le> 784000000000"
  shows "epoch_days_to_iso_date (iso_date_to_epoch_days c) = Inr c \<and>
    (\<exists>c'. epoch_days_to_iso_date n = Inr c' \<and> valid_date c' \<and> is_i32 (fst c') \<and> iso_date_to_epoch_days c' = n)"
  using days_to_date_of_days [OF assms(1,2)] days_to_date [OF assms(3)] by metis

end
