(* ===== verification/Temporal_Weeks.thy ===== *)
theory Temporal_Weeks
  imports Temporal_Days
begin

text \<open>
  The week getters against their definition in ISO 8601: a week belongs to the year of its
  Thursday, and is numbered by the Thursdays of that year.
\<close>

abbreviation new_year :: "int \<Rightarrow> int" where
  "new_year y \<equiv> iso_date_to_epoch_days (y, 1, 1)"

lemma new_year_eq: "new_year y = year_start (y - 1) - 719162"
  by (simp add: epoch_days_eq month_start_simps)

lemma new_year_step: "new_year (y + 1) - new_year y = 365 \<or> new_year (y + 1) - new_year y = 366"
  using year_start_step [of "y - 1"] by (simp add: new_year_eq)

lemma new_year_mod: "new_year y mod 7 = ((y - 1) + (y - 1) div 4 - (y - 1) div 100 + (y - 1) div 400 + 4) mod 7"
proof -
  let ?Y = "y - 1"
  have "new_year y = (?Y + ?Y div 4 - ?Y div 100 + ?Y div 400 + 4) + 7 * (?Y * 52 - 102738)"
    by (simp add: new_year_eq year_start_def)
  then show ?thesis by (metis mod_mult_self2)
qed

lemma weeks_in_year_eq:
  "iso_weeks_in_year y = (if new_year y mod 7 = 0 \<or> new_year (y + 1) mod 7 = 1 then 53 else 52)"
proof -
  have m: "(x + 4) mod 7 = 0 \<longleftrightarrow> x mod 7 = 3" "(x + 4) mod 7 = 1 \<longleftrightarrow> x mod 7 = 4" for x :: int by presburger+
  show ?thesis unfolding iso_weeks_in_year_def Let_def new_year_mod m by (simp add: disj_commute)
qed

text \<open>A date lies between the first day of its year and that of the next.\<close>

lemma in_year:
  assumes "valid_date (y, m, d)"
  shows "new_year y \<le> iso_date_to_epoch_days (y, m, d)" "iso_date_to_epoch_days (y, m, d) < new_year (y + 1)"
proof -
  have v: "valid_date (x, 1, 1)" for x by (simp add: valid_date_def month_length_def iso_days_in_month_def)
  have md: "1 \<le> m" "1 \<le> d" using assms by (simp_all add: valid_date_def)
  have "compare_date_tuple (y, m, d) (y, 1, 1) \<noteq> Less" using md by auto
  then show "new_year y \<le> iso_date_to_epoch_days (y, m, d)"
    using later_date [OF assms v [of y]] by fastforce
  have "compare_date_tuple (y + 1, 1, 1) (y, m, d) \<noteq> Less" "(y + 1, 1, 1) \<noteq> (y, m, d)" by auto
  then show "iso_date_to_epoch_days (y, m, d) < new_year (y + 1)"
    using later_date [OF v [of "y + 1"] assms] epoch_days_inject [OF v [of "y + 1"] assms] by (metis linorder_less_linear)
qed

lemma year_of_day:
  assumes "valid_date (y', m, d)" "new_year y \<le> iso_date_to_epoch_days (y', m, d)"
    "iso_date_to_epoch_days (y', m, d) < new_year (y + 1)"
  shows "y' = y"
proof (rule ccontr)
  have mono: "new_year a \<le> new_year b" if "a \<le> b" for a b
    using year_start_mono [of "a - 1" "b - 1"] that by (simp add: new_year_eq)
  assume "y' \<noteq> y"
  then consider "y' + 1 \<le> y" | "y + 1 \<le> y'" by fastforce
  then show False using assms(2,3) in_year [OF assms(1)] mono by cases (meson le_less_trans less_le_not_le)+
qed

lemma day_of_year_eq:
  assumes "valid_date (y, m, d)"
  shows "iso_day_of_year (y, m, d) = iso_date_to_epoch_days (y, m, d) - new_year y + 1"
  unfolding iso_day_of_year_def fst_conv
  by (rule as_unsigned_id, unfold in_signed_iff) (use in_year [OF assms] new_year_step [of y] in linarith)

lemma day_of_week_eq: "iso_day_of_week c = (iso_date_to_epoch_days c + 3) mod 7 + 1"
proof -
  have "(iso_date_to_epoch_days c mod 7 + 3) mod 7 = (iso_date_to_epoch_days c + 3) mod 7" by (simp add: mod_add_left_eq)
  then show ?thesis unfolding iso_day_of_week_def by (simp add: as_unsigned_def)
qed

lemma week_cases:
  fixes D s b N P w :: int
  assumes "- 3 \<le> s" "s \<le> 3" "0 \<le> b" "b < 7" "b \<le> 7 * D + s" "7 * D + s < b + N"
    and "N = 365 \<or> N = 366" "P = 365 \<or> P = 366" "w = D + (if b = 0 then 1 else 0)"
  shows "w < 1 \<Longrightarrow> D = 0 \<and> 0 < b \<and> (P - b) div 7 + 1 = (if (b - P) mod 7 = 0 \<or> b = 1 then 53 else 52)"
    "w > (if b = 0 \<or> (b + N) mod 7 = 1 then 53 else 52) \<Longrightarrow> b + N \<le> 7 * D \<and> 7 * D < b + N + 7"
    "\<not> w < 1 \<Longrightarrow> \<not> w > (if b = 0 \<or> (b + N) mod 7 = 1 then 53 else 52) \<Longrightarrow>
      b \<le> 7 * D \<and> 7 * D < b + N \<and> w \<le> 53"
proof -
  have b: "b = 0 \<or> b = 1 \<or> b = 2 \<or> b = 3 \<or> b = 4 \<or> b = 5 \<or> b = 6" using assms(3,4) by linarith
  show "D = 0 \<and> 0 < b \<and> (P - b) div 7 + 1 = (if (b - P) mod 7 = 0 \<or> b = 1 then 53 else 52)" if "w < 1"
  proof -
    have D: "D = 0" "b \<in> {1, 2, 3}" using that assms(1-5,9) b by (auto split: if_splits)
    show ?thesis using D(2) assms(8) by (elim insertE emptyE disjE) (simp_all add: D(1))
  qed
  show "b + N \<le> 7 * D \<and> 7 * D < b + N + 7" if "w > (if b = 0 \<or> (b + N) mod 7 = 1 then 53 else 52)"
    using b assms(7) that assms(1,2,6,9) by (elim disjE) simp_all
  show "b \<le> 7 * D \<and> 7 * D < b + N \<and> w \<le> 53" if "\<not> w < 1" "\<not> w > (if b = 0 \<or> (b + N) mod 7 = 1 then 53 else 52)"
    using b assms(7) that assms(1,2,6,9) by (elim disjE) (simp_all, presburger+)
qed

text \<open>The day number of the Thursday of the week that a day is in; day 0 was a Thursday.\<close>

definition thursday :: "int \<Rightarrow> int" where
  "thursday e = e - ((e + 3) mod 7 + 1) + 4"

lemma thursday_form:
  obtains q s where "e = 7 * q + s" "- 3 \<le> s" "s \<le> 3" "thursday e = 7 * q" "(e + 3) mod 7 + 1 = s + 4"
proof -
  define q r where "q = (e + 3) div 7" and r: "r = (e + 3) mod 7"
  then have "e + 3 = 7 * q + r" "0 \<le> r" "r < 7" by simp_all
  then show thesis using that [of q "r - 3"] unfolding thursday_def r [symmetric] by simp
qed

lemma week_of_year_cases:
  assumes "valid_date (y, m, d)"
  defines "e \<equiv> iso_date_to_epoch_days (y, m, d)"
  defines "w \<equiv> (iso_day_of_year (y, m, d) - iso_day_of_week (y, m, d) + 10) div 7"
  shows "w < 1 \<Longrightarrow> new_year (y - 1) \<le> thursday e \<and> thursday e < new_year y \<and>
      iso_weeks_in_year (y - 1) = (thursday e - new_year (y - 1)) div 7 + 1"
    "w > iso_weeks_in_year y \<Longrightarrow> new_year (y + 1) \<le> thursday e \<and> thursday e < new_year (y + 1) + 7"
    "\<not> w < 1 \<Longrightarrow> \<not> w > iso_weeks_in_year y \<Longrightarrow> new_year y \<le> thursday e \<and> thursday e < new_year (y + 1) \<and>
      w = (thursday e - new_year y) div 7 + 1 \<and> w \<le> 53"
proof -
  obtain q s where q: "e = 7 * q + s" "- 3 \<le> s" "s \<le> 3" "thursday e = 7 * q" "(e + 3) mod 7 + 1 = s + 4"
    by (rule thursday_form)
  define a b N P where "a = new_year y div 7" "b = new_year y mod 7" "N = new_year (y + 1) - new_year y"
    "P = new_year y - new_year (y - 1)"
  have J: "new_year y = 7 * a + b" "0 \<le> b" "b < 7" by (simp_all add: a_b_N_P_def)
  have NP: "N = 365 \<or> N = 366" "P = 365 \<or> P = 366"
    using new_year_step [of y] new_year_step [of "y - 1"] by (simp_all add: a_b_N_P_def)
  have y: "new_year (y + 1) = new_year y + N" "new_year (y - 1) = new_year y - P" by (simp_all add: a_b_N_P_def)
  define D where "D = q - a"
  then have qD: "q = a + D" by simp
  have "w = (7 * q - new_year y + 7) div 7"
    using q(1,5) by (simp add: w_def day_of_year_eq [OF assms(1)] day_of_week_eq e_def [symmetric])
  also have "\<dots> = (7 * D + (7 - b)) div 7" by (simp add: J(1) qD)
  also have "\<dots> = D + (7 - b) div 7" by simp
  also have "(7 - b) div 7 = (if b = 0 then 1 else 0)" using J(2,3) by simp
  finally have w: "w = D + (if b = 0 then 1 else 0)" .
  have ey: "b \<le> 7 * D + s" "7 * D + s < b + N"
    using in_year [OF assms(1)] q(1) y(1) J(1) qD by (simp_all add: e_def)
  have m: "new_year y mod 7 = b" "new_year (y + 1) mod 7 = (b + N) mod 7" "new_year (y - 1) mod 7 = (b - P) mod 7"
    unfolding y J(1) using J(2,3) mod_mult_self4 [of 7 a "b + N"] mod_mult_self4 [of 7 a "b - P"]
    by (simp_all add: algebra_simps)
  have d: "(thursday e - new_year y) div 7 = D + (- b) div 7" by (simp add: q(4) J(1) qD)
  have d': "(- b) div 7 = (if b = 0 then 0 else - 1)" using J(2,3) by auto
  have dw: "w = (thursday e - new_year y) div 7 + 1" using d d' w by simp
  have wy: "iso_weeks_in_year y = (if b = 0 \<or> (b + N) mod 7 = 1 then 53 else 52)"
    by (simp only: weeks_in_year_eq m)
  note c = week_cases [OF q(2,3) J(2,3) ey NP w]
  show "w < 1 \<Longrightarrow> new_year (y - 1) \<le> thursday e \<and> thursday e < new_year y \<and>
      iso_weeks_in_year (y - 1) = (thursday e - new_year (y - 1)) div 7 + 1"
  proof -
    assume "w < 1"
    then have c: "D = 0" "0 < b" "iso_weeks_in_year (y - 1) = (P - b) div 7 + 1"
      using c(1) by (simp_all add: weeks_in_year_eq m)
    then show ?thesis using NP(2) J(3) unfolding c(3) y(2) q(4) qD J(1) by auto
  qed
  show "w > iso_weeks_in_year y \<Longrightarrow> new_year (y + 1) \<le> thursday e \<and> thursday e < new_year (y + 1) + 7"
    using c(2) unfolding wy y(1) q(4) qD J(1) by simp
  show "\<not> w < 1 \<Longrightarrow> \<not> w > iso_weeks_in_year y \<Longrightarrow> new_year y \<le> thursday e \<and> thursday e < new_year (y + 1) \<and>
      w = (thursday e - new_year y) div 7 + 1 \<and> w \<le> 53"
  proof -
    assume "\<not> w < 1" "\<not> w > iso_weeks_in_year y"
    then have "b \<le> 7 * D" "7 * D < b + N" "w \<le> 53" using c(3) unfolding wy by blast+
    moreover have "7 * q - new_year y = 7 * D - b" unfolding J(1) qD by simp
    ultimately show ?thesis using dw q(4) y(1) by linarith
  qed
qed

text \<open>
  C27. The week getter implements ISO 8601: for a valid date whose year is not the first or the
  last 32-bit year, it returns the year of the Thursday \<open>t\<close> of the date's week, and the number of
  the week is one more than the number of full weeks of that year before \<open>t\<close>. So the week number
  counts the Thursdays of the year, and lies between 1 and 53.
\<close>

theorem iso_week_of_year_counts_thursdays:
  assumes "valid_date (y, m, d)" "is_i32 (y - 1)" "is_i32 (y + 1)"
    and "valid_date t" "iso_date_to_epoch_days t = thursday (iso_date_to_epoch_days (y, m, d))"
  shows "iso_week_of_year (y, m, d) = Inr ((iso_day_of_year t - 1) div 7 + 1, fst t) \<and>
    iso_day_of_week t = 4 \<and> 1 \<le> (iso_day_of_year t - 1) div 7 + 1 \<and> (iso_day_of_year t - 1) div 7 + 1 \<le> 53"
proof -
  obtain yt mt dt where t: "t = (yt, mt, dt)" by (cases t)
  let ?e = "iso_date_to_epoch_days (y, m, d)"
  note c = week_of_year_cases [OF assms(1)]
  have T: "iso_date_to_epoch_days (yt, mt, dt) = thursday ?e" and vt: "valid_date (yt, mt, dt)"
    using assms(4,5) t by simp_all
  have W: "iso_day_of_week t = 4"
    by (rule thursday_form [of ?e]) (simp add: day_of_week_eq assms(5))
  have D: "iso_day_of_year t - 1 = thursday ?e - new_year yt" using day_of_year_eq [OF vt] T t by simp
  note year = year_of_day [OF vt, unfolded T]
  have N: "0 \<le> thursday ?e - new_year yt" "thursday ?e - new_year yt < 366"
    using in_year [OF vt] new_year_step [of yt] T by linarith+
  then have B: "0 \<le> (thursday ?e - new_year yt) div 7" "(thursday ?e - new_year yt) div 7 \<le> 52" by presburger+
  let ?w = "(iso_day_of_year (y, m, d) - iso_day_of_week (y, m, d) + 10) div 7"
  consider "?w < 1" | "\<not> ?w < 1" "?w > iso_weeks_in_year y" | "\<not> ?w < 1" "\<not> ?w > iso_weeks_in_year y" by blast
  then have "iso_week_of_year (y, m, d) = Inr ((thursday ?e - new_year yt) div 7 + 1, yt)"
  proof cases
    case 1
    then have "yt = y - 1" using c(1) year [of "y - 1"] by simp
    then show ?thesis using c(1) 1 assms(2) by (simp add: iso_week_of_year_def checked_in)
  next
    case 2
    then have "yt = y + 1" using c(2) year [of "y + 1"] new_year_step [of "y + 1"] by fastforce
    then show ?thesis using c(2) 2 assms(3) by (simp add: iso_week_of_year_def checked_in)
  next
    case 3
    then have "yt = y" using c(3) year [of y] by simp
    then show ?thesis using c(3) 3 by (simp add: iso_week_of_year_def as_unsigned_id in_signed_iff)
  qed
  then show ?thesis using W B by (simp add: D) (simp add: t)
qed

end
