(* ===== verification/Temporal_Difference.thy ===== *)
theory Temporal_Difference
  imports Temporal_Days
begin

text \<open>
  The difference of two dates, \<open>difference_iso_date\<close> of
  \<open>bluejs/src/vm/temporal/plain_date/calendar_difference.rs\<close>, and that adding it to the first
  date with \<open>add_iso_date\<close> gives the second. Both are read through the running number of a month,
  \<open>12 * year + month - 1\<close>.
\<close>

datatype date_unit = Unit_Year | Unit_Month | Unit_Week | Unit_Day

definition difference_iso_date :: "civil_date \<Rightarrow> civil_date \<Rightarrow> date_unit \<Rightarrow> (int \<times> int \<times> int \<times> int) arith" where
  "difference_iso_date start end largest_unit =
     (if compare_iso_date start end = Equal then Inr (0, 0, 0, 0)
      else
        let sign = (if compare_iso_date start end = Less then 1 else - 1)
        in if largest_unit \<noteq> Unit_Year \<and> largest_unit \<noteq> Unit_Month then
             (let days = iso_date_to_epoch_days end - iso_date_to_epoch_days start
              in Inr (if largest_unit = Unit_Week then (0, 0, days sdiv 7, days smod 7) else (0, 0, 0, days)))
           else
             (case (start, end) of ((y1, m1, d1), (y2, m2, d2)) \<Rightarrow>
                let two = (y2, m2, d2);
                    years = y2 - y1;
                    months = m2 - m1;
                    (years, months) =
                      (if surpasses sign (y1 + years, m1, d1) two then (years - sign, months + 12 * sign)
                       else (years, months))
                in res_bind (balance_iso_year_month (y1 + years) (m1 + months)) (\<lambda>(iy, im).
                   let months = (if surpasses sign (iy, im, d1) two then months - sign else months);
                       (years, months) = (if largest_unit = Unit_Month then (0, months + years * 12) else (years, months))
                   in res_bind (balance_iso_year_month (y1 + years) (m1 + months)) (\<lambda>(by, bm).
                      let by = (case try_signed 32 by of Some b \<Rightarrow> b | None \<Rightarrow> if by > 0 then 2147483647 else - 2147483648)
                      in res_bind (regulate_iso_date by bm d1 False) (\<lambda>r.
                         case r of
                           None \<Rightarrow> Inl Expect_Failed
                         | Some constrained \<Rightarrow>
                             Inr (years, months, 0, iso_date_to_epoch_days end - iso_date_to_epoch_days constrained))))))"

section \<open>Months\<close>

lemma balance_month:
  assumes "is_i64 (m - 1)" "is_i64 y'" "12 * y + m = 12 * y' + m'" "1 \<le> m'" "m' \<le> 12"
  shows "balance_iso_year_month y m = Inr (y', m')"
proof -
  have z: "m - 1 = 12 * (y' - y) + (m' - 1)" using assms(3) by simp
  have "(m - 1) div 12 = y' - y" "(m - 1) mod 12 = m' - 1"
    using assms(4,5) by (intro int_div_pos_eq [OF z] int_mod_pos_eq [OF z]; simp)+
  then show ?thesis
    using assms(1,2,4,5) by (simp add: balance_iso_year_month_def as_unsigned_id in_signed_iff(3))
qed

lemma regulate_constrains:
  assumes "1 \<le> m" "m \<le> 12" "1 \<le> d" "d \<le> 31"
  shows "regulate_iso_date y m d False = Inr (Some (y, m, min d (month_length y m)))"
proof -
  have "28 \<le> month_length y m" using month_length_bounds [OF assms(1,2)] by blast
  then have "max 1 (min d (month_length y m)) = min d (month_length y m)" "0 \<le> min d (month_length y m)"
    "min d (month_length y m) < 256"
    using assms(3,4) by auto
  then show ?thesis
    unfolding regulate_iso_date_def iso_days_in_month_Inr [OF assms(1,2)]
    by (simp add: as_unsigned_id in_signed_iff(3))
qed

lemma days_of_month: "iso_date_to_epoch_days (y, m, d) = iso_date_to_epoch_days (y, m, 1) + d - 1"
  by (simp add: epoch_days_eq)

lemma next_month:
  assumes "1 \<le> m" "m \<le> 12" "1 \<le> m'" "m' \<le> 12" "12 * y' + m' = 12 * y + m + 1"
  shows "iso_date_to_epoch_days (y', m', 1) = iso_date_to_epoch_days (y, m, 1) + month_length y m"
proof -
  have l: "28 \<le> month_length y m" using month_length_bounds [OF assms(1,2)] by blast
  then have v: "valid_date (y, m, month_length y m)" using assms(1,2) by (simp add: valid_date_def)
  have "(y', m') = (if m < 12 then (y, m + 1) else (y + 1, 1))"
    using assms by (cases "m < 12") (simp_all, presburger+)
  then have "next_day (y, m, month_length y m) = (y', m', 1)" by (auto simp: next_day_def split: if_splits)
  then show ?thesis
    using next_day_counts(2) [OF v] days_of_month [of y m "month_length y m"] by simp
qed

section \<open>Adding\<close>

lemma balance_date:
  assumes "valid_date c" "is_i32 (fst c)" "1 \<le> m" "m \<le> 12" "is_i32 y" "\<bar>day\<bar> < 2000000000000"
    and "iso_date_to_epoch_days c = iso_date_to_epoch_days (y, m, 1) + day - 1"
  shows "balance_iso_date y m day = Inr c"
proof -
  have "valid_date (y, m, 1)" using assms(3,4) month_length_bounds [OF assms(3,4), of y] by (simp add: valid_date_def)
  then have "is_i64 (iso_date_to_epoch_days (y, m, 1) + day)" "is_i64 (iso_date_to_epoch_days (y, m, 1) + day - 1)"
    using epoch_days_bounds [of y m 1] assms(5,6) unfolding in_signed_iff by linarith+
  then show ?thesis
    using days_to_date_of_days [OF assms(1,2)] assms(7) by (simp add: balance_iso_date_def)
qed

lemma add_lands:
  assumes "valid_date (y, m, d)" "is_i32 y" "valid_date c" "is_i32 (fst c)"
    and "\<bar>ys\<bar> < 100000000000" "\<bar>ms\<bar> < 200000000000" "\<bar>ws\<bar> < 280000000000" "\<bar>ds\<bar> < 1900000000000"
    and "\<bar>ds + ws * 7\<bar> < 1900000000000"
    and "12 * (y + ys) + (m + ms) = 12 * y' + m'" "1 \<le> m'" "m' \<le> 12" "is_i32 y'"
    and "iso_date_to_epoch_days c = iso_date_to_epoch_days (y', m', min d (month_length y' m')) + ds + ws * 7"
  shows "add_iso_date (y, m, d) ys ms ws ds False = Inr (Some c)"
proof -
  have v: "1 \<le> m" "m \<le> 12" "1 \<le> d" "d \<le> 31"
    using assms(1) month_length_bounds [of m y] by (auto simp: valid_date_def)
  have l: "28 \<le> month_length y' m'" using month_length_bounds [OF assms(11,12)] by blast
  define e where "e = min d (month_length y' m')"
  have e: "1 \<le> e" "e \<le> 31" using v l by (simp_all add: e_def)
  have i: "is_i64 (y + ys)" "is_i64 (m + ms)" "is_i64 (m + ms - 1)" "is_i64 y'" "is_i64 (e + ds)" "is_i64 (ws * 7)"
    "is_i64 (e + ds + ws * 7)"
    using assms(2,5-9,13) v e unfolding in_signed_iff by linarith+
  have "balance_iso_date y' m' (e + ds + ws * 7) = Inr c"
  proof (rule balance_date [OF assms(3,4,11,12,13)])
    show "\<bar>e + ds + ws * 7\<bar> < 2000000000000" using e assms(9) by linarith
    show "iso_date_to_epoch_days c = iso_date_to_epoch_days (y', m', 1) + (e + ds + ws * 7) - 1"
      using assms(14) days_of_month [of y' m' e] by (simp add: e_def)
  qed
  then show ?thesis
    using i assms(13) balance_month [OF i(3,4) assms(10-12)] regulate_constrains [OF assms(11,12) v(3,4)]
    by (simp add: add_iso_date_def e_def)
qed

section \<open>The difference in years, months and days\<close>

text \<open>
  Without the clamps and the casts: the months between two dates, less one when the day of the
  month has not been reached, are split into years and months, and the days that are left are
  counted from the day of the first date, or the last day of the month when that is earlier.
\<close>

definition months_between :: "int \<Rightarrow> civil_date \<Rightarrow> civil_date \<Rightarrow> int" where
  "months_between sign = (\<lambda>(y1, m1, d1) (y2, m2, d2).
     12 * y2 + m2 - (12 * y1 + m1) - (if 0 < sign * (d1 - d2) then sign else 0))"

lemma surpasses_iff:
  assumes "sign = 1 \<or> sign = - 1"
  shows "surpasses sign (y1, m1, d1) (y2, m2, d2) \<longleftrightarrow>
    0 < sign * (y1 - y2) \<or> y1 = y2 \<and> (0 < sign * (m1 - m2) \<or> m1 = m2 \<and> 0 < sign * (d1 - d2))"
  using assms by (auto simp: surpasses_def split: if_splits)

text \<open>The landing month of an addition lies between the two dates.\<close>

lemma days_after_landing:
  assumes "sign = 1 \<or> sign = - 1" "valid_date (y1, m1, d1)" "valid_date (y2, m2, d2)"
    and "12 * y' + m' = 12 * y2 + m2 - (if 0 < sign * (d1 - d2) then sign else 0)" "1 \<le> m'" "m' \<le> 12"
  defines "days \<equiv> iso_date_to_epoch_days (y2, m2, d2) - iso_date_to_epoch_days (y', m', min d1 (month_length y' m'))"
  shows "0 \<le> sign * days \<and> \<bar>days\<bar> \<le> 30"
proof -
  have v: "1 \<le> m2" "m2 \<le> 12" "1 \<le> d1" "1 \<le> d2" "d2 \<le> month_length y2 m2" "d1 \<le> 31"
    using assms(2,3) month_length_bounds [of m1 y1] by (auto simp: valid_date_def)
  have l: "28 \<le> month_length y2 m2" "month_length y2 m2 \<le> 31" "28 \<le> month_length y' m'" "month_length y' m' \<le> 31"
    using month_length_bounds v(1,2) assms(5,6) by blast+
  define e where "e = min d1 (month_length y' m')"
  have e: "e \<le> d1" "e \<le> month_length y' m'" "e = d1 \<or> e = month_length y' m'" "1 \<le> e" using v(3) l by (auto simp: e_def)
  have days: "days = iso_date_to_epoch_days (y2, m2, 1) + d2 - iso_date_to_epoch_days (y', m', 1) - e"
    using days_of_month [of y2 m2 d2] days_of_month [of y' m' e] by (simp add: days_def e_def)
  consider "0 < sign * (d1 - d2)" "sign = 1" | "0 < sign * (d1 - d2)" "sign = - 1" | "\<not> 0 < sign * (d1 - d2)"
    using assms(1) by blast
  then show ?thesis
  proof cases
    case 1
    then have "iso_date_to_epoch_days (y2, m2, 1) = iso_date_to_epoch_days (y', m', 1) + month_length y' m'"
      using next_month [OF assms(5,6) v(1,2)] assms(4) by simp
    then show ?thesis using 1 days e v l by (simp add: abs_le_iff) linarith
  next
    case 2
    then have "iso_date_to_epoch_days (y', m', 1) = iso_date_to_epoch_days (y2, m2, 1) + month_length y2 m2"
      using next_month [OF v(1,2) assms(5,6)] assms(4) by simp
    then show ?thesis using 2 days e v l by (simp add: abs_le_iff)
  next
    case 3
    then have "12 * y' + m' = 12 * y2 + m2" using assms(4) by simp
    then have "y' = y2" "m' = m2" using assms(5,6) v(1,2) by presburger+
    then show ?thesis using 3 days e v l assms(1) by (auto simp: abs_le_iff e_def)
  qed
qed

definition years_between :: "int \<Rightarrow> civil_date \<Rightarrow> civil_date \<Rightarrow> int" where
  "years_between sign = (\<lambda>(y1, m1, d1) (y2, m2, d2).
     y2 - y1 - (if surpasses sign (y2, m1, d1) (y2, m2, d2) then sign else 0))"

definition date_sign :: "civil_date \<Rightarrow> civil_date \<Rightarrow> int" where
  "date_sign a b = sgn (iso_date_to_epoch_days b - iso_date_to_epoch_days a)"

lemma date_sign_iff:
  assumes "valid_date a" "valid_date b" "a \<noteq> b"
  shows "(if compare_iso_date a b = Less then 1 else - 1) = date_sign a b" "compare_iso_date a b \<noteq> Equal"
    "date_sign a b = 1 \<or> date_sign a b = - 1" "surpasses (date_sign a b) b a"
proof -
  have ne: "iso_date_to_epoch_days a \<noteq> iso_date_to_epoch_days b" using epoch_days_inject [OF assms(1,2)] assms(3) by blast
  then show s: "(if compare_iso_date a b = Less then 1 else - 1) = date_sign a b" "compare_iso_date a b \<noteq> Equal"
    using compare_days [OF assms(1,2)] by (auto simp: date_sign_def)
  then show "date_sign a b = 1 \<or> date_sign a b = - 1" by (metis (full_types))
  show "surpasses (date_sign a b) b a"
    using compare_days [OF assms(2,1)] ne by (auto simp: surpasses_def date_sign_def compare_iso_date_def)
qed

text \<open>Years and months have the sign of the difference, and fewer than twelve months remain.\<close>

lemma between_signs:
  assumes "valid_date a" "valid_date b" "a \<noteq> b"
  defines "s \<equiv> date_sign a b"
  shows "0 \<le> s * years_between s a b" "0 \<le> s * (months_between s a b - 12 * years_between s a b)"
    "s * (months_between s a b - 12 * years_between s a b) \<le> 11" "0 \<le> s * months_between s a b"
proof -
  obtain y1 m1 d1 y2 m2 d2 where p: "a = (y1, m1, d1)" "b = (y2, m2, d2)" by (metis prod_cases3)
  have m: "1 \<le> m1" "m1 \<le> 12" "1 \<le> m2" "m2 \<le> 12" using assms(1,2) by (simp_all add: p valid_date_def)
  have s: "s = 1 \<or> s = - 1" "surpasses s b a" using date_sign_iff [OF assms(1-3)] by (simp_all add: s_def)
  note u = years_between_def months_between_def p case_prod_conv surpasses_iff [OF s(1)]
  show "0 \<le> s * years_between s a b" using s m unfolding u by (elim disjE) auto
  moreover show "0 \<le> s * (months_between s a b - 12 * years_between s a b)"
    "s * (months_between s a b - 12 * years_between s a b) \<le> 11"
    using s m unfolding u by (elim disjE; auto)+
  ultimately show "0 \<le> s * months_between s a b" using s(1) by auto
qed

lemma month_number: obtains y m where "12 * y + m = (k :: int)" "1 \<le> m" "m \<le> 12"
  using that [of "(k - 1) div 12" "(k - 1) mod 12 + 1"] by simp

text \<open>The month that lies that many months after the first date is not outside the two dates.\<close>

lemma landing_year:
  assumes "valid_date (y1, m1, d1)" "valid_date (y2, m2, d2)" "(y1, m1, d1) \<noteq> (y2, m2, d2)" "is_i32 y1" "is_i32 y2"
  defines "s \<equiv> date_sign (y1, m1, d1) (y2, m2, d2)"
  assumes "12 * y + m = 12 * y1 + m1 + months_between s (y1, m1, d1) (y2, m2, d2)" "1 \<le> m" "m \<le> 12"
  shows "is_i32 y"
proof -
  have m: "1 \<le> m1" "m1 \<le> 12" "1 \<le> m2" "m2 \<le> 12" using assms(1,2) by (simp_all add: valid_date_def)
  have s: "s = 1 \<or> s = - 1" using date_sign_iff(3) [OF assms(1-3)] by (simp add: s_def)
  note p = between_signs(4) [OF assms(1-3), folded s_def]
  have "y1 \<le> y \<and> y \<le> y2 \<or> y2 \<le> y \<and> y \<le> y1"
    using s p assms(7-9) m by (elim disjE) (auto simp: months_between_def split: if_splits)
  then show ?thesis using assms(4,5) unfolding in_signed_iff by linarith
qed

lemma difference_in_months:
  assumes "valid_date (y1, m1, d1)" "valid_date (y2, m2, d2)" "(y1, m1, d1) \<noteq> (y2, m2, d2)" "is_i32 y1" "is_i32 y2"
  defines "s \<equiv> date_sign (y1, m1, d1) (y2, m2, d2)"
  defines "mb \<equiv> months_between s (y1, m1, d1) (y2, m2, d2)" and "yb \<equiv> years_between s (y1, m1, d1) (y2, m2, d2)"
  assumes "12 * y + m = 12 * y1 + m1 + mb" "1 \<le> m" "m \<le> 12" "is_i32 y"
    and u: "u = Unit_Year \<and> ys = yb \<and> ms = mb - 12 * yb \<or> u = Unit_Month \<and> ys = 0 \<and> ms = mb"
  shows "difference_iso_date (y1, m1, d1) (y2, m2, d2) u =
    Inr (ys, ms, 0, iso_date_to_epoch_days (y2, m2, d2) - iso_date_to_epoch_days (y, m, min d1 (month_length y m)))"
proof -
  note si = date_sign_iff [OF assms(1-3), folded s_def]
  have v: "1 \<le> m1" "m1 \<le> 12" "1 \<le> m2" "m2 \<le> 12" "1 \<le> d1" "d1 \<le> 31"
    using assms(1,2) month_length_bounds [of m1 y1] by (auto simp: valid_date_def)
  let ?a = "surpasses s (y2, m1, d1) (y2, m2, d2)"
  define mo where "mo = m2 - m1 + (if ?a then 12 * s else 0)"
  have yb: "y2 - y1 - (if ?a then s else 0) = yb" by (simp add: yb_def years_between_def)
  have pair: "(if ?a then (y2 - y1 - s, m2 - m1 + 12 * s) else (y2 - y1, m2 - m1)) = (yb, mo)"
    by (simp add: mo_def yb [symmetric])
  have c1: "12 * (y1 + yb) + (m1 + mo) = 12 * y2 + m2" by (simp add: mo_def yb [symmetric])
  have bm: "mo - (if surpasses s (y2, m2, d1) (y2, m2, d2) then s else 0) = mb - 12 * yb"
    using c1 si(3) by (auto simp: mb_def months_between_def surpasses_iff)
  have s1: "s = 1 \<or> s = - 1" by (rule si(3))
  have "\<bar>mo\<bar> \<le> 23" using s1 v by (auto simp: mo_def)
  have "is_i64 (m1 + mo - 1)" "is_i64 y2" "is_i64 y"
    using \<open>\<bar>mo\<bar> \<le> 23\<close> v assms(4,5,12) unfolding in_signed_iff by linarith+
  moreover have "is_i64 (m1 + ms - 1)"
    using u assms(4,5) v \<open>12 * y + m = _\<close> assms(10-12) bm \<open>\<bar>mo\<bar> \<le> 23\<close> s1 unfolding in_signed_iff by (auto split: if_splits)
  moreover have "12 * (y1 + ys) + (m1 + ms) = 12 * y + m" using u assms(9) by auto
  ultimately have b: "balance_iso_year_month (y1 + yb) (m1 + mo) = Inr (y2, m2)"
    "balance_iso_year_month (y1 + ys) (m1 + ms) = Inr (y, m)"
    using balance_month c1 v(3,4) assms(10,11) by blast+
  have sub: "(if surpasses s (y2, m2, d1) (y2, m2, d2) then mo - s else mo) = mb - 12 * yb"
    by (simp add: bm [symmetric])
  show ?thesis
    unfolding difference_iso_date_def si(1) Let_def case_prod_conv
    using u b(2) si(2)
    by (elim disjE conjE) (simp_all add: pair b(1) sub assms(12) regulate_constrains v assms(10,11))
qed

lemma add_days_lands:
  assumes "valid_date a" "is_i32 (fst a)" "valid_date c" "is_i32 (fst c)"
    and "iso_date_to_epoch_days c = iso_date_to_epoch_days a + ds + ws * 7" "\<bar>ws\<bar> < 280000000000" "\<bar>ds\<bar> < 1900000000000"
  shows "add_iso_date a 0 0 ws ds False = Inr (Some c)"
proof -
  obtain y m d where p: "a = (y, m, d)" by (cases a)
  have v: "1 \<le> m" "m \<le> 12" "min d (month_length y m) = d" using assms(1) by (simp_all add: p valid_date_def)
  have "\<bar>ds + ws * 7\<bar> < 1900000000000"
    using assms(5) epoch_days_bounds [of "fst a" "fst (snd a)" "snd (snd a)"] epoch_days_bounds [of "fst c" "fst (snd c)" "snd (snd c)"] assms(1-4)
    by simp
  then show ?thesis
    unfolding p using assms v by (intro add_lands [where y' = y and m' = m]) (simp_all add: p)
qed

lemma truncated_weeks:
  fixes n :: int
  shows "n sdiv 7 * 7 + n smod 7 = n" "0 \<le> sgn n * (n sdiv 7)" "0 \<le> sgn n * (n smod 7)" "\<bar>n smod 7\<bar> \<le> 6"
    "\<bar>n sdiv 7\<bar> * 7 \<le> \<bar>n\<bar>"
proof -
  have d: "n sdiv 7 = sgn n * (\<bar>n\<bar> div 7)" by (simp add: signed_divide_int_def)
  have m: "n smod 7 = sgn n * (\<bar>n\<bar> mod 7)" by (simp add: signed_modulo_int_def)
  show "n sdiv 7 * 7 + n smod 7 = n"
    unfolding d m by (metis distrib_left div_mult_mod_eq mult.assoc mult_sgn_abs)
  show "0 \<le> sgn n * (n sdiv 7)" "0 \<le> sgn n * (n smod 7)" "\<bar>n smod 7\<bar> \<le> 6"
    unfolding d m by (auto simp: sgn_if)
  have "\<bar>n\<bar> div 7 * 7 \<le> \<bar>n\<bar>" by simp
  moreover have "\<bar>n sdiv 7\<bar> \<le> \<bar>n\<bar> div 7" unfolding d by (simp add: abs_mult sgn_if)
  ultimately show "\<bar>n sdiv 7\<bar> * 7 \<le> \<bar>n\<bar>" by linarith
qed

lemma difference_in_days:
  assumes "valid_date a" "valid_date b" "is_i32 (fst a)" "is_i32 (fst b)" "a = b \<or> u = Unit_Week \<or> u = Unit_Day"
  defines "n \<equiv> iso_date_to_epoch_days b - iso_date_to_epoch_days a"
  defines "r \<equiv> if u = Unit_Week then (0, 0, n sdiv 7, n smod 7) else (0, 0, 0, n)"
  shows "difference_iso_date a b u = Inr r \<and> add_iso_date a 0 0 (fst (snd (snd r))) (snd (snd (snd r))) False = Inr (Some b)"
proof
  have "n = 0" if "a = b" using that by (simp add: n_def)
  then have "r = (0, 0, 0, 0)" if "a = b" using that by (auto simp: r_def signed_divide_int_def signed_modulo_int_def)
  moreover have "compare_iso_date a b = Equal \<longleftrightarrow> a = b" by (simp add: compare_iso_date_def)
  ultimately show "difference_iso_date a b u = Inr r"
    using assms(5) unfolding difference_iso_date_def by (auto simp: r_def n_def Let_def)
  have "\<bar>n\<bar> < 1800000000000"
    using epoch_days_bounds [of "fst a" "fst (snd a)" "snd (snd a)"] epoch_days_bounds [of "fst b" "fst (snd b)" "snd (snd b)"] assms(1-4)
    by (simp add: n_def)
  then show "add_iso_date a 0 0 (fst (snd (snd r))) (snd (snd (snd r))) False = Inr (Some b)"
    using truncated_weeks [of n]
    by (intro add_days_lands [OF assms(1,3,2,4)]) (auto simp: r_def n_def)
qed

lemma difference_lands:
  assumes "valid_date a" "valid_date b" "is_i32 (fst a)" "is_i32 (fst b)" "a \<noteq> b"
  defines "s \<equiv> date_sign a b"
  assumes u: "u = Unit_Year \<and> ys = years_between s a b \<and> ms = months_between s a b - 12 * ys \<or>
    u = Unit_Month \<and> ys = 0 \<and> ms = months_between s a b"
  shows "\<exists>ds. difference_iso_date a b u = Inr (ys, ms, 0, ds) \<and> add_iso_date a ys ms 0 ds False = Inr (Some b) \<and>
    0 \<le> s * ds \<and> \<bar>ds\<bar> \<le> 30"
proof -
  obtain y1 m1 d1 y2 m2 d2 where p: "a = (y1, m1, d1)" "b = (y2, m2, d2)" by (metis prod_cases3)
  note va = assms(1) [unfolded p(1)] assms(2) [unfolded p(2)] assms(5) [unfolded p] assms(3,4) [unfolded p fst_conv]
  have sp: "s = date_sign (y1, m1, d1) (y2, m2, d2)" by (simp add: s_def p)
  have s1: "s = 1 \<or> s = - 1" using date_sign_iff(3) [OF va(1-3)] sp by simp
  obtain y m where land: "12 * y + m = 12 * y1 + m1 + months_between s a b" "1 \<le> m" "m \<le> 12" by (rule month_number)
  have i: "is_i32 y" using landing_year [OF va] land by (simp add: sp p)
  define ds where "ds = iso_date_to_epoch_days (y2, m2, d2) - iso_date_to_epoch_days (y, m, min d1 (month_length y m))"
  have "0 \<le> s * ds \<and> \<bar>ds\<bar> \<le> 30"
    unfolding ds_def using land by (intro days_after_landing [OF s1 va(1,2)]) (auto simp: p months_between_def)
  moreover have "difference_iso_date a b u = Inr (ys, ms, 0, ds)"
    using difference_in_months [OF va _ land(2,3) i, of u ys ms] land(1) u by (auto simp: ds_def p sp)
  moreover have "add_iso_date a ys ms 0 ds False = Inr (Some b)"
  proof -
    have m: "1 \<le> m1" "m1 \<le> 12" using va(1) by (simp_all add: valid_date_def)
    have k: "12 * (y1 + ys) + (m1 + ms) = 12 * y + m" using u land(1) by auto
    have "\<bar>ys\<bar> < 5000000000"
      using u va(4,5) s1 unfolding in_signed_iff by (auto simp: years_between_def p)
    moreover from this have "\<bar>ms\<bar> < 200000000000" using k m land(2,3) i va(4) unfolding in_signed_iff by auto
    moreover have "iso_date_to_epoch_days b = iso_date_to_epoch_days (y, m, min d1 (month_length y m)) + ds + 0 * 7"
      by (simp add: ds_def p)
    ultimately show ?thesis
      unfolding p(1) using \<open>0 \<le> s * ds \<and> \<bar>ds\<bar> \<le> 30\<close> k
      by (intro add_lands [OF va(1,4) assms(2,4)], simp_all only: land(2,3) i) simp_all
  qed
  ultimately show ?thesis by blast
qed

text \<open>
  C?. The difference of two dates is exact in every unit: for valid dates with 32-bit years it is
  computed without a panic, and adding it to the first date gives the second. Its years, months,
  weeks and days all have the sign of the difference; with weeks as the largest unit at most six
  days remain, with months or years at most thirty, and with years at most eleven months.
\<close>

theorem difference_iso_date_adds_back:
  assumes "valid_date a" "valid_date b" "is_i32 (fst a)" "is_i32 (fst b)"
  shows "\<exists>ys ms ws ds. difference_iso_date a b u = Inr (ys, ms, ws, ds) \<and>
    add_iso_date a ys ms ws ds False = Inr (Some b) \<and>
    list_all (\<lambda>n. 0 \<le> date_sign a b * n) [ys, ms, ws, ds] \<and>
    (case u of Unit_Year \<Rightarrow> \<bar>ms\<bar> \<le> 11 \<and> ws = 0 \<and> \<bar>ds\<bar> \<le> 30
     | Unit_Month \<Rightarrow> ys = 0 \<and> ws = 0 \<and> \<bar>ds\<bar> \<le> 30
     | Unit_Week \<Rightarrow> ys = 0 \<and> ms = 0 \<and> \<bar>ds\<bar> \<le> 6
     | Unit_Day \<Rightarrow> ys = 0 \<and> ms = 0 \<and> ws = 0)"
proof -
  consider "a \<noteq> b" "u = Unit_Year" | "a \<noteq> b" "u = Unit_Month" | "a = b \<or> u = Unit_Week \<or> u = Unit_Day"
    using date_unit.exhaust by blast
  then show ?thesis
  proof cases
    case 1
    note s = between_signs [OF assms(1,2) 1(1)]
    have "\<bar>x\<bar> \<le> 11" if "date_sign a b * x \<le> 11" "0 \<le> date_sign a b * x" for x
      using that date_sign_iff(3) [OF assms(1,2) 1(1)] by auto
    then show ?thesis using difference_lands [OF assms 1(1), of u] s 1(2) by fastforce
  next
    case 2
    then show ?thesis using difference_lands [OF assms 2(1), of u] between_signs [OF assms(1,2) 2(1)] by fastforce
  next
    case 3
    let ?n = "iso_date_to_epoch_days b - iso_date_to_epoch_days a"
    have "a = b \<Longrightarrow> ?n = 0" "date_sign a b = sgn ?n" by (simp_all add: date_sign_def)
    moreover have "0 \<le> sgn ?n * ?n" by (simp add: sgn_if)
    ultimately show ?thesis
      using difference_in_days [OF assms 3] truncated_weeks [of ?n] 3 by (cases u) auto
  qed
qed

end
