(* ===== verification/Temporal_Examples.thy ===== *)
theory Temporal_Examples
  imports Temporal_Weeks Temporal_Difference
begin

text \<open>The theorems on the ISO calendar applied to concrete dates.\<close>

lemma example_dates:
  "valid_date (2024, 2, 28)" "valid_date (2023, 3, 1)" "valid_date (2021, 1, 3)" "valid_date (2020, 12, 31)"
  "valid_date (2024, 2, 29)"
  "valid_date (2019, 1, 31)" "valid_date (2021, 2, 28)"
  by code_simp+

theorem epoch_days_count_witness:
  "iso_date_to_epoch_days ((next_day ^^ 2) (2024, 2, 28)) = 19783 \<and> compare_iso_date (2024, 2, 28) (2023, 3, 1) = Greater"
proof -
  have e: "iso_date_to_epoch_days (2024, 2, 28) = 19781" "iso_date_to_epoch_days (2023, 3, 1) = 19417" by code_simp+
  show ?thesis using epoch_days_count [OF example_dates(1,2), of 2] e by simp
qed

theorem epoch_days_round_trip_witness:
  "epoch_days_to_iso_date 19782 = Inr (2024, 2, 29) \<and>
    (\<exists>c'. epoch_days_to_iso_date (- 1) = Inr c' \<and> valid_date c' \<and> is_i32 (fst c') \<and> iso_date_to_epoch_days c' = - 1)"
proof -
  have "iso_date_to_epoch_days (2024, 2, 29) = 19782" "is_i32 (fst (2024, 2, 29))" "\<bar>- 1 :: int\<bar> \<le> 784000000000"
    by code_simp+
  then show ?thesis using epoch_days_round_trip [OF example_dates(5), of "- 1"] by simp
qed

text \<open>Sunday 2021-01-03 is in the last week of 2020, whose Thursday is New Year's Eve.\<close>

theorem iso_week_of_year_counts_thursdays_witness:
  "iso_week_of_year (2021, 1, 3) = Inr (53, 2020)"
proof -
  have "is_i32 (2021 - 1)" "is_i32 (2021 + 1)"
    "iso_date_to_epoch_days (2020, 12, 31) = thursday (iso_date_to_epoch_days (2021, 1, 3))"
    by code_simp+
  note w = iso_week_of_year_counts_thursdays [OF example_dates(3) this(1,2) example_dates(4) this(3)]
  have "(iso_day_of_year (2020, 12, 31) - 1) div 7 + 1 = 53" by code_simp
  then show ?thesis using w by simp
qed

text \<open>From 2019-01-31 to 2021-02-28 are two years and 28 days: the 31st of February is past the 28th.\<close>

theorem difference_iso_date_adds_back_witness:
  "difference_iso_date (2019, 1, 31) (2021, 2, 28) Unit_Year = Inr (2, 0, 0, 28) \<and>
   add_iso_date (2019, 1, 31) 2 0 0 28 False = Inr (Some (2021, 2, 28))"
proof -
  have "is_i32 (fst (2019, 1, 31))" "is_i32 (fst (2021, 2, 28))"
    "difference_iso_date (2019, 1, 31) (2021, 2, 28) Unit_Year = Inr (2, 0, 0, 28)"
    by code_simp+
  then show ?thesis using difference_iso_date_adds_back [OF example_dates(6,7), of Unit_Year] by auto
qed

end
