(* ===== verification/Spec2Isabelle.thy ===== *)
theory Spec2Isabelle
  imports Css_Examples Html_Examples Html_Divergence Html_Safety_Examples Temporal_Examples
begin

text \<open>
  Verification of BlueIce.
\<close>

end
